(* ===== verification/Prelude.thy ===== *)
theory Prelude
  imports Main "HOL-Library.Word" "HOL-Library.Monad_Syntax" "HOL-Library.Sublist"
begin

text \<open>
  Shared vocabulary of the SmartSNMP development: the C integer types, byte buffers with
  checked reads and writes, the byte image of 32-bit words on a little-endian host, and the
  generic list, option and word lemmas the component theories use.

  A C computation that may run into undefined behaviour (a read or write outside an object,
  a failed assertion, a null dereference, a loop counter that overflows) is an \<open>option\<close>
  value: \<open>None\<close> stands for the undefined outcome, \<open>Some r\<close> for a regular return.
\<close>

unbundle bit_operations_syntax

type_synonym u8 = "8 word"
type_synonym u16 = "16 word"
type_synonym u32 = "32 word"
type_synonym u64 = "64 word"
type_synonym bytes = "u8 list"
type_synonym oid_t = u32
type_synonym oid = "oid_t list"

named_theorems cmem \<comment> \<open>evaluation of buffer accesses\<close>
named_theorems ber \<comment> \<open>round trips and sizes of the BER coder\<close>

subsection \<open>Buffers\<close>

text \<open>Checked accesses to a buffer: one element, \<open>n\<close> elements from an offset, a
  \<open>memcpy\<close> to the start of an object, and a store at an offset of a buffer whose first
  cells are initialised and whose size is \<open>cap\<close>.\<close>

definition rd :: "'a list \<Rightarrow> nat \<Rightarrow> 'a option" where
  "rd b i = (if i < length b then Some (b ! i) else None)"

definition rdn :: "'a list \<Rightarrow> nat \<Rightarrow> nat \<Rightarrow> 'a list option" where
  "rdn b i n = (if i + n \<le> length b then Some (take n (drop i b)) else None)"

definition wr :: "'a list \<Rightarrow> 'a list \<Rightarrow> 'a list option" where
  "wr obj img = (if length img \<le> length obj then Some (img @ drop (length img) obj) else None)"

definition put :: "nat \<Rightarrow> 'a list \<Rightarrow> nat \<Rightarrow> 'a \<Rightarrow> 'a list option" where
  "put cap b i x =
     (if i < length b then Some (b[i := x])
      else if i = length b \<and> i < cap then Some (b @ [x]) else None)"

lemma rd_append1 [cmem]: "i < length xs \<Longrightarrow> rd (xs @ ys) i = rd xs i"
  by (simp add: rd_def nth_append)

lemma rd_append2 [cmem]: "rd (xs @ ys) (length xs + i) = rd ys i"
  by (simp add: rd_def nth_append)

lemma rd_0 [cmem]: "rd (x # xs) 0 = Some x"
  by (simp add: rd_def)

lemma rd_Suc [cmem]: "rd (x # xs) (Suc i) = rd xs i"
  by (simp add: rd_def)

lemma rdn_append [cmem]: "rdn (xs @ ys) (length xs + i) n = rdn ys i n"
  by (simp add: rdn_def)

lemma rdn_0 [cmem]: "length xs = n \<Longrightarrow> rdn (xs @ ys) 0 n = Some xs"
  by (auto simp: rdn_def)

lemma rdn_length: "rdn b i n = Some xs \<Longrightarrow> length xs = n"
  by (auto simp: rdn_def split: if_splits)

lemma wr_length: "wr obj img = Some obj' \<Longrightarrow> length obj' = length obj"
  by (auto simp: wr_def split: if_splits)

lemma wr_fits: "(\<exists>obj'. wr obj img = Some obj') \<longleftrightarrow> length img \<le> length obj"
  by (simp add: wr_def)

lemma wr_take: "wr obj img = Some obj' \<Longrightarrow> take (length img) obj' = img"
  by (auto simp: wr_def split: if_splits)

lemma unat_word_of_nat: "n < 2 ^ 32 \<Longrightarrow> unat (word_of_nat n :: u32) = n"
  by (simp add: unsigned_of_nat take_bit_nat_eq_self)

subsection \<open>Bytes of a 32-bit word\<close>

text \<open>The bytes of a word, most significant first, and its memory image on the
  little-endian hosts the default build targets.\<close>

definition be32 :: "u32 \<Rightarrow> bytes" where
  "be32 w = [ucast (drop_bit 24 w), ucast (drop_bit 16 w), ucast (drop_bit 8 w), ucast w]"

definition le32 :: "u32 \<Rightarrow> bytes" where
  "le32 w = rev (be32 w)"

definition acc8 :: "u32 \<Rightarrow> u8 \<Rightarrow> u32" where
  "acc8 v b = push_bit 8 v OR ucast b"

definition of_le32 :: "bytes \<Rightarrow> u32" where
  "of_le32 bs = foldl acc8 0 (rev (take 4 bs))"

lemma length_be32 [simp]: "length (be32 w) = 4"
  by (simp add: be32_def)

lemma length_le32 [simp]: "length (le32 w) = 4"
  by (simp add: le32_def)

lemma be32_fold: "foldl acc8 0 (be32 w) = w"
proof (rule bit_word_eqI)
  fix n assume "n < LENGTH(32)"
  then consider "n < 8" | "8 \<le> n" "n < 16" | "16 \<le> n" "n < 24" | "24 \<le> n" "n < 32"
    by fastforce
  then show "bit (foldl acc8 0 (be32 w)) n = bit w n"
    by cases (auto simp: be32_def acc8_def bit_simps)
qed

lemma of_le32_le32 [simp]: "of_le32 (le32 w @ rest) = w"
  by (simp add: of_le32_def le32_def be32_fold)

lemma of_le32_le32_all [simp]: "of_le32 (le32 w) = w"
  using of_le32_le32 [of w "[]"] by simp

lemma le32_nonempty [simp]: "le32 w \<noteq> []"
  by (simp add: le32_def be32_def)

end
