(* ===== verification/Ber_Encoder.thy ===== *)
theory Ber_Encoder
  imports Prelude
begin

text \<open>
  The BER encoder (\<open>core/snmp_encoder.c\<close>). Every \<open>_enc\<close> function of the source writes bytes
  to a buffer and returns how many; here it returns the list of the bytes written. Every
  \<open>_enc_try\<close> function predicts that number, and callers allocate with it. The source has a
  little-endian and a big-endian branch, selected by \<open>LITTLE_ENDIAN\<close>; the names with the suffix
  \<open>_be\<close> are the \<open>#else\<close> branches. A value to encode is passed as a pointer to memory; here
  it is the byte image \<open>mem\<close> of the object it points to.

  The lemmas show that the predictions are exact except where the source's 8-bit counters
  wrap (object identifiers), that the encodings are the shortest ones, and where the two
  branches agree.
\<close>

section \<open>ASN.1 tags (core/asn1.h)\<close>

abbreviation "ASN1_TAG_BOOL \<equiv> (0x01 :: u8)"
abbreviation "ASN1_TAG_INT \<equiv> (0x02 :: u8)"
abbreviation "ASN1_TAG_BITSTR \<equiv> (0x03 :: u8)"
abbreviation "ASN1_TAG_OCTSTR \<equiv> (0x04 :: u8)"
abbreviation "ASN1_TAG_NUL \<equiv> (0x05 :: u8)"
abbreviation "ASN1_TAG_OBJID \<equiv> (0x06 :: u8)"
abbreviation "ASN1_TAG_SEQ \<equiv> (0x30 :: u8)"
abbreviation "ASN1_TAG_IPADDR \<equiv> (0x40 :: u8)"
abbreviation "ASN1_TAG_CNT \<equiv> (0x41 :: u8)"
abbreviation "ASN1_TAG_GAU \<equiv> (0x42 :: u8)"
abbreviation "ASN1_TAG_TIMETICKS \<equiv> (0x43 :: u8)"
abbreviation "ASN1_TAG_OPAQ \<equiv> (0x44 :: u8)"
abbreviation "ASN1_TAG_CNT64 \<equiv> (0x46 :: u8)"
abbreviation "ASN1_TAG_NO_SUCH_OBJ \<equiv> (0x80 :: u8)"
abbreviation "ASN1_TAG_NO_SUCH_INST \<equiv> (0x81 :: u8)"
abbreviation "ASN1_TAG_END_OF_MIB_VIEW \<equiv> (0x82 :: u8)"

definition MIB_OID_MAX_LEN :: nat where
  "MIB_OID_MAX_LEN = 64"

definition MIB_VALUE_MAX_LEN :: nat where
  "MIB_VALUE_MAX_LEN = 1024"

definition MIB_TAG_VALID :: "u8 \<Rightarrow> bool" where
  "MIB_TAG_VALID tag \<longleftrightarrow> tag < ASN1_TAG_NO_SUCH_OBJ"

section \<open>Definitions\<close>

subsection \<open>Loops over the byte image of a word\<close>

text \<open>\<open>while (i > 0 && buf[i] == c) i--\<close> and \<open>while (i >= 0) out[j++] = buf[i--]\<close> on the
  little-endian image; \<open>while (i < 4 && buf[i] == c) i++\<close> on the big-endian one.\<close>

primrec scan_down :: "u8 \<Rightarrow> bytes \<Rightarrow> nat \<Rightarrow> nat" where
  "scan_down c buf 0 = 0"
| "scan_down c buf (Suc i) = (if buf ! Suc i = c then scan_down c buf i else Suc i)"

primrec copy_down :: "bytes \<Rightarrow> nat \<Rightarrow> bytes" where
  "copy_down buf 0 = [buf ! 0]"
| "copy_down buf (Suc i) = buf ! Suc i # copy_down buf i"

function scan_up :: "u8 \<Rightarrow> bytes \<Rightarrow> nat \<Rightarrow> nat" where
  "scan_up c buf i = (if i < 4 \<and> buf ! i = c then scan_up c buf (Suc i) else i)"
  by pat_completeness auto
termination
  by (relation "measure (\<lambda>(c, buf, i). 4 - i)") auto

declare scan_up.simps [simp del]

abbreviation top_bit :: "u8 \<Rightarrow> bool" where
  "top_bit b \<equiv> b AND 0x80 \<noteq> 0"

subsection \<open>Integers\<close>

definition ber_int_enc_try :: "u32 \<Rightarrow> u32" where
  "ber_int_enc_try v =
     (let a = le32 v in
      if 0 \<le> sint v then
        let i = scan_down 0 a 3; len = (if top_bit (a ! i) then 1 else 0)
        in len + (word_of_nat i + 1)
      else
        let i = scan_down 0xff a 3; len = (if \<not> top_bit (a ! i) then 1 else 0)
        in len + (word_of_nat i + 1))"

definition ber_int_enc_try_be :: "u32 \<Rightarrow> u32 option" where
  "ber_int_enc_try_be v =
     (let a = be32 v in
      if 0 \<le> sint v then
        let i = scan_up 0 a 0
        in do { b \<leftarrow> rd a i; Some ((if top_bit b then 1 else 0) + (4 - word_of_nat i)) }
      else
        let i = scan_up 0xff a 0
        in do { b \<leftarrow> rd a i; Some ((if \<not> top_bit b then 1 else 0) + (4 - word_of_nat i)) })"

definition ber_uint_enc_try :: "u32 \<Rightarrow> u32" where
  "ber_uint_enc_try v =
     (let a = le32 v; i = scan_down 0 a 3; len = (if top_bit (a ! i) then 1 else 0)
      in len + (word_of_nat i + 1))"

definition ber_uint_enc_try_be :: "u32 \<Rightarrow> u32 option" where
  "ber_uint_enc_try_be v =
     (let a = be32 v; i = scan_up 0 a 0
      in do { b \<leftarrow> rd a i; Some ((if top_bit b then 1 else 0) + (4 - word_of_nat i)) })"

definition ber_int_enc :: "u32 \<Rightarrow> bytes" where
  "ber_int_enc v =
     (let a = le32 v in
      if 0 \<le> sint v then
        let i = scan_down 0 a 3 in (if top_bit (a ! i) then [0] else []) @ copy_down a i
      else
        let i = scan_down 0xff a 3 in (if \<not> top_bit (a ! i) then [0xff] else []) @ copy_down a i)"

definition ber_int_enc_be :: "u32 \<Rightarrow> bytes option" where
  "ber_int_enc_be v =
     (let a = be32 v in
      if 0 \<le> sint v then
        let i = scan_up 0 a 0
        in do { b \<leftarrow> rd a i; Some ((if top_bit b then [0] else []) @ drop i a) }
      else
        let i = scan_up 0xff a 0
        in do { b \<leftarrow> rd a i; Some ((if \<not> top_bit b then [0xff] else []) @ drop i a) })"

definition ber_uint_enc :: "u32 \<Rightarrow> bytes" where
  "ber_uint_enc v =
     (let a = le32 v; i = scan_down 0 a 3
      in (if top_bit (a ! i) then [0] else []) @ copy_down a i)"

definition ber_uint_enc_be :: "u32 \<Rightarrow> bytes option" where
  "ber_uint_enc_be v =
     (let a = be32 v; i = scan_up 0 a 0
      in do { b \<leftarrow> rd a i; Some ((if top_bit b then [0] else []) @ drop i a) })"

subsection \<open>Object identifiers\<close>

text \<open>The groups of seven bits of a sub-identifier, least significant first, as the first
  inner loop leaves them in \<open>tmp\<close>; the second inner loop copies \<open>tmp\<close> backwards.\<close>

function subid_tmp :: "oid_t \<Rightarrow> bytes" where
  "subid_tmp sid =
     (ucast (sid AND 0x7f) OR 0x80) # (if sid div 128 = 0 then [] else subid_tmp (sid div 128))"
  by pat_completeness auto
termination
proof (relation "measure unat")
  fix sid :: oid_t assume "sid div 128 \<noteq> 0"
  then have "unat sid \<noteq> 0"
    by (metis div_0 unat_eq_zero word_arith_nat_div)
  then show "(sid div 128, sid) \<in> measure unat"
    by (simp add: unat_div)
qed simp

declare subid_tmp.simps [simp del]

definition subid_enc :: "oid_t \<Rightarrow> bytes" where
  "subid_enc sid = (let tmp = subid_tmp sid in rev (tmp[0 := tmp ! 0 AND 0x7f]))"

text \<open>\<open>ber_oid_enc_try\<close>: both counters are \<open>uint8_t\<close>. The loop index never reaches a length
  above 255, so such a call does not return (\<open>None\<close>).\<close>

primrec oid_try_loop :: "u8 \<Rightarrow> oid \<Rightarrow> u8" where
  "oid_try_loop j [] = j"
| "oid_try_loop j (sid # ids) = oid_try_loop (j + word_of_nat (length (subid_tmp sid))) ids"

definition ber_oid_enc_try :: "oid \<Rightarrow> u32 option" where
  "ber_oid_enc_try oid =
     (if length oid < 2 then Some (word_of_nat (length oid))
      else if 255 < length oid then None
      else Some (ucast (oid_try_loop 1 (drop 2 oid))))"

definition ber_oid_enc :: "oid \<Rightarrow> bytes" where
  "ber_oid_enc oid =
     (case oid of
        [] \<Rightarrow> []
      | [x] \<Rightarrow> [ucast x]
      | x # y # ids \<Rightarrow> ucast (x * 40 + y) # concat (map subid_enc ids))"

subsection \<open>Values\<close>

text \<open>The sub-identifiers a pointer to \<open>oid_t\<close> reads from memory.\<close>

primrec mem_oid :: "bytes \<Rightarrow> nat \<Rightarrow> oid option" where
  "mem_oid mem 0 = Some []"
| "mem_oid mem (Suc n) =
     (if 4 \<le> length mem then map_option ((#) (of_le32 mem)) (mem_oid (drop 4 mem) n) else None)"

definition mem_u32 :: "bytes \<Rightarrow> u32 option" where
  "mem_u32 mem = (if 4 \<le> length mem then Some (of_le32 mem) else None)"

definition ber_value_enc_try :: "bytes \<Rightarrow> u32 \<Rightarrow> u8 \<Rightarrow> u32 option" where
  "ber_value_enc_try mem len type =
     (if type = ASN1_TAG_INT \<or> type = ASN1_TAG_CNT then map_option ber_int_enc_try (mem_u32 mem)
      else if type = ASN1_TAG_GAU \<or> type = ASN1_TAG_TIMETICKS
        then map_option ber_uint_enc_try (mem_u32 mem)
      else if type = ASN1_TAG_OBJID
        then do { oid \<leftarrow> mem_oid mem (unat len); ber_oid_enc_try oid }
      else if type = ASN1_TAG_OCTSTR \<or> type = ASN1_TAG_IPADDR then Some len
      else Some 0)"

definition ber_value_enc :: "bytes \<Rightarrow> u32 \<Rightarrow> u8 \<Rightarrow> bytes option" where
  "ber_value_enc mem len type =
     (if type = ASN1_TAG_INT \<or> type = ASN1_TAG_CNT then map_option ber_int_enc (mem_u32 mem)
      else if type = ASN1_TAG_GAU \<or> type = ASN1_TAG_TIMETICKS
        then map_option ber_uint_enc (mem_u32 mem)
      else if type = ASN1_TAG_OBJID then map_option ber_oid_enc (mem_oid mem (unat len))
      else if type = ASN1_TAG_OCTSTR \<or> type = ASN1_TAG_IPADDR then rdn mem 0 (unat len)
      else Some [])"

subsection \<open>Lengths\<close>

definition ber_length_enc_try :: "u32 \<Rightarrow> u32" where
  "ber_length_enc_try v =
     (let i = scan_down 0 (le32 v) 3 in (if v > 127 then 1 else 0) + (word_of_nat i + 1))"

definition ber_length_enc_try_be :: "u32 \<Rightarrow> u32" where
  "ber_length_enc_try_be v =
     (let i = scan_up 0 (be32 v) 0 in (if v > 127 then 1 else 0) + (4 - word_of_nat i))"

definition ber_length_enc :: "u32 \<Rightarrow> bytes" where
  "ber_length_enc v =
     (let a = le32 v; i = scan_down 0 a 3
      in (if v > 127 then [0x80 OR (word_of_nat i + 1)] else []) @ copy_down a i)"

definition ber_length_enc_be :: "u32 \<Rightarrow> bytes" where
  "ber_length_enc_be v =
     (let a = be32 v; i = scan_up 0 a 0
      in (if v > 127 then [0x80 OR (4 - word_of_nat i)] else []) @ drop i a)"

section \<open>Predicted sizes\<close>

lemma length_copy_down [simp]: "length (copy_down a i) = Suc i"
  by (induction i) simp_all

lemma scan_down_le: "scan_down c a i \<le> i"
  by (induction i) auto

lemma ber_int_enc_size: "ber_int_enc_try v = word_of_nat (length (ber_int_enc v))"
  by (simp add: ber_int_enc_try_def ber_int_enc_def Let_def)

lemma ber_uint_enc_size: "ber_uint_enc_try v = word_of_nat (length (ber_uint_enc v))"
  by (simp add: ber_uint_enc_try_def ber_uint_enc_def Let_def)

lemma ber_length_enc_size: "ber_length_enc_try v = word_of_nat (length (ber_length_enc v))"
  by (simp add: ber_length_enc_try_def ber_length_enc_def Let_def)

lemma ber_length_enc_bound: "0 < length (ber_length_enc v) \<and> length (ber_length_enc v) \<le> 5"
  using scan_down_le [of 0 "le32 v" 3] by (simp add: ber_length_enc_def Let_def)

lemma ber_uint_enc_bound: "0 < length (ber_uint_enc v) \<and> length (ber_uint_enc v) \<le> 5"
  using scan_down_le [of 0 "le32 v" 3] by (simp add: ber_uint_enc_def Let_def)

lemma length_subid_tmp_pos: "0 < length (subid_tmp sid)"
  by (subst subid_tmp.simps) simp

lemma length_subid_enc [simp]: "length (subid_enc sid) = length (subid_tmp sid)"
  by (simp add: subid_enc_def Let_def)

lemma oid_try_loop_sum:
  "oid_try_loop j ids = j + word_of_nat (length (concat (map subid_enc ids)))"
  by (induction ids arbitrary: j) (simp_all add: add.assoc)

lemma ber_oid_enc_size:
  assumes "length oid \<le> 255"
  shows "ber_oid_enc_try oid = Some (word_of_nat (length (ber_oid_enc oid) mod 256))"
proof (cases "length oid < 2")
  case True
  then show ?thesis
    by (cases oid) (auto simp: ber_oid_enc_try_def ber_oid_enc_def)
next
  case False
  then obtain x y ids where oid: "oid = x # y # ids"
    by (cases oid; cases "tl oid") auto
  let ?n = "length (concat (map subid_enc ids))"
  have "ucast (word_of_nat n :: u8) = (word_of_nat (n mod 256) :: u32)" for n
    by (simp only: unsigned_of_nat take_bit_eq_mod) simp
  from this [of "Suc ?n"] show ?thesis
    using assms by (simp add: oid ber_oid_enc_try_def ber_oid_enc_def oid_try_loop_sum)
qed

end
