(* ===== verification/Ber_Decoder.thy ===== *)
theory Ber_Decoder
  imports Ber_Encoder
begin

text \<open>
  The BER decoder (\<open>core/snmp_decoder.c\<close>) and its round trips with the encoder. The source
  functions get a pointer and a byte length; here they get the list of those bytes. A decoder
  that stores its result through a \<open>void *\<close> returns the byte image it stores, together with
  the element count it returns.
\<close>

section \<open>Definitions\<close>

definition ber_oid_dec_try :: "bytes \<Rightarrow> u32" where
  "ber_oid_dec_try buf = word_of_nat (2 + length (filter (\<lambda>b. \<not> top_bit b) (drop 1 buf)))"

definition ber_value_dec_try :: "bytes \<Rightarrow> u8 \<Rightarrow> u32" where
  "ber_value_dec_try buf type =
     (if buf = [] then 0
      else if type = ASN1_TAG_INT \<or> type = ASN1_TAG_CNT \<or> type = ASN1_TAG_GAU
        \<or> type = ASN1_TAG_TIMETICKS then 1
      else if type = ASN1_TAG_OBJID then ber_oid_dec_try buf
      else if type = ASN1_TAG_OCTSTR \<or> type = ASN1_TAG_IPADDR then word_of_nat (length buf)
      else 0)"

text \<open>\<open>ber_int_dec\<close>. With the sign bit set the source first shifts in \<open>sizeof(int) - len\<close> bytes
  \<open>0xff\<close>; this bound is an unsigned difference, so for more than four bytes it is huge and the
  \<open>int\<close> loop counter overflows (\<open>None\<close>).\<close>

definition ber_int_dec :: "bytes \<Rightarrow> u32 option" where
  "ber_int_dec buf =
     do { b0 \<leftarrow> rd buf 0;
          if top_bit b0 then
            if length buf \<le> 4
              then Some (foldl acc8 (foldl acc8 0 (replicate (4 - length buf) 0xff)) buf)
              else None
          else Some (foldl acc8 0 (if b0 = 0 then drop 1 buf else buf)) }"

definition ber_uint_dec :: "bytes \<Rightarrow> u32 option" where
  "ber_uint_dec buf =
     do { b0 \<leftarrow> rd buf 0; Some (foldl acc8 0 (if b0 = 0 then drop 1 buf else buf)) }"

fun oid_dec_loop :: "oid_t \<Rightarrow> bytes \<Rightarrow> oid" where
  "oid_dec_loop sid [] = []"
| "oid_dec_loop sid (b # bs) =
     (let sid' = push_bit 7 sid OR ucast (b AND 0x7f)
      in if \<not> top_bit b then sid' # oid_dec_loop 0 bs else oid_dec_loop sid' bs)"

definition ber_oid_dec :: "bytes \<Rightarrow> oid option" where
  "ber_oid_dec buf =
     do { b0 \<leftarrow> rd buf 0;
          Some (ucast (b0 div 40) # ucast (b0 mod 40) # oid_dec_loop 0 (drop 1 buf)) }"

definition oid_img :: "oid \<Rightarrow> bytes" where
  "oid_img oid = concat (map le32 oid)"

definition ber_value_dec :: "bytes \<Rightarrow> u8 \<Rightarrow> (u32 \<times> bytes) option" where
  "ber_value_dec buf type =
     (if buf = [] then Some (0, [])
      else if type = ASN1_TAG_INT \<or> type = ASN1_TAG_CNT
        then map_option (\<lambda>v. (1, le32 v)) (ber_int_dec buf)
      else if type = ASN1_TAG_GAU \<or> type = ASN1_TAG_TIMETICKS
        then map_option (\<lambda>v. (1, le32 v)) (ber_uint_dec buf)
      else if type = ASN1_TAG_OBJID
        then map_option (\<lambda>oid. (word_of_nat (length oid), oid_img oid)) (ber_oid_dec buf)
      else if type = ASN1_TAG_OCTSTR \<or> type = ASN1_TAG_IPADDR
        then Some (word_of_nat (length buf), buf)
      else Some (0, []))"

text \<open>\<open>ber_length_dec\<close> at offset \<open>off\<close> of a buffer: the number of bytes of the length field, and
  its value.\<close>

definition ber_length_dec_try :: "bytes \<Rightarrow> nat \<Rightarrow> nat option" where
  "ber_length_dec_try buf off =
     do { b0 \<leftarrow> rd buf off; Some (if top_bit b0 then 1 + unat (b0 AND 0x7f) else 1) }"

definition ber_length_dec :: "bytes \<Rightarrow> nat \<Rightarrow> (nat \<times> u32) option" where
  "ber_length_dec buf off =
     do { b0 \<leftarrow> rd buf off;
          let len = (if top_bit b0 then 1 + unat (b0 AND 0x7f) else 1);
          let i = (if top_bit b0 then 1 else 0);
          bs \<leftarrow> rdn buf (off + i) (len - i);
          Some (len, foldl acc8 0 bs) }"

section \<open>Prefix codecs\<close>

text \<open>What a reader of a byte stream relies on: decoding at the start of an encoded value gives
  the value and the number of bytes it took, whatever precedes and follows.\<close>

locale prefix_codec =
  fixes enc :: "'a \<Rightarrow> bytes" and dec :: "bytes \<Rightarrow> nat \<Rightarrow> (nat \<times> 'a) option"
  assumes dec_enc: "dec (pre @ enc x @ rest) (length pre) = Some (length (enc x), x)"
begin

lemma prefix_free:
  assumes "enc x @ r = enc y @ s"
  shows "x = y \<and> r = s"
proof -
  have "dec ([] @ enc x @ r) (length ([] :: bytes)) = dec ([] @ enc y @ s) (length ([] :: bytes))"
    using assms by simp
  then have "x = y"
    unfolding dec_enc by simp
  then show ?thesis
    using assms by simp
qed

lemma enc_inj: "enc x = enc y \<Longrightarrow> x = y"
  using prefix_free [of x "[]" y "[]"] by simp

end

section \<open>Round trips\<close>

lemma nth_le32: "le32 v ! 0 = be32 v ! 3" "le32 v ! 1 = be32 v ! 2"
  "le32 v ! 2 = be32 v ! 1" "le32 v ! 3 = be32 v ! 0"
  by (simp_all add: le32_def be32_def)

lemma be32_split:
  defines "i \<equiv> \<lambda>c v. scan_down c (le32 v) 3"
  shows "be32 v = replicate (3 - i c v) c @ copy_down (le32 v) (i c v)"
  by (auto simp: i_def numeral_3_eq_3 le32_def be32_def eval_nat_numeral)

lemma scan_down_stop: "scan_down c a i = 0 \<or> a ! scan_down c a i \<noteq> c"
  by (induction i) auto

lemma foldl_acc8_zeros [simp]: "foldl acc8 0 (replicate n 0) = 0"
  by (induction n) (simp_all add: acc8_def)

lemma fold_stripped: "foldl acc8 0 (copy_down (le32 v) (scan_down 0 (le32 v) 3)) = v"
  using be32_fold [of v] be32_split [of v 0] by (metis foldl_append foldl_acc8_zeros)

lemma copy_down_nonempty [simp]: "copy_down a i \<noteq> []"
  by (cases i) simp_all

lemma hd_copy_down: "copy_down a i ! 0 = a ! i"
  by (cases i) simp_all

lemma ber_uint_roundtrip: "ber_uint_dec (ber_uint_enc v) = Some v"
proof -
  let ?a = "le32 v" and ?i = "scan_down 0 (le32 v) 3"
  have "foldl acc8 0 (drop 1 (copy_down ?a ?i)) = v" if "?a ! ?i = 0"
    using fold_stripped [of v] scan_down_stop [of 0 ?a 3] that by (simp add: acc8_def)
  then show ?thesis
    using fold_stripped [of v]
    by (auto simp: ber_uint_dec_def ber_uint_enc_def Let_def rd_def hd_copy_down nth_append)
qed

lemma top_bit_iff: "top_bit b \<longleftrightarrow> bit b 7"
  using and_exp_eq_0_iff_not_bit [of b 7] by simp

lemma sint_neg_top_bit: "sint v < 0 \<longleftrightarrow> top_bit (le32 v ! 3)"
  using bit_last_iff [of v] by (simp add: nth_le32 top_bit_iff be32_def bit_simps)

lemma ber_int_enc_neg:
  assumes "sint v < 0"
  shows "length (ber_int_enc v) \<le> 4 \<and> replicate (4 - length (ber_int_enc v)) 0xff @ ber_int_enc v = be32 v
    \<and> top_bit (ber_int_enc v ! 0)"
proof -
  define i where "i = scan_down 0xff (le32 v) 3"
  have i: "i \<le> 3"
    by (simp add: i_def scan_down_le)
  have split: "be32 v = replicate (3 - i) 0xff @ copy_down (le32 v) i"
    unfolding i_def by (rule be32_split)
  have enc: "ber_int_enc v = (if \<not> top_bit (le32 v ! i) then [0xff] else []) @ copy_down (le32 v) i"
    using assms by (simp add: ber_int_enc_def Let_def i_def)
  show ?thesis
  proof (cases "top_bit (le32 v ! i)")
    case True
    then show ?thesis
      using i split by (simp add: enc hd_copy_down)
  next
    case False
    then have "i \<noteq> 3"
      using assms sint_neg_top_bit by blast
    then have "replicate (3 - i) (0xff :: u8) = replicate (2 - i) 0xff @ [0xff]"
      using i by (simp add: replicate_append_same numeral_3_eq_3 Suc_diff_le flip: replicate_Suc)
    then show ?thesis
      using i False \<open>i \<noteq> 3\<close> split by (simp add: enc)
  qed
qed

lemma ber_int_roundtrip: "ber_int_dec (ber_int_enc v) = Some v"
proof (cases "sint v < 0")
  case True
  note enc = ber_int_enc_neg [OF True]
  have "ber_int_enc v \<noteq> []"
    by (simp add: ber_int_enc_def Let_def)
  moreover have "foldl acc8 (foldl acc8 0 (replicate (4 - length (ber_int_enc v)) 0xff)) (ber_int_enc v) = v"
    using enc be32_fold [of v] by (metis foldl_append)
  ultimately show ?thesis
    using enc by (simp add: ber_int_dec_def rd_def)
next
  case False
  then have "ber_int_enc v = ber_uint_enc v"
    by (simp add: ber_int_enc_def ber_uint_enc_def)
  moreover have "\<not> top_bit (ber_uint_enc v ! 0)"
    by (auto simp: ber_uint_enc_def Let_def hd_copy_down)
  moreover have "ber_uint_enc v \<noteq> []"
    by (simp add: ber_uint_enc_def Let_def)
  ultimately show ?thesis
    using ber_uint_roundtrip [of v] by (simp add: ber_int_dec_def ber_uint_dec_def rd_def)
qed

lemma length_byte:
  assumes "i \<le> 3"
  shows "top_bit (0x80 OR (word_of_nat i + 1))" "unat ((0x80 OR (word_of_nat i + 1) :: u8) AND 0x7f) = Suc i"
proof -
  have "i = 0 \<or> i = 1 \<or> i = 2 \<or> i = 3"
    using assms by auto
  then show "top_bit (0x80 OR (word_of_nat i + 1))"
      "unat ((0x80 OR (word_of_nat i + 1) :: u8) AND 0x7f) = Suc i"
    by auto
qed

lemma small_length_byte:
  assumes "v \<le> (127 :: u32)"
  shows "scan_down 0 (le32 v) 3 = 0" "\<not> top_bit (le32 v ! 0)"
proof -
  have dz: "drop_bit n v = 0" if "7 \<le> n" for n
  proof -
    have "v < 2 ^ 7"
      using assms by (simp add: word_less_nat_alt word_le_nat_alt)
    then have "drop_bit 7 v = 0"
      by (simp add: drop_bit_eq_div div_word_less)
    then have "drop_bit (n - 7) (drop_bit 7 v) = 0"
      by simp
    then show ?thesis
      using that by (simp add: drop_bit_drop_bit)
  qed
  from dz [of 8] dz [of 16] dz [of 24] show "scan_down 0 (le32 v) 3 = 0"
    by (simp add: numeral_3_eq_3 nth_le32 [unfolded numeral_2_eq_2 numeral_3_eq_3] le32_def be32_def)
  from dz [of 7] have "\<not> bit v 7"
    by (simp add: bit_iff_odd_drop_bit)
  then show "\<not> top_bit (le32 v ! 0)"
    unfolding top_bit_iff by (simp add: le32_def be32_def bit_simps)
qed

lemma ber_length_roundtrip:
  "ber_length_dec (pre @ ber_length_enc v @ rest) (length pre) = Some (length (ber_length_enc v), v)"
proof -
  define i where "i = scan_down 0 (le32 v) 3"
  have i: "i \<le> 3"
    by (simp add: i_def scan_down_le)
  have fold: "foldl acc8 0 (copy_down (le32 v) i) = v"
    unfolding i_def by (rule fold_stripped)
  show ?thesis
  proof (cases "v > 127")
    case True
    then have enc: "ber_length_enc v = (0x80 OR (word_of_nat i + 1)) # copy_down (le32 v) i"
      by (simp add: ber_length_enc_def i_def Let_def)
    then show ?thesis
      using length_byte [OF i] fold
      by (simp add: ber_length_dec_def rd_def rdn_def nth_append)
  next
    case False
    note small = small_length_byte [OF leI [OF False]]
    then have enc: "ber_length_enc v = [le32 v ! 0]"
      using False by (simp add: ber_length_enc_def)
    have "foldl acc8 0 [le32 v ! 0] = v"
      using fold small by (simp add: i_def)
    then show ?thesis
      using small by (simp add: enc ber_length_dec_def rd_def rdn_def nth_append)
  qed
qed

interpretation ber_length: prefix_codec ber_length_enc ber_length_dec
  by unfold_locales (rule ber_length_roundtrip)


subsection \<open>Object identifiers\<close>

lemma bit_0x80: "bit (0x80 :: u8) k \<longleftrightarrow> k = 7" "bit (0x80 :: u32) k \<longleftrightarrow> k = 7"
  using bit_exp_iff [where 'a = u8, of 7 k] bit_exp_iff [where 'a = u32, of 7 k] by auto

lemma bit_0x7f: "bit (0x7f :: u8) k \<longleftrightarrow> k < 7" "bit (0x7f :: u32) k \<longleftrightarrow> k < 7"
  using bit_mask_iff [where 'a = u8, of 7 k] bit_mask_iff [where 'a = u32, of 7 k]
  by (auto simp: mask_eq_exp_minus_1)

abbreviation low_group :: "oid_t \<Rightarrow> u8" where
  "low_group n \<equiv> ucast (n AND 0x7f) OR 0x80"

lemma low_group_top: "top_bit (low_group n)" "\<not> top_bit (low_group n AND 0x7f)"
  unfolding top_bit_iff bit_and_iff bit_or_iff bit_0x80 bit_0x7f by simp_all

lemma split7: "push_bit 7 (n div 128) OR ucast (low_group n AND 0x7f) = n"
proof (rule bit_word_eqI)
  fix k assume "k < LENGTH(32)"
  moreover have "n div 128 = drop_bit 7 n"
    by (simp add: drop_bit_eq_div)
  ultimately show "bit (push_bit 7 (n div 128) OR ucast (low_group n AND 0x7f)) k = bit n k"
    unfolding bit_or_iff bit_unsigned_iff bit_and_iff bit_0x80 bit_0x7f bit_push_bit_iff
    by (cases "k < 7") (simp_all add: bit_drop_bit_eq)
qed

lemma oid_dec_loop_tmp: "oid_dec_loop 0 (rev (subid_tmp n) @ rest) = oid_dec_loop n rest"
proof (induction n arbitrary: rest rule: subid_tmp.induct)
  case (1 n)
  have "oid_dec_loop (n div 128) (low_group n # rest) = oid_dec_loop n rest"
    using split7 [of n] low_group_top(1) [of n] by (simp add: Let_def)
  then show ?case
    using "1.IH" by (subst subid_tmp.simps) auto
qed

lemma oid_dec_loop_subid: "oid_dec_loop 0 (subid_enc n @ rest) = n # oid_dec_loop 0 rest"
proof -
  have "subid_enc n =
      (if n div 128 = 0 then [] else rev (subid_tmp (n div 128))) @ [low_group n AND 0x7f]"
    by (simp add: subid_enc_def Let_def subid_tmp.simps [of n])
  then have "oid_dec_loop 0 (subid_enc n @ rest) = oid_dec_loop (n div 128) ((low_group n AND 0x7f) # rest)"
    using oid_dec_loop_tmp by auto
  also have "\<dots> = n # oid_dec_loop 0 rest"
    using split7 [of n] low_group_top(2) [of n] by (simp add: Let_def and.assoc)
  finally show ?thesis .
qed

lemma oid_dec_loop_subids: "oid_dec_loop 0 (concat (map subid_enc ids)) = ids"
  by (induction ids) (simp_all add: oid_dec_loop_subid)

text \<open>An identifier whose first two sub-identifiers share one byte.\<close>

definition oid_ok :: "oid \<Rightarrow> bool" where
  "oid_ok oid \<longleftrightarrow> 2 \<le> length oid \<and> unat (oid ! 0) * 40 + unat (oid ! 1) < 256 \<and> unat (oid ! 1) < 40"

lemma first_byte:
  assumes "unat x * 40 + unat y < 256" "unat y < 40"
  shows "ucast ((ucast (x * 40 + y) :: u8) div 40) = (x :: u32)"
    "ucast ((ucast (x * 40 + y) :: u8) mod 40) = (y :: u32)"
proof -
  have s: "unat (x * 40 + y) = unat x * 40 + unat y"
    using assms by (simp add: unat_word_ariths)
  show "ucast ((ucast (x * 40 + y) :: u8) div 40) = x"
    using assms by (simp add: word_unat_eq_iff unsigned_ucast_eq unat_div s take_bit_nat_eq_self)
  show "ucast ((ucast (x * 40 + y) :: u8) mod 40) = y"
    using assms by (simp add: word_unat_eq_iff unsigned_ucast_eq unat_mod s take_bit_nat_eq_self)
qed

lemma ber_oid_roundtrip:
  assumes "oid_ok oid"
  shows "ber_oid_dec (ber_oid_enc oid) = Some oid"
proof -
  obtain x y ids where oid: "oid = x # y # ids"
    using assms by (cases oid; cases "tl oid") (auto simp: oid_ok_def)
  then show ?thesis
    using assms by (simp add: oid_ok_def ber_oid_dec_def ber_oid_enc_def rd_def first_byte
        oid_dec_loop_subids)
qed

text \<open>The number of elements \<open>ber_oid_dec_try\<close> announces is the number \<open>ber_oid_dec\<close> stores.\<close>

lemma length_oid_dec_loop:
  "length (oid_dec_loop sid bs) = length (filter (\<lambda>b. \<not> top_bit b) bs)"
  by (induction sid bs rule: oid_dec_loop.induct) (auto simp: Let_def)

lemma ber_oid_dec_size: "ber_oid_dec buf = Some oid \<Longrightarrow> ber_oid_dec_try buf = word_of_nat (length oid)"
  by (auto simp: ber_oid_dec_def ber_oid_dec_try_def length_oid_dec_loop rd_def split: if_splits)

end
