(* ===== verification/Ber_Codec.thy ===== *)
theory Ber_Codec
  imports Ber_Decoder
begin

text \<open>
  The two directions of the BER coder together: value-level round trips and predicted sizes,
  the shortest-form property of integers, the relation between the little-endian and the
  big-endian branch of the encoder, and what the 8-bit counters of \<open>ber_oid_enc_try\<close> compute.
\<close>

section \<open>Memory images\<close>

lemma le32_of_le32:
  assumes "4 \<le> length mem"
  shows "le32 (of_le32 mem) = take 4 mem"
proof -
  obtain a b c d rest where mem: "mem = a # b # c # d # rest"
    using assms by (auto simp: numeral_eq_Suc Suc_le_length_iff)
  have "be32 (foldl acc8 0 [d, c, b, a]) = [d, c, b, a]"
    unfolding be32_def list.inject
    by (intro conjI refl; rule bit_word_eqI) (auto simp: acc8_def bit_simps dest: bit_imp_le_length)
  then show ?thesis
    by (simp add: mem le32_def of_le32_def)
qed

lemma length_oid_img [simp]: "length (oid_img oid) = 4 * length oid"
  by (induction oid) (simp_all add: oid_img_def)

lemma mem_oid_img: "mem_oid (oid_img oid @ rest) (length oid) = Some oid"
  by (induction oid) (simp_all add: oid_img_def)

lemma mem_oid_length: "mem_oid mem n = Some oid \<Longrightarrow> length oid = n"
  by (induction n arbitrary: mem oid) (auto split: if_splits)

lemma oid_img_mem_oid: "mem_oid mem n = Some oid \<Longrightarrow> prefix (oid_img oid) mem"
proof (induction n arbitrary: mem oid)
  case (Suc n)
  then obtain oid' where *: "4 \<le> length mem" "mem_oid (drop 4 mem) n = Some oid'"
      "oid = of_le32 mem # oid'"
    by (auto split: if_splits)
  then have "prefix (oid_img oid') (drop 4 mem)"
    using Suc.IH by blast
  then have "prefix (take 4 mem @ oid_img oid') (take 4 mem @ drop 4 mem)"
    by (simp only: same_prefix_prefix)
  then show ?case
    using * by (simp add: oid_img_def le32_of_le32)
qed (auto simp: oid_img_def)

section \<open>Values\<close>

text \<open>The tags whose values the coder knows, and what it takes for an object identifier to fit
  the two-in-one first byte.\<close>

definition coded_tag :: "u8 \<Rightarrow> bool" where
  "coded_tag type \<longleftrightarrow> type \<in> {ASN1_TAG_INT, ASN1_TAG_CNT, ASN1_TAG_GAU, ASN1_TAG_TIMETICKS,
     ASN1_TAG_OBJID, ASN1_TAG_OCTSTR, ASN1_TAG_IPADDR}"

definition num_tag :: "u8 \<Rightarrow> bool" where
  "num_tag type \<longleftrightarrow> type \<in> {ASN1_TAG_INT, ASN1_TAG_CNT, ASN1_TAG_GAU, ASN1_TAG_TIMETICKS}"

lemma ber_int_enc_nonempty [simp]: "ber_int_enc v \<noteq> []"
  by (simp add: ber_int_enc_def Let_def)

lemma ber_uint_enc_nonempty [simp]: "ber_uint_enc v \<noteq> []"
  by (simp add: ber_uint_enc_def Let_def)

lemma ber_oid_enc_nonempty: "oid_ok oid \<Longrightarrow> ber_oid_enc oid \<noteq> []"
  by (auto simp: oid_ok_def ber_oid_enc_def split: list.splits)

lemma ber_length_enc_nonempty [simp]: "ber_length_enc v \<noteq> []"
  using ber_length_enc_bound [of v] by auto

text \<open>The memory of a value of \<open>len\<close> elements: four bytes for a number and for each sub-identifier, one byte for each character.\<close>

definition value_size :: "u8 \<Rightarrow> u32 \<Rightarrow> nat" where
  "value_size type len = (if num_tag type then 4 else if type = ASN1_TAG_OBJID then 4 * unat len else unat len)"

lemma prefix_take: "prefix xs ys \<Longrightarrow> xs = take (length xs) ys"
  by (auto simp: prefix_def)

text \<open>C37: Decoding the encoding of a value restores it: the decoder returns the number of elements the encoder was given (one for a number)
  and stores exactly the bytes of their memory. An object identifier must have at least two sub-identifiers, the second below
  40 and 40 times the first plus the second below 256, because the two share the first byte.\<close>

theorem ber_value_roundtrip:
  assumes "coded_tag type"
    and "ber_value_enc mem len type = Some bs"
    and "type = ASN1_TAG_OBJID \<longrightarrow> (\<exists>oid. mem_oid mem (unat len) = Some oid \<and> oid_ok oid)"
  shows "ber_value_dec bs type = Some (if num_tag type then 1 else len, take (value_size type len) mem)
    \<and> value_size type len \<le> length mem"
proof -
  consider "type = ASN1_TAG_INT \<or> type = ASN1_TAG_CNT" | "type = ASN1_TAG_GAU \<or> type = ASN1_TAG_TIMETICKS"
    | "type = ASN1_TAG_OBJID" | "type = ASN1_TAG_OCTSTR \<or> type = ASN1_TAG_IPADDR"
    using assms(1) by (auto simp: coded_tag_def)
  then show ?thesis
  proof cases
    case 1
    then show ?thesis
      using assms(2)
      by (auto simp: ber_value_enc_def ber_value_dec_def mem_u32_def num_tag_def value_size_def
          ber_int_roundtrip le32_of_le32 split: if_splits)
  next
    case 2
    then show ?thesis
      using assms(2)
      by (auto simp: ber_value_enc_def ber_value_dec_def mem_u32_def num_tag_def value_size_def
          ber_uint_roundtrip le32_of_le32 split: if_splits)
  next
    case 3
    then obtain oid where oid: "mem_oid mem (unat len) = Some oid" "oid_ok oid" "bs = ber_oid_enc oid"
      using assms(2,3) by (auto simp: ber_value_enc_def)
    note img = oid_img_mem_oid [OF oid(1)] mem_oid_length [OF oid(1)]
    have "oid_img oid = take (4 * unat len) mem"
      using prefix_take [OF img(1)] img(2) by simp
    moreover have "4 * unat len \<le> length mem"
      using prefix_length_le [OF img(1)] img(2) by simp
    ultimately show ?thesis
      using 3 oid ber_oid_enc_nonempty ber_oid_roundtrip mem_oid_length
      by (auto simp: ber_value_dec_def num_tag_def value_size_def)
  next
    case 4
    then have "bs = take (unat len) mem" "unat len \<le> length mem"
      using assms(2) by (auto simp: ber_value_enc_def rdn_def split: if_splits)
    then show ?thesis
      using 4 by (auto simp: ber_value_dec_def num_tag_def value_size_def unat_eq_zero)
  qed
qed

theorem ber_value_roundtrip_witness:
  "ber_value_dec [0x85] ASN1_TAG_INT = Some (1, le32 (- 123))"
proof -
  have "ber_value_enc (le32 (- 123)) 1 ASN1_TAG_INT = Some [0x85]"
    by code_simp
  from ber_value_roundtrip [OF _ this] show ?thesis
    by (simp add: coded_tag_def num_tag_def value_size_def)
qed


text \<open>C38: The size announced for a value before it is encoded is the number of bytes that its encoding writes, for every tag but that of an object
  identifier; for an object identifier of at most 255 sub-identifiers it is that number modulo 256, so that only encodings of at most 255 bytes fit the
  buffer allocated for them.\<close>

theorem ber_value_enc_size:
  assumes "ber_value_enc mem len type = Some bs"
    and "type = ASN1_TAG_OBJID \<longrightarrow> unat len \<le> 255"
  shows "ber_value_enc_try mem len type =
    Some (word_of_nat (if type = ASN1_TAG_OBJID then length bs mod 256 else length bs))"
proof (cases "type = ASN1_TAG_OBJID")
  case True
  then obtain oid where oid: "mem_oid mem (unat len) = Some oid" "bs = ber_oid_enc oid"
    using assms(1) by (auto simp: ber_value_enc_def)
  then have "ber_oid_enc_try oid = Some (word_of_nat (length bs mod 256))"
    using ber_oid_enc_size [of oid] assms(2) True mem_oid_length by fastforce
  then show ?thesis
    using True oid by (simp add: ber_value_enc_try_def)
next
  case False
  then show ?thesis
    using assms(1)
    by (auto simp: ber_value_enc_def ber_value_enc_try_def ber_int_enc_size ber_uint_enc_size
        rdn_def split: if_splits)
qed

theorem ber_value_enc_size_witness:
  "ber_value_enc_try (oid_img [1, 3, 6, 1, 128]) 5 ASN1_TAG_OBJID = Some 5"
proof -
  have "ber_value_enc (oid_img [1, 3, 6, 1, 128]) 5 ASN1_TAG_OBJID
      = Some [0x2b, 0x06, 0x01, 0x81, 0x00]"
    by code_simp
  from ber_value_enc_size [OF this] show ?thesis
    by simp
qed

text \<open>For an identifier of at most 255 sub-identifiers \<open>ber_oid_enc_try\<close> returns the length of
  the encoding modulo 256, because its counter is a \<open>uint8_t\<close>. In particular it announces 55
  bytes for an identifier of 64 sub-identifiers (the longest the agent accepts) whose encoding
  takes 311, so the buffers allocated with it are too small.\<close>

theorem ber_oid_enc_try_truncates:
  "(\<forall>oid. length oid \<le> 255 \<longrightarrow>
      ber_oid_enc_try oid = Some (word_of_nat (length (ber_oid_enc oid) mod 256))) \<and>
   ber_oid_enc_try (replicate MIB_OID_MAX_LEN 0xffffffff) = Some 55 \<and>
   length (ber_oid_enc (replicate MIB_OID_MAX_LEN 0xffffffff)) = 311"
proof (intro conjI)
  let ?big = "replicate MIB_OID_MAX_LEN (0xffffffff :: u32)"
  show sz: "\<forall>oid. length oid \<le> 255 \<longrightarrow>
     ber_oid_enc_try oid = Some (word_of_nat (length (ber_oid_enc oid) mod 256))"
    using ber_oid_enc_size by blast
  have "length (subid_tmp 0xffffffff) = 5"
    by code_simp
  then have "length (concat (map subid_enc (replicate n 0xffffffff))) = 5 * n" for n
    by (induction n) simp_all
  moreover have "?big = 0xffffffff # 0xffffffff # replicate 62 0xffffffff"
    by (simp add: MIB_OID_MAX_LEN_def numeral_eq_Suc)
  ultimately show len: "length (ber_oid_enc ?big) = 311"
    by (simp add: ber_oid_enc_def)
  show "ber_oid_enc_try ?big = Some 55"
    using spec [OF sz, of ?big] len by (simp add: MIB_OID_MAX_LEN_def)
qed

theorem ber_oid_enc_try_truncates_witness: "ber_oid_enc_try [1, 3, 6, 128] = Some 4"
proof -
  have "length (ber_oid_enc [1, 3, 6, 128]) = 4"
    by code_simp
  with ber_oid_enc_try_truncates show ?thesis
    by fastforce
qed

section \<open>Shortest form\<close>

text \<open>Integers are encoded in the shortest form BER asks for: the first nine bits of an
  encoding of several bytes are neither all zero nor all one.\<close>

theorem ber_int_enc_shortest:
  assumes "ber_int_enc v = b0 # b1 # bs"
  shows "\<not> (b0 = 0 \<and> \<not> top_bit b1) \<and> \<not> (b0 = 0xff \<and> top_bit b1)"
proof -
  have hd2: "copy_down a (Suc i) = b0 # b1 # bs \<Longrightarrow> a ! Suc i = b0" for a i
    by (cases i) simp_all
  have one: "[x] @ copy_down a i = b0 # b1 # bs \<Longrightarrow> x = b0 \<and> a ! i = b1" for x a i
    by (cases i) simp_all
  have stop: "i \<noteq> 0 \<Longrightarrow> i = scan_down c (le32 v) 3 \<Longrightarrow> le32 v ! i \<noteq> c" for i c
    using scan_down_stop [of c "le32 v" 3] by auto
  show ?thesis
  proof (cases "0 \<le> sint v")
    case True
    define i where "i = scan_down 0 (le32 v) 3"
    have enc: "(if top_bit (le32 v ! i) then [0] else []) @ copy_down (le32 v) i = b0 # b1 # bs"
      using assms True by (simp add: ber_int_enc_def i_def Let_def)
    show ?thesis
      using enc one [of 0 "le32 v" i] hd2 [of "le32 v" "i - 1"] stop [of i 0] i_def
      by (cases "top_bit (le32 v ! i)"; cases i) auto
  next
    case False
    define i where "i = scan_down 0xff (le32 v) 3"
    have enc: "(if \<not> top_bit (le32 v ! i) then [0xff] else []) @ copy_down (le32 v) i = b0 # b1 # bs"
      using assms False by (simp add: ber_int_enc_def i_def Let_def)
    show ?thesis
      using enc one [of "0xff" "le32 v" i] hd2 [of "le32 v" "i - 1"] stop [of i "0xff"] i_def
      by (cases "top_bit (le32 v ! i)"; cases i) auto
  qed
qed

theorem ber_int_enc_shortest_witness:
  "\<not> ((0 :: u8) = 0 \<and> \<not> top_bit 0x80) \<and> \<not> ((0 :: u8) = 0xff \<and> top_bit 0x80)"
  by (rule ber_int_enc_shortest [of 128 0 "0x80" "[]"]) code_simp

section \<open>The two byte orders\<close>

lemma scan_up_down:
  "scan_up c (be32 v) 0 = (if be32 v = replicate 4 c then 4 else 3 - scan_down c (le32 v) 3)"
proof -
  obtain a b d e where *: "be32 v = [a, b, d, e]"
    by (simp add: be32_def)
  show ?thesis
    unfolding le32_def * by (simp add: scan_up.simps numeral_3_eq_3 numeral_eq_Suc)
qed

lemma be32_replicate: "be32 v = replicate 4 0 \<longleftrightarrow> v = 0" "be32 v = replicate 4 0xff \<longleftrightarrow> v = - 1"
proof -
  have "be32 v = be32 w \<longleftrightarrow> v = w" for w
    by (metis be32_fold)
  moreover have "be32 0 = replicate 4 0" "be32 (- 1) = replicate 4 0xff"
    by code_simp+
  ultimately show "be32 v = replicate 4 0 \<longleftrightarrow> v = 0" "be32 v = replicate 4 0xff \<longleftrightarrow> v = - 1"
    by metis+
qed

lemma drop_be32: "i \<le> 3 \<Longrightarrow> drop (3 - i) (be32 v) = copy_down (le32 v) i"
proof -
  assume "i \<le> 3"
  then have "i = 0 \<or> i = 1 \<or> i = 2 \<or> i = 3"
    by auto
  then show ?thesis
    by (auto simp: le32_def be32_def numeral_2_eq_2 numeral_3_eq_3)
qed

lemma nth_be32: "i \<le> 3 \<Longrightarrow> be32 v ! (3 - i) = le32 v ! i"
  by (simp add: le32_def rev_nth)

text \<open>The big-endian branches of the integer and length coders compute the same bytes and sizes
  as the little-endian ones except at the ends: for 0 and -1 the scan of the integer branches runs past the
  four bytes of the word and the next access is out of bounds, and a length of 0 is encoded as no byte at all.\<close>

theorem ber_be_branches:
  "ber_int_enc_be v = (if v = 0 \<or> v = - 1 then None else Some (ber_int_enc v)) \<and>
   ber_int_enc_try_be v = (if v = 0 \<or> v = - 1 then None else Some (ber_int_enc_try v)) \<and>
   ber_uint_enc_be v = (if v = 0 then None else Some (ber_uint_enc v)) \<and>
   ber_uint_enc_try_be v = (if v = 0 then None else Some (ber_uint_enc_try v)) \<and>
   ber_length_enc_be v = (if v = 0 then [] else ber_length_enc v) \<and>
   ber_length_enc_try_be v = (if v = 0 then 0 else ber_length_enc_try v)"
proof -
  have le: "scan_down c (le32 v) 3 \<le> 3" for c
    by (rule scan_down_le)
  note up = le scan_up_down be32_replicate drop_be32 nth_be32
  have neg: "\<not> 0 \<le> sint (- 1 :: u32)"
    by simp
  have i: "ber_int_enc_be v = (if v = 0 \<or> v = - 1 then None else Some (ber_int_enc v))"
    using neg by (auto simp: ber_int_enc_be_def ber_int_enc_def Let_def up rd_def)
  have len: "4 - (word_of_nat (3 - k) :: u32) = word_of_nat k + 1" if "k \<le> 3" for k
  proof -
    have "k = 0 \<or> k = 1 \<or> k = 2 \<or> k = 3"
      using that by auto
    then show ?thesis
      by auto
  qed
  have len8: "4 - (word_of_nat (3 - k) :: u8) = word_of_nat k + 1" if "k \<le> 3" for k
  proof -
    have "k = 0 \<or> k = 1 \<or> k = 2 \<or> k = 3"
      using that by auto
    then show ?thesis
      by auto
  qed
  have it: "ber_int_enc_try_be v = (if v = 0 \<or> v = - 1 then None else Some (ber_int_enc_try v))"
    using neg by (auto simp: ber_int_enc_try_be_def ber_int_enc_try_def Let_def up rd_def len [OF le])
  have u: "ber_uint_enc_be v = (if v = 0 then None else Some (ber_uint_enc v))"
    by (auto simp: ber_uint_enc_be_def ber_uint_enc_def Let_def up rd_def)
  have ut: "ber_uint_enc_try_be v = (if v = 0 then None else Some (ber_uint_enc_try v))"
    by (auto simp: ber_uint_enc_try_be_def ber_uint_enc_try_def Let_def up rd_def len [OF le])
  have l: "ber_length_enc_be v = (if v = 0 then [] else ber_length_enc v)"
    by (auto simp: ber_length_enc_be_def ber_length_enc_def Let_def up len8 [OF le] add.commute)
  have lt: "ber_length_enc_try_be v = (if v = 0 then 0 else ber_length_enc_try v)"
    by (auto simp: ber_length_enc_try_be_def ber_length_enc_try_def Let_def up len [OF le])
  show ?thesis
    using i it u ut l lt by blast
qed

end
