(* ===== verification/Snmp_Msg_In.thy ===== *)
theory Snmp_Msg_In
  imports Ber_Codec
begin

text \<open>
  Decoding an SNMP message (\<open>core/snmp_msg_in.c\<close>) into \<open>struct snmp_datagram\<close>
  (\<open>core/snmp.h\<close>). The decoders get the received buffer and the offset of their pointer. A
  result is \<open>None\<close> if the code reads outside the buffer or writes outside an object,
  \<open>Some (Inl e)\<close> if it returns the error \<open>e\<close>, and \<open>Some (Inr r)\<close> otherwise. On an error the
  datagram is cleared, so the error result does not carry it. A field of type \<open>integer_t\<close> is its
  32 bits, read with \<open>sint\<close> where its sign matters.
\<close>

section \<open>Definitions\<close>

datatype snmp_err =
    SNMP_ERR_VERSION | SNMP_ERR_GLOBAL_DATA_LEN | SNMP_ERR_GLOBAL_ID | SNMP_ERR_GLOBAL_SIZE
  | SNMP_ERR_GLOBAL_FLAGS | SNMP_ERR_GLOBAL_MODEL | SNMP_ERR_SECURITY_STR | SNMP_ERR_SECURITY_SEQ
  | SNMP_ERR_SECURITY_ENGINE_ID | SNMP_ERR_SECURITY_ENGINE_ID_LEN | SNMP_ERR_SECURITY_ENGINE_BOOTS
  | SNMP_ERR_SECURITY_ENGINE_TIME | SNMP_ERR_SECURITY_USER_NAME | SNMP_ERR_SECURITY_USER_NAME_LEN
  | SNMP_ERR_SECURITY_AUTH_PARA | SNMP_ERR_SECURITY_AUTH_PARA_LEN | SNMP_ERR_SECURITY_PRIV_PARA
  | SNMP_ERR_SECURITY_PRIV_PARA_LEN | SNMP_ERR_SCOPE_PDU_SEQ | SNMP_ERR_CONTEXT_ID
  | SNMP_ERR_CONTEXT_ID_LEN | SNMP_ERR_CONTEXT_NAME | SNMP_ERR_CONTEXT_NAME_LEN | SNMP_ERR_PDU_TYPE
  | SNMP_ERR_PDU_LEN | SNMP_ERR_PDU_REQID | SNMP_ERR_PDU_ERRSTAT | SNMP_ERR_PDU_ERRIDX
  | SNMP_ERR_VB_LIST_SEQ | SNMP_ERR_VB_SEQ | SNMP_ERR_VB_OID_TYPE | SNMP_ERR_VB_VAR
  | SNMP_ERR_VB_VALUE_LEN | SNMP_ERR_VB_OID_LEN

record var_bind =
  vb_oid :: oid
  vb_len :: u32
  value_len :: u32
  value_type :: u8
  vb_value :: bytes

record pdu_hdr =
  pdu_type :: u8
  pdu_len :: u32
  req_id_len :: u32
  req_id :: u32
  err_stat_len :: u32
  err_stat :: u32
  err_idx_len :: u32
  err_idx :: u32

text \<open>The global data and security parameters of SNMPv3, and the whole datagram. The fields of the
  source's one structure are kept in three records.\<close>

record global_data =
  msg_len :: u32
  msg_id :: u32
  msg_id_len :: u32
  msg_max_size :: u32
  msg_size_len :: u32
  msg_flags :: u8
  msg_flags_len :: u32
  msg_security_model :: u32
  msg_model_len :: u32

record security_para =
  secur_str_len :: u32
  secur_para_len :: u32
  engine_id :: bytes
  engine_id_len :: u32
  engine_boots :: u32
  engine_boots_len :: u32
  engine_time :: u32
  engine_time_len :: u32
  user_name :: bytes
  user_name_len :: u32
  auth_para :: bytes
  auth_para_len :: u32
  priv_para :: bytes
  priv_para_len :: u32

record snmp_datagram =
  data_len :: u32
  version :: u32
  ver_len :: u32
  global :: global_data
  security :: security_para
  scope_len :: u32
  context_id :: bytes
  context_id_len :: u32
  context_name :: bytes
  context_name_len :: u32
  hdr :: pdu_hdr
  vb_list_len :: u32
  vb_in_cnt :: u32
  vb_out_cnt :: u32
  vb_in_list :: "var_bind list"
  vb_out_list :: "var_bind list"

text \<open>\<open>snmp_datagram_clear\<close>: both lists are freed and every byte is set to zero.\<close>

definition snmp_datagram_clear :: snmp_datagram where
  "snmp_datagram_clear = \<lparr>data_len = 0, version = 0, ver_len = 0,
     global = \<lparr>msg_len = 0, msg_id = 0, msg_id_len = 0, msg_max_size = 0, msg_size_len = 0, msg_flags = 0,
       msg_flags_len = 0, msg_security_model = 0, msg_model_len = 0\<rparr>,
     security = \<lparr>secur_str_len = 0, secur_para_len = 0, engine_id = replicate 33 0, engine_id_len = 0,
       engine_boots = 0, engine_boots_len = 0, engine_time = 0, engine_time_len = 0,
       user_name = replicate 41 0, user_name_len = 0, auth_para = replicate 41 0, auth_para_len = 0,
       priv_para = replicate 41 0, priv_para_len = 0\<rparr>,
     scope_len = 0, context_id = replicate 33 0, context_id_len = 0, context_name = replicate 41 0,
     context_name_len = 0,
     hdr = \<lparr>pdu_type = 0, pdu_len = 0, req_id_len = 0, req_id = 0, err_stat_len = 0, err_stat = 0,
       err_idx_len = 0, err_idx = 0\<rparr>,
     vb_list_len = 0, vb_in_cnt = 0, vb_out_cnt = 0, vb_in_list = [], vb_out_list = []\<rparr>"

subsection \<open>Results of the decoders\<close>

type_synonym 'a dec = "(snmp_err + 'a) option"

fun dbind :: "'a dec \<Rightarrow> ('a \<Rightarrow> 'b dec) \<Rightarrow> 'b dec" where
  "dbind None f = None"
| "dbind (Some (Inl e)) f = Some (Inl e)"
| "dbind (Some (Inr x)) f = f x"

abbreviation ok :: "'a \<Rightarrow> 'a dec" where
  "ok x \<equiv> Some (Inr x)"

abbreviation fail :: "snmp_err \<Rightarrow> 'a dec" where
  "fail e \<equiv> Some (Inl e)"

definition lift :: "'a option \<Rightarrow> 'a dec" where
  "lift m = map_option Inr m"

lemma dbind_cong [fundef_cong]:
  "m = m' \<Longrightarrow> (\<And>x. m' = ok x \<Longrightarrow> f x = g x) \<Longrightarrow> dbind m f = dbind m' g"
  by (cases m'; cases "the m'") auto

text \<open>\<open>if (*buf++ != tag) return err\<close>.\<close>

definition expect :: "bytes \<Rightarrow> nat \<Rightarrow> u8 \<Rightarrow> snmp_err \<Rightarrow> nat dec" where
  "expect buf off t e = (case rd buf off of
      None \<Rightarrow> None | Some b \<Rightarrow> if b = t then ok (Suc off) else fail e)"

text \<open>A tagged integer: its length field, its value (unchanged if the length is zero) and the offset
  after it.\<close>

definition int_field :: "bytes \<Rightarrow> nat \<Rightarrow> snmp_err \<Rightarrow> u32 \<Rightarrow> (u32 \<times> u32 \<times> nat) dec" where
  "int_field buf off e old =
     dbind (expect buf off ASN1_TAG_INT e) (\<lambda>off. lift (do {
       (n, len) \<leftarrow> ber_length_dec buf off;
       bs \<leftarrow> rdn buf (off + n) (unat len);
       (c, img) \<leftarrow> ber_value_dec bs ASN1_TAG_INT;
       Some (len, if img = [] then old else of_le32 img, off + n + unat len) }))"

text \<open>A tagged string for an array of \<open>sz\<close> bytes, with the check of its length, which is computed in
  32 bits.\<close>

definition str_field :: "bytes \<Rightarrow> nat \<Rightarrow> snmp_err \<Rightarrow> snmp_err \<Rightarrow> u32 \<Rightarrow> bytes \<Rightarrow> (u32 \<times> bytes \<times> nat) dec" where
  "str_field buf off e e_len sz obj =
     dbind (expect buf off ASN1_TAG_OCTSTR e) (\<lambda>off.
     dbind (lift (ber_length_dec buf off)) (\<lambda>(n, len).
       if len + 1 > sz then fail e_len
       else lift (do {
         bs \<leftarrow> rdn buf (off + n) (unat len);
         (c, img) \<leftarrow> ber_value_dec bs ASN1_TAG_OCTSTR;
         obj' \<leftarrow> wr obj img;
         Some (len, obj', off + n + unat len) })))"

text \<open>A tag and length without the contents.\<close>

definition seq_field :: "bytes \<Rightarrow> nat \<Rightarrow> u8 \<Rightarrow> snmp_err \<Rightarrow> (u32 \<times> nat) dec" where
  "seq_field buf off t e =
     dbind (expect buf off t e) (\<lambda>off. lift (do { (n, len) \<leftarrow> ber_length_dec buf off; Some (len, off + n) }))"

subsection \<open>The parts of a message\<close>

definition var_bind_alloc :: "bytes \<Rightarrow> nat \<Rightarrow> var_bind dec" where
  "var_bind_alloc buf off =
     dbind (expect buf off ASN1_TAG_OBJID SNMP_ERR_VB_OID_TYPE) (\<lambda>off.
     dbind (lift (ber_length_dec buf off)) (\<lambda>(n, oid_len).
     dbind (lift (rdn buf (off + n) (unat oid_len))) (\<lambda>oid_bytes.
       let off = off + n + unat oid_len; oid_dec_len = ber_value_dec_try oid_bytes ASN1_TAG_OBJID in
       if oid_dec_len > word_of_nat MIB_OID_MAX_LEN then fail SNMP_ERR_VB_OID_LEN
       else
         dbind (lift (rd buf off)) (\<lambda>val_type.
         dbind (lift (ber_length_dec buf (Suc off))) (\<lambda>(n, val_len).
           if val_len > word_of_nat MIB_VALUE_MAX_LEN then fail SNMP_ERR_VB_VALUE_LEN
           else lift (do {
             oid \<leftarrow> (if oid_bytes = [] then Some [] else ber_oid_dec oid_bytes);
             val \<leftarrow> rdn buf (Suc off + n) (unat val_len);
             if length oid > unat oid_dec_len then None
             else Some \<lparr>vb_oid = oid, vb_len = 0, value_len = val_len, value_type = val_type, vb_value = val\<rparr> }))))))"

definition pdu_hdr_parse :: "bytes \<Rightarrow> nat \<Rightarrow> pdu_hdr \<Rightarrow> (pdu_hdr \<times> nat) dec" where
  "pdu_hdr_parse buf off ph =
     dbind (lift (rd buf off)) (\<lambda>type.
     dbind (lift (ber_length_dec buf (Suc off))) (\<lambda>(n, plen).
     dbind (int_field buf (Suc off + n) SNMP_ERR_PDU_REQID (req_id ph)) (\<lambda>(rl, r, off).
     dbind (int_field buf off SNMP_ERR_PDU_ERRSTAT (err_stat ph)) (\<lambda>(sl, s, off).
     dbind (int_field buf off SNMP_ERR_PDU_ERRIDX (err_idx ph)) (\<lambda>(il, i, off).
       ok (\<lparr>pdu_type = type, pdu_len = plen, req_id_len = rl, req_id = r, err_stat_len = sl, err_stat = s,
            err_idx_len = il, err_idx = i\<rparr>, off))))))"

lemma expect_ok: "expect buf off t e = ok off' \<Longrightarrow> off' = Suc off \<and> off < length buf"
  by (auto simp: expect_def rd_def split: if_splits)

lemma dbind_ok: "dbind m f = ok y \<longleftrightarrow> (\<exists>x. m = ok x \<and> f x = ok y)"
  by (cases m; cases "the m") auto

lemma lift_ok: "lift m = ok x \<longleftrightarrow> m = Some x"
  by (auto simp: lift_def)

lemma seq_field_off: "seq_field buf off t e = ok (len, off') \<Longrightarrow> off < off' \<and> off < length buf"
  by (auto simp: seq_field_def dbind_ok lift_ok dest!: expect_ok split: bind_splits)

text \<open>The loop of \<open>var_bind_parse\<close>: \<open>rest\<close> is \<open>vb_list_len\<close>, an unsigned counter that is decreased by
  the length of each varbind.\<close>

function vb_loop :: "bytes \<Rightarrow> nat \<Rightarrow> u32 \<Rightarrow> var_bind list \<Rightarrow> (var_bind list \<times> nat) dec" where
  "vb_loop buf off rest vbs =
     (if rest = 0 then ok (vbs, off)
      else
        dbind (seq_field buf off ASN1_TAG_SEQ SNMP_ERR_VB_SEQ) (\<lambda>(len, off1).
        dbind (var_bind_alloc buf off1) (\<lambda>vb.
          vb_loop buf (off1 + unat len) (rest - (1 + word_of_nat (off1 - Suc off) + len)) (vbs @ [vb]))))"
  by pat_completeness auto

termination
  by (relation "measure (\<lambda>(buf, off, rest, vbs). length buf - off)")
    (auto dest!: seq_field_off)

declare vb_loop.simps [simp del]

definition var_bind_parse :: "bytes \<Rightarrow> nat \<Rightarrow> (var_bind list \<times> nat) dec" where
  "var_bind_parse buf off =
     dbind (seq_field buf off ASN1_TAG_SEQ SNMP_ERR_VB_LIST_SEQ) (\<lambda>(len, off). vb_loop buf off len [])"

definition global_data_decode :: "bytes \<Rightarrow> nat \<Rightarrow> global_data \<Rightarrow> (global_data \<times> nat) dec" where
  "global_data_decode buf off g =
     dbind (int_field buf off SNMP_ERR_GLOBAL_ID (msg_id g)) (\<lambda>(idl, i, off).
     dbind (int_field buf off SNMP_ERR_GLOBAL_SIZE (msg_max_size g)) (\<lambda>(szl, sz, off).
     dbind (expect buf off ASN1_TAG_OCTSTR SNMP_ERR_GLOBAL_FLAGS) (\<lambda>off.
     dbind (lift (do {
         (n, len) \<leftarrow> ber_length_dec buf off;
         bs \<leftarrow> rdn buf (off + n) (unat len);
         fl \<leftarrow> wr [msg_flags g] bs;
         Some (len, hd fl, off + n + unat len) })) (\<lambda>(fll, fl, off).
     dbind (int_field buf off SNMP_ERR_GLOBAL_MODEL (msg_security_model g)) (\<lambda>(ml, md, off).
       ok (g\<lparr>msg_id_len := idl, msg_id := i, msg_size_len := szl, msg_max_size := sz, msg_flags_len := fll,
             msg_flags := fl, msg_model_len := ml, msg_security_model := md\<rparr>, off))))))"

definition security_parameter_decode :: "bytes \<Rightarrow> nat \<Rightarrow> security_para \<Rightarrow> (security_para \<times> nat) dec" where
  "security_parameter_decode buf off s =
     dbind (seq_field buf off ASN1_TAG_OCTSTR SNMP_ERR_SECURITY_STR) (\<lambda>(strl, off).
     dbind (seq_field buf off ASN1_TAG_SEQ SNMP_ERR_SECURITY_SEQ) (\<lambda>(paral, off).
     dbind (str_field buf off SNMP_ERR_SECURITY_ENGINE_ID SNMP_ERR_SECURITY_ENGINE_ID_LEN 33 (engine_id s)) (\<lambda>(eil, ei, off).
     dbind (int_field buf off SNMP_ERR_SECURITY_ENGINE_BOOTS (engine_boots s)) (\<lambda>(ebl, eb, off).
     dbind (int_field buf off SNMP_ERR_SECURITY_ENGINE_TIME (engine_time s)) (\<lambda>(etl, et, off).
     dbind (str_field buf off SNMP_ERR_SECURITY_USER_NAME SNMP_ERR_SECURITY_USER_NAME_LEN 41 (user_name s)) (\<lambda>(unl, un, off).
     dbind (str_field buf off SNMP_ERR_SECURITY_AUTH_PARA SNMP_ERR_SECURITY_AUTH_PARA_LEN 41 (auth_para s)) (\<lambda>(apl, ap, off).
     dbind (str_field buf off SNMP_ERR_SECURITY_ENGINE_TIME SNMP_ERR_SECURITY_PRIV_PARA_LEN 41 (priv_para s)) (\<lambda>(ppl, pp, off).
       ok (\<lparr>secur_str_len = strl, secur_para_len = paral, engine_id = ei, engine_id_len = eil,
            engine_boots = eb, engine_boots_len = ebl, engine_time = et, engine_time_len = etl,
            user_name = un, user_name_len = unl, auth_para = ap, auth_para_len = apl,
            priv_para = pp, priv_para_len = ppl\<rparr>, off)))))))))"

subsection \<open>The message\<close>

text \<open>The part between the version and the context name that only SNMPv3 has.\<close>

definition v3_decode :: "bytes \<Rightarrow> nat \<Rightarrow> snmp_datagram \<Rightarrow> (snmp_datagram \<times> nat) dec" where
  "v3_decode buf off sdg =
     dbind (seq_field buf off ASN1_TAG_SEQ SNMP_ERR_GLOBAL_DATA_LEN) (\<lambda>(gl, off).
     dbind (global_data_decode buf off ((global sdg)\<lparr>msg_len := gl\<rparr>)) (\<lambda>(g, off).
     dbind (security_parameter_decode buf off (security sdg)) (\<lambda>(s, off).
     dbind (seq_field buf off ASN1_TAG_SEQ SNMP_ERR_SCOPE_PDU_SEQ) (\<lambda>(scl, off).
     dbind (str_field buf off SNMP_ERR_CONTEXT_ID SNMP_ERR_CONTEXT_ID_LEN 33 (context_id sdg)) (\<lambda>(cil, ci, off).
       ok (sdg\<lparr>global := g, security := s, scope_len := scl, context_id := ci, context_id_len := cil\<rparr>, off))))))"

definition snmp_decode_msg :: "bytes \<Rightarrow> snmp_datagram \<Rightarrow> snmp_datagram dec" where
  "snmp_decode_msg buf sdg =
     dbind (lift (ber_length_dec buf 1)) (\<lambda>(n, dlen).
     dbind (int_field buf (1 + n) SNMP_ERR_VERSION (version sdg)) (\<lambda>(vl, v, off).
     dbind (let sdg1 = sdg\<lparr>data_len := dlen, ver_len := vl, version := v\<rparr> in
            if sint v \<ge> 3 then v3_decode buf off sdg1 else ok (sdg1, off)) (\<lambda>(sdg2, off).
     dbind (str_field buf off SNMP_ERR_CONTEXT_NAME SNMP_ERR_CONTEXT_NAME_LEN 41 (context_name sdg2)) (\<lambda>(cnl, cn, off).
     dbind (pdu_hdr_parse buf off (hdr sdg2)) (\<lambda>(ph, off).
     dbind (var_bind_parse buf off) (\<lambda>(vbs, off).
       ok (sdg2\<lparr>context_name_len := cnl, context_name := cn, hdr := ph, vb_list_len := 0,
                vb_in_cnt := word_of_nat (length vbs), vb_in_list := vbs\<rparr>)))))))"

text \<open>\<open>snmp_decode\<close>: after an error the datagram is cleared.\<close>

definition snmp_decode :: "bytes \<Rightarrow> snmp_datagram \<Rightarrow> snmp_datagram option" where
  "snmp_decode buf sdg = (case snmp_decode_msg buf sdg of
      None \<Rightarrow> None
    | Some (Inl e) \<Rightarrow> Some snmp_datagram_clear
    | Some (Inr sdg') \<Rightarrow> Some sdg')"

end
