(* ===== verification/Snmp_Msg_Codec.thy ===== *)
theory Snmp_Msg_Codec
  imports Snmp_Msg_Out
begin

text \<open>
  The message decoder and the message encoder together: what a decoded datagram satisfies, and that
  a response with honest length fields is decoded back to the same message.
\<close>

section \<open>What a decoded message satisfies\<close>

lemma dbind_okE:
  assumes "dbind m f = ok y"
  obtains x where "m = ok x" "f x = ok y"
  using assms by (auto simp: dbind_ok)

lemma str_field_ok:
  assumes "str_field buf off e e' sz obj = ok (len, obj', off')" "length obj = unat sz" "unat sz < 2 ^ 31"
  shows "unat len < unat sz" "length obj' = unat sz" "drop (unat len) obj' = drop (unat len) obj"
proof -
  obtain bs n where bs: "rdn buf (Suc off + n) (unat len) = Some bs" "wr obj bs = Some obj'"
      "len + 1 \<le> sz"
    using assms(1)
    by (fastforce simp: str_field_def dbind_ok lift_ok ber_value_dec_def Option.bind_eq_Some_conv not_less
        dest!: expect_ok split: if_splits)
  have "length bs = unat len"
    using bs(1) rdn_length by blast
  then have len: "unat len \<le> unat sz" "obj' = bs @ drop (unat len) obj"
    using bs(2) assms(2) by (auto simp: wr_def split: if_splits)
  show "length obj' = unat sz" "drop (unat len) obj' = drop (unat len) obj"
    using len assms(2) \<open>length bs = unat len\<close> by simp_all
  show "unat len < unat sz"
  proof (cases "len + 1 = 0")
    case True
    then have "len = - 1"
      by (simp add: add_eq_0_iff2)
    then have "unat len = 2 ^ 32 - 1"
      by (simp add: unsigned_minus_1_eq_mask mask_eq_exp_minus_1)
    then show ?thesis
      using len(1) assms(3) by simp
  next
    case False
    then have "unat (len + 1) = unat len + 1"
      using unatSuc [of len] by (simp add: add.commute)
    then show ?thesis
      using bs(3) by (simp add: word_le_nat_alt)
  qed
qed

text \<open>A string of a decoded datagram is shorter than its array and followed by a zero byte.\<close>

definition c_string :: "bytes \<Rightarrow> u32 \<Rightarrow> nat \<Rightarrow> bool" where
  "c_string arr len sz \<longleftrightarrow> length arr = sz \<and> unat len < sz \<and> (\<forall>i. unat len \<le> i \<and> i < sz \<longrightarrow> arr ! i = 0)"

definition vb_fits :: "var_bind \<Rightarrow> bool" where
  "vb_fits vb \<longleftrightarrow> length (vb_oid vb) \<le> MIB_OID_MAX_LEN \<and> unat (value_len vb) \<le> MIB_VALUE_MAX_LEN
     \<and> length (vb_value vb) = unat (value_len vb)"

lemma str_field_c_string:
  assumes "str_field buf off e e' sz (replicate n 0) = ok (len, obj', off')" "unat sz = n" "n < 100"
  shows "c_string obj' len n"
proof -
  note s = str_field_ok [OF assms(1)]
  have "obj' ! i = 0" if "unat len \<le> i" "i < n" for i
  proof -
    have "obj' ! i = drop (unat len) obj' ! (i - unat len)"
      using that s(2) assms(2,3) by simp
    also have "\<dots> = 0"
      using that s(3) assms(2,3) by simp
    finally show ?thesis .
  qed
  then show ?thesis
    using s assms(2,3) by (simp add: c_string_def)
qed

lemma var_bind_alloc_fits: "var_bind_alloc buf off = ok vb \<Longrightarrow> vb_fits vb"
proof -
  assume "var_bind_alloc buf off = ok vb"
  then obtain off1 n len bs val_len m val where *:
      "ber_value_dec_try bs ASN1_TAG_OBJID \<le> word_of_nat MIB_OID_MAX_LEN"
      "val_len \<le> word_of_nat MIB_VALUE_MAX_LEN" "rdn buf m (unat val_len) = Some val"
      "length (vb_oid vb) \<le> unat (ber_value_dec_try bs ASN1_TAG_OBJID)" "value_len vb = val_len"
      "vb_value vb = val"
    by (fastforce simp: var_bind_alloc_def dbind_ok lift_ok Let_def not_less Option.bind_eq_Some_conv
        split: if_splits)
  then show ?thesis
    using rdn_length [OF *(3)]
    by (simp add: vb_fits_def word_le_nat_alt MIB_OID_MAX_LEN_def MIB_VALUE_MAX_LEN_def)
qed

lemma vb_loop_fits:
  "vb_loop buf off rest vbs = ok (vbs', off') \<Longrightarrow> \<forall>vb \<in> set vbs. vb_fits vb \<Longrightarrow> \<forall>vb \<in> set vbs'. vb_fits vb"
proof (induction buf off rest vbs rule: vb_loop.induct)
  case (1 buf off rest vbs)
  show ?case
  proof (cases "rest = 0")
    case True
    then show ?thesis
      using 1 by (simp add: vb_loop.simps [of buf off])
  next
    case False
    then obtain len off1 vb where *: "seq_field buf off ASN1_TAG_SEQ SNMP_ERR_VB_SEQ = ok (len, off1)"
        "var_bind_alloc buf off1 = ok vb"
        "vb_loop buf (off1 + unat len) (rest - (1 + word_of_nat (off1 - Suc off) + len)) (vbs @ [vb]) = ok (vbs', off')"
      using "1.prems"(1) by (auto simp: vb_loop.simps [of buf off] dbind_ok)
    from "1.IH" [OF False *(1) refl *(2,3)] show ?thesis
      using "1.prems"(2) var_bind_alloc_fits [OF *(2)] by simp
  qed
qed

text \<open>The strings of the SNMPv3 part.\<close>

definition strings_ok :: "snmp_datagram \<Rightarrow> bool" where
  "strings_ok sdg \<longleftrightarrow> c_string (context_id sdg) (context_id_len sdg) 33
    \<and> c_string (engine_id (security sdg)) (engine_id_len (security sdg)) 33
    \<and> c_string (user_name (security sdg)) (user_name_len (security sdg)) 41
    \<and> c_string (auth_para (security sdg)) (auth_para_len (security sdg)) 41
    \<and> c_string (priv_para (security sdg)) (priv_para_len (security sdg)) 41"

lemma c_string_33: "str_field buf off e e' 33 (replicate 33 0) = ok (len, obj', off') \<Longrightarrow> c_string obj' len 33"
  by (erule str_field_c_string; simp)

lemma c_string_41: "str_field buf off e e' 41 (replicate 41 0) = ok (len, obj', off') \<Longrightarrow> c_string obj' len 41"
  by (erule str_field_c_string; simp)

lemma security_parameter_decode_strings:
  assumes "security_parameter_decode buf off s = ok (s', off')"
    and "engine_id s = replicate 33 0" "user_name s = replicate 41 0" "auth_para s = replicate 41 0"
      "priv_para s = replicate 41 0"
  shows "c_string (engine_id s') (engine_id_len s') 33 \<and> c_string (user_name s') (user_name_len s') 41
    \<and> c_string (auth_para s') (auth_para_len s') 41 \<and> c_string (priv_para s') (priv_para_len s') 41"
    using assms(1) unfolding security_parameter_decode_def assms(2-5)
    by (elim dbind_okE; clarsimp; elim dbind_okE; clarsimp; elim dbind_okE; clarsimp; elim dbind_okE; clarsimp;
        elim dbind_okE; clarsimp; elim dbind_okE; clarsimp; elim dbind_okE; clarsimp; elim dbind_okE; clarsimp)
      (intro conjI c_string_33 c_string_41; assumption)

lemma v3_decode_strings:
  assumes "v3_decode buf off (snmp_datagram_clear\<lparr>data_len := d, ver_len := l, version := v\<rparr>) = ok (sdg, off')"
  shows "strings_ok sdg \<and> context_name sdg = replicate 41 0 \<and> vb_out_list sdg = []"
proof -
  let ?c = "snmp_datagram_clear\<lparr>data_len := d, ver_len := l, version := v\<rparr>"
  obtain off1 s off2 off3 off4 cil ci off5 g sl where *:
      "security_parameter_decode buf off1 (security ?c) = ok (s, off2)"
      "str_field buf off3 SNMP_ERR_CONTEXT_ID SNMP_ERR_CONTEXT_ID_LEN 33 (context_id ?c) = ok (cil, ci, off4)"
      "sdg = ?c\<lparr>global := g, security := s, scope_len := sl, context_id := ci, context_id_len := cil\<rparr>"
    using assms unfolding v3_decode_def
    by (elim dbind_okE; clarsimp; elim dbind_okE; clarsimp; elim dbind_okE; clarsimp; elim dbind_okE; clarsimp;
        elim dbind_okE; clarsimp)
  show ?thesis
    using security_parameter_decode_strings [OF *(1)] c_string_33 [of buf off3] *(2,3)
    by (simp add: strings_ok_def snmp_datagram_clear_def)
qed

text \<open>C18: Whatever bytes arrive, a datagram the decoder accepts respects the sizes of the objects it
  was stored in: every string field is shorter than its array and zero-terminated, every identifier
  has at most 64 sub-identifiers, every value at most 1024 bytes, and the counter of the variable
  bindings is their number.\<close>

theorem snmp_decode_bounds:
  assumes "snmp_decode_msg buf snmp_datagram_clear = ok sdg"
  shows "c_string (context_name sdg) (context_name_len sdg) 41
    \<and> strings_ok sdg \<and> (\<forall>vb \<in> set (vb_in_list sdg). vb_fits vb)
    \<and> vb_in_cnt sdg = word_of_nat (length (vb_in_list sdg)) \<and> vb_out_list sdg = []"
proof -
  let ?c = snmp_datagram_clear
  obtain d vl v off sdg2 off2 cnl cn off3 ph vbs off4 off5 where *:
      "(if sint v \<ge> 3 then v3_decode buf off (?c\<lparr>data_len := d, ver_len := vl, version := v\<rparr>)
        else ok (?c\<lparr>data_len := d, ver_len := vl, version := v\<rparr>, off)) = ok (sdg2, off2)"
      "str_field buf off2 SNMP_ERR_CONTEXT_NAME SNMP_ERR_CONTEXT_NAME_LEN 41 (context_name sdg2) = ok (cnl, cn, off3)"
      "var_bind_parse buf off4 = ok (vbs, off5)"
      "sdg = sdg2\<lparr>context_name_len := cnl, context_name := cn, hdr := ph, vb_list_len := 0,
                vb_in_cnt := word_of_nat (length vbs), vb_in_list := vbs\<rparr>"
    using assms by (auto simp: snmp_decode_msg_def dbind_ok Let_def split del: if_split)
  have clear: "c_string (replicate n 0) 0 n" if "0 < n" for n
    using that by (simp add: c_string_def)
  have v3: "strings_ok sdg2 \<and> context_name sdg2 = replicate 41 0 \<and> vb_out_list sdg2 = []"
    using *(1) v3_decode_strings clear
    by (cases "sint v \<ge> 3") (auto simp: snmp_datagram_clear_def strings_ok_def)
  moreover have "c_string cn cnl 41"
    using str_field_c_string *(2) v3 by fastforce
  moreover have "\<forall>vb \<in> set vbs. vb_fits vb"
    using *(3) vb_loop_fits by (fastforce simp: var_bind_parse_def dbind_ok)
  ultimately show ?thesis
    using *(4) by (simp add: strings_ok_def)
qed

text \<open>A GET request of SNMPv2c with community \<open>p\<close> for the identifier 1.3.6.\<close>

definition get_msg :: bytes where
  "get_msg = [0x30, 0x1b, 0x02, 0x01, 0x01, 0x04, 0x01, 0x70, 0xa0, 0x13, 0x02, 0x01, 0x07, 0x02, 0x01, 0x00,
     0x02, 0x01, 0x00, 0x30, 0x08, 0x30, 0x06, 0x06, 0x02, 0x2b, 0x06, 0x05, 0x00]"
definition get_vb :: var_bind where
  "get_vb = \<lparr>vb_oid = [1, 3, 6], vb_len = 0, value_len = 0, value_type = 5, vb_value = []\<rparr>"
definition get_hdr :: pdu_hdr where
  "get_hdr = \<lparr>pdu_type = 0xa0, pdu_len = 0x13, req_id_len = 1, req_id = 7, err_stat_len = 1, err_stat = 0,
       err_idx_len = 1, err_idx = 0\<rparr>"
lemmas decode_defs = expect_def lift_def ber_length_dec_def rd_def rdn_def ber_value_dec_def acc8_def

lemma get_msg_hdr: "pdu_hdr_parse get_msg 8 h = ok (get_hdr, 19)"
  by (simp add: get_msg_def get_hdr_def pdu_hdr_parse_def int_field_def decode_defs ber_int_dec_def)
lemma get_msg_vbs: "var_bind_parse get_msg 19 = ok ([get_vb], 29)"
  by (simp add: get_msg_def get_vb_def var_bind_parse_def seq_field_def vb_loop.simps var_bind_alloc_def decode_defs
      ber_oid_dec_def ber_value_dec_try_def ber_oid_dec_try_def MIB_OID_MAX_LEN_def MIB_VALUE_MAX_LEN_def)

lemma get_msg_decodes: "\<exists>sdg. snmp_decode_msg get_msg snmp_datagram_clear = ok sdg \<and> vb_in_list sdg = [get_vb] \<and> hdr sdg = get_hdr"
proof -
  have l: "ber_length_dec get_msg 1 = Some (1, 27)"
    by (simp add: get_msg_def decode_defs)
  have v: "int_field get_msg (Suc (Suc 0)) e old = ok (1, 1, 5)" for e old
    by (simp add: get_msg_def int_field_def decode_defs ber_int_dec_def)
  have s: "str_field get_msg 5 e e' 41 (replicate 41 0) = ok (1, 0x70 # replicate 40 0, 8)" for e e'
    by (simp add: get_msg_def str_field_def wr_def decode_defs)
  show ?thesis
    using l by (simp add: snmp_decode_msg_def lift_def v s get_msg_hdr get_msg_vbs snmp_datagram_clear_def)
qed

theorem snmp_decode_bounds_witness:
  "\<exists>sdg. snmp_decode_msg get_msg snmp_datagram_clear = ok sdg \<and> vb_in_list sdg = [get_vb] \<and> vb_fits get_vb"
proof -
  obtain sdg where *: "snmp_decode_msg get_msg snmp_datagram_clear = ok sdg" "vb_in_list sdg = [get_vb]"
    using get_msg_decodes by blast
  from snmp_decode_bounds [OF *(1)] show ?thesis
    using * by simp
qed

section \<open>Reading back what was written\<close>

text \<open>The bytes from an offset to the end of a buffer.\<close>

definition remains :: "bytes \<Rightarrow> nat \<Rightarrow> bytes \<Rightarrow> bool" where
  "remains buf off bs \<longleftrightarrow> (\<exists>pre. buf = pre @ bs \<and> off = length pre)"

lemma remains_app: "remains buf off (xs @ ys) \<Longrightarrow> remains buf (off + length xs) ys"
  by (auto simp: remains_def intro: exI [of _ "_ @ xs"])

lemma remains_Cons: "remains buf off (x # ys) \<Longrightarrow> remains buf (Suc off) ys"
  using remains_app [of buf off "[x]" ys] by simp

lemma remains_rd: "remains buf off (x # ys) \<Longrightarrow> rd buf off = Some x"
  by (auto simp: remains_def rd_def nth_append)

lemma remains_rdn: "remains buf off (xs @ ys) \<Longrightarrow> rdn buf off (length xs) = Some xs"
  by (auto simp: remains_def rdn_def)

lemma remains_length: "remains buf off (ber_length_enc v @ ys) \<Longrightarrow>
    ber_length_dec buf off = Some (length (ber_length_enc v), v)"
  by (auto simp: remains_def ber_length.dec_enc)

lemma remains_expect: "remains buf off (t # ys) \<Longrightarrow> expect buf off t e = ok (Suc off)"
  by (simp add: expect_def remains_rd)

lemma length_head_enc [simp]: "length (head_enc t len) = Suc (length (ber_length_enc len))"
  by (simp add: head_enc_def)

lemma remains_head:
  assumes "remains buf off (head_enc t len @ ys)"
  shows "expect buf off t e = ok (Suc off)" "rd buf off = Some t"
    "ber_length_dec buf (Suc off) = Some (length (ber_length_enc len), len)"
    "remains buf (Suc off + length (ber_length_enc len)) ys"
  using assms remains_length [OF remains_Cons] remains_app [OF remains_Cons]
  by (auto simp: head_enc_def remains_expect remains_rd)

lemma seq_field_enc:
  "remains buf off (head_enc t len @ ys) \<Longrightarrow> seq_field buf off t e = ok (len, off + length (head_enc t len))"
  by (simp add: seq_field_def remains_head lift_def)

text \<open>The length field of an integer is the length of its encoding.\<close>

definition int_len :: "u32 \<Rightarrow> u32 \<Rightarrow> bool" where
  "int_len len v \<longleftrightarrow> len = word_of_nat (length (ber_int_enc v))"

lemma ber_int_enc_bound: "length (ber_int_enc v) \<le> 5"
  using scan_down_le [of 0 "le32 v" 3] scan_down_le [of "0xff" "le32 v" 3]
  by (simp add: ber_int_enc_def Let_def)

lemma int_len_unat: "int_len len v \<Longrightarrow> unat len = length (ber_int_enc v)"
  using ber_int_enc_bound [of v] by (simp add: int_len_def unat_word_of_nat)

lemma int_enc_bytes: "int_enc len v = Some (head_enc ASN1_TAG_INT len @ ber_int_enc v)"
  by (simp add: field_enc_def ber_value_enc_def mem_u32_def)

lemma int_field_enc:
  assumes "remains buf off (b @ ys)" "int_enc len v = Some b" "int_len len v"
  shows "int_field buf off e old = ok (len, v, off + length b)"
proof -
  have b: "b = head_enc ASN1_TAG_INT len @ ber_int_enc v"
    using assms(2) int_enc_bytes by simp
  then have h: "remains buf off (head_enc ASN1_TAG_INT len @ ber_int_enc v @ ys)"
    using assms(1) by simp
  note hd = remains_head [OF h]
  show ?thesis
    using hd remains_rdn [OF hd(4)]
    by (simp add: int_field_def lift_def b int_len_unat [OF assms(3)] ber_value_dec_def ber_int_roundtrip)
qed

lemma str_enc_bytes:
  "str_enc len mem = Some b \<longleftrightarrow> unat len \<le> length mem \<and> b = head_enc ASN1_TAG_OCTSTR len @ take (unat len) mem"
  by (auto simp: field_enc_def ber_value_enc_def rdn_def)

lemma str_field_enc:
  assumes "remains buf off (b @ ys)" "str_enc len mem = Some b" "unat len < unat sz" "length obj = unat sz"
  shows "str_field buf off e e' sz obj = ok (len, take (unat len) mem @ drop (unat len) obj, off + length b)"
proof -
  have b: "b = head_enc ASN1_TAG_OCTSTR len @ take (unat len) mem" "unat len \<le> length mem"
    using assms(2) by (simp_all add: str_enc_bytes)
  then have h: "remains buf off (head_enc ASN1_TAG_OCTSTR len @ take (unat len) mem @ ys)"
    using assms(1) by simp
  note hd = remains_head [OF h]
  have "len + 1 \<le> sz"
    using assms(3) by (simp add: inc_le word_less_nat_alt)
  then show ?thesis
    using hd remains_rdn [OF hd(4)] b(2) assms(3,4)
    by (auto simp: str_field_def lift_def b(1) min_absorb2 ber_value_dec_def wr_def not_less)
qed

subsection \<open>The parts of a message\<close>

definition hdr_honest :: "pdu_hdr \<Rightarrow> bool" where
  "hdr_honest ph \<longleftrightarrow> int_len (req_id_len ph) (req_id ph) \<and> int_len (err_stat_len ph) (err_stat ph)
     \<and> int_len (err_idx_len ph) (err_idx ph)"

lemma pdu_hdr_parse_enc:
  assumes "remains buf off (b @ ys)" "pdu_hdr_encode ph = Some b" "hdr_honest ph"
  shows "pdu_hdr_parse buf off ph' = ok (ph, off + length b)"
proof -
  obtain b1 b2 b3 where bs: "int_enc (req_id_len ph) (req_id ph) = Some b1"
      "int_enc (err_stat_len ph) (err_stat ph) = Some b2" "int_enc (err_idx_len ph) (err_idx ph) = Some b3"
    using int_enc_bytes by blast
  then have b: "b = head_enc (pdu_type ph) (pdu_len ph) @ b1 @ b2 @ b3"
    using assms(2) by (simp add: pdu_hdr_encode_def)
  then have "remains buf off (head_enc (pdu_type ph) (pdu_len ph) @ b1 @ b2 @ b3 @ ys)"
    using assms(1) by simp
  note r0 = remains_head [OF this]
  note r1 = remains_app [OF r0(4)]
  note r2 = remains_app [OF r1]
  show ?thesis
    using assms(3) int_field_enc [OF r0(4) bs(1)] int_field_enc [OF r1 bs(2)] int_field_enc [OF r2 bs(3)] r0
    by (simp add: pdu_hdr_parse_def hdr_honest_def lift_def b add.assoc)
qed

definition global_honest :: "global_data \<Rightarrow> bool" where
  "global_honest g \<longleftrightarrow> int_len (msg_id_len g) (msg_id g) \<and> int_len (msg_size_len g) (msg_max_size g)
     \<and> int_len (msg_model_len g) (msg_security_model g) \<and> msg_flags_len g = 1"

lemma global_data_decode_enc:
  assumes "remains buf off (b @ ys)" "global_data_encode g = Some (g', b)" "global_honest g"
  shows "seq_field buf off ASN1_TAG_SEQ e = ok (msg_len g, off + length (head_enc ASN1_TAG_SEQ (msg_len g)))"
    "global_data_decode buf (off + length (head_enc ASN1_TAG_SEQ (msg_len g))) (g0\<lparr>msg_len := msg_len g\<rparr>)
       = ok (g', off + length b)"
    "g' = g\<lparr>msg_flags := 0\<rparr>"
proof -
  obtain b1 b2 b3 b4 where bs: "int_enc (msg_id_len g) (msg_id g) = Some b1"
      "int_enc (msg_size_len g) (msg_max_size g) = Some b2" "str_enc 1 [0] = Some b3"
      "int_enc (msg_model_len g) (msg_security_model g) = Some b4"
    using int_enc_bytes by (fastforce simp: str_enc_bytes)
  then have b: "b = head_enc ASN1_TAG_SEQ (msg_len g) @ b1 @ b2 @ b3 @ b4" "g' = g\<lparr>msg_flags := 0\<rparr>"
    using assms(2,3) by (simp_all add: global_data_encode_def global_honest_def)
  show "g' = g\<lparr>msg_flags := 0\<rparr>"
    by fact
  have r: "remains buf off (head_enc ASN1_TAG_SEQ (msg_len g) @ b1 @ b2 @ b3 @ b4 @ ys)"
    using assms(1) b by simp
  show "seq_field buf off ASN1_TAG_SEQ e = ok (msg_len g, off + length (head_enc ASN1_TAG_SEQ (msg_len g)))"
    by (rule seq_field_enc [OF r])
  note r0 = remains_app [OF r]
  note r1 = remains_app [OF r0]
  note r2 = remains_app [OF r1]
  note r3 = remains_app [OF r2]
  have b3: "b3 = head_enc ASN1_TAG_OCTSTR 1 @ [0]"
    using bs(3) by (simp add: str_enc_bytes)
  then have r2': "remains buf (off + length (head_enc ASN1_TAG_SEQ (msg_len g)) + length b1 + length b2)
      (head_enc ASN1_TAG_OCTSTR 1 @ [0] @ b4 @ ys)"
    using r2 by simp
  note fl = remains_head [OF r2'] remains_rdn [OF remains_head(4) [OF r2']]
  show "global_data_decode buf (off + length (head_enc ASN1_TAG_SEQ (msg_len g))) (g0\<lparr>msg_len := msg_len g\<rparr>)
       = ok (g', off + length b)"
    using assms(3) int_field_enc [OF r0 bs(1)] int_field_enc [OF r1 bs(2)] int_field_enc [OF r3 bs(4)] fl
    by (simp add: global_data_decode_def global_honest_def lift_def wr_def b b3 add.assoc)
qed

lemma c_string_store:
  "c_string arr len sz \<Longrightarrow> take (unat len) arr @ drop (unat len) (replicate sz 0) = arr"
  by (rule nth_equalityI) (auto simp: c_string_def nth_append)

definition security_honest :: "security_para \<Rightarrow> bool" where
  "security_honest s \<longleftrightarrow> int_len (engine_boots_len s) (engine_boots s) \<and> int_len (engine_time_len s) (engine_time s)
     \<and> c_string (user_name s) (user_name_len s) 41 \<and> c_string (auth_para s) (auth_para_len s) 41
     \<and> c_string (priv_para s) (priv_para_len s) 41"

definition engine_id_33 :: bytes where
  "engine_id_33 = snmpv3_engine_id @ replicate 19 0"

lemma length_engine_id [simp]: "length snmpv3_engine_id = 14"
  by (simp add: snmpv3_engine_id_def)

lemma str_field_c_string_enc:
  assumes "remains buf off (b @ ys)" "str_enc len mem = Some b" "c_string mem len n" "unat sz = n"
  shows "str_field buf off e e' sz (replicate n 0) = ok (len, mem, off + length b)"
  using assms(3,4) str_field_enc [OF assms(1,2), of sz "replicate n 0"] c_string_store [OF assms(3)]
  by (simp add: c_string_def)

lemma str_field_engine_enc:
  assumes "remains buf off (b @ ys)" "str_enc 14 snmpv3_engine_id = Some b"
  shows "str_field buf off e e' 33 (replicate 33 0) = ok (14, engine_id_33, off + length b)"
  using str_field_enc [OF assms, of 33 "replicate 33 0"] by (simp add: engine_id_33_def)

lemma c_string_enc: "c_string mem len n \<Longrightarrow> \<exists>b. str_enc len mem = Some b \<and> length b \<le> 6 + n"
  using ber_length_enc_bound [of len] by (auto simp: str_enc_bytes c_string_def)

lemma security_parameter_decode_enc:
  assumes "remains buf off (head_enc ASN1_TAG_OCTSTR (secur_str_len s) @ b @ ys)"
    and "security_parameter_encode s = Some b" "security_honest s" "engine_id_len s = 14"
    and "engine_id s0 = replicate 33 0" "user_name s0 = replicate 41 0" "auth_para s0 = replicate 41 0"
      "priv_para s0 = replicate 41 0"
  shows "security_parameter_decode buf off s0 =
    ok (s\<lparr>engine_id := engine_id_33\<rparr>, off + length (head_enc ASN1_TAG_OCTSTR (secur_str_len s)) + length b)"
proof -
  obtain b1 b2 b3 b4 b5 b6 where bs: "str_enc 14 snmpv3_engine_id = Some b1"
      "int_enc (engine_boots_len s) (engine_boots s) = Some b2" "int_enc (engine_time_len s) (engine_time s) = Some b3"
      "str_enc (user_name_len s) (user_name s) = Some b4" "str_enc (auth_para_len s) (auth_para s) = Some b5"
      "str_enc (priv_para_len s) (priv_para s) = Some b6"
      and b: "b = head_enc ASN1_TAG_SEQ (secur_para_len s) @ b1 @ b2 @ b3 @ b4 @ b5 @ b6"
    using assms(2,4) by (auto simp: security_parameter_encode_def Option.bind_eq_Some_conv)
  have r: "remains buf off (head_enc ASN1_TAG_OCTSTR (secur_str_len s) @ head_enc ASN1_TAG_SEQ (secur_para_len s) @
      b1 @ b2 @ b3 @ b4 @ b5 @ b6 @ ys)"
    using assms(1) b by simp
  note r' = remains_app [OF r]
  note r0 = remains_app [OF r']
  note r1 = remains_app [OF r0]
  note r2 = remains_app [OF r1]
  note r3 = remains_app [OF r2]
  note r4 = remains_app [OF r3]
  note r5 = remains_app [OF r4]
  note c_string_fields = str_field_c_string_enc [where sz = 41 and n = 41]
  show ?thesis
    using assms(3-) seq_field_enc [OF r] seq_field_enc [OF r'] str_field_engine_enc [OF r0 bs(1)]
      int_field_enc [OF r1 bs(2)] int_field_enc [OF r2 bs(3)] c_string_fields [OF r3 bs(4)]
      c_string_fields [OF r4 bs(5)] c_string_fields [OF r5 bs(6)]
    by (simp add: security_parameter_decode_def security_honest_def b add.assoc)
qed

definition v3_clear :: "snmp_datagram \<Rightarrow> bool" where
  "v3_clear sdg \<longleftrightarrow> context_id sdg = replicate 33 0 \<and> engine_id (security sdg) = replicate 33 0
     \<and> user_name (security sdg) = replicate 41 0 \<and> auth_para (security sdg) = replicate 41 0
     \<and> priv_para (security sdg) = replicate 41 0"

lemma v3_decode_enc:
  assumes "remains buf off (b @ ys)" "v3_encode sdg = Some (sdg', b)" "global_honest (global sdg)"
    and "security_honest (security sdg)" "engine_id_len (security sdg) = 14" "v3_clear sdg0"
  shows "v3_decode buf off sdg0 =
    ok (sdg0\<lparr>global := (global sdg)\<lparr>msg_flags := 0\<rparr>, security := (security sdg)\<lparr>engine_id := engine_id_33\<rparr>,
      scope_len := scope_len sdg, context_id := engine_id_33, context_id_len := 14\<rparr>, off + length b)"
    "sdg' = sdg\<lparr>global := (global sdg)\<lparr>msg_flags := 0\<rparr>\<rparr>"
proof -
  obtain g b1 b2 b3 where bs: "global_data_encode (global sdg) = Some (g, b1)"
      "security_parameter_encode (security sdg) = Some b2" "str_enc 14 snmpv3_engine_id = Some b3"
      and b: "b = b1 @ head_enc ASN1_TAG_OCTSTR (secur_str_len (security sdg)) @ b2 @
        head_enc ASN1_TAG_SEQ (scope_len sdg) @ b3" "sdg' = sdg\<lparr>global := g\<rparr>"
    using assms(2) by (auto simp: v3_encode_def Option.bind_eq_Some_conv)
  have r: "remains buf off (b1 @ head_enc ASN1_TAG_OCTSTR (secur_str_len (security sdg)) @ b2 @
      head_enc ASN1_TAG_SEQ (scope_len sdg) @ b3 @ ys)"
    using assms(1) b by simp
  note gl = global_data_decode_enc [OF r bs(1) assms(3)]
  note r1 = remains_app [OF r]
  note r2 = remains_app [OF remains_app [OF r1]]
  note r3 = remains_app [OF r2]
  note sec = security_parameter_decode_enc [OF r1 bs(2) assms(4,5), of "security sdg0"]
  show "sdg' = sdg\<lparr>global := (global sdg)\<lparr>msg_flags := 0\<rparr>\<rparr>"
    using b(2) gl(3) by simp
  show "v3_decode buf off sdg0 =
    ok (sdg0\<lparr>global := (global sdg)\<lparr>msg_flags := 0\<rparr>, security := (security sdg)\<lparr>engine_id := engine_id_33\<rparr>,
      scope_len := scope_len sdg, context_id := engine_id_33, context_id_len := 14\<rparr>, off + length b)"
    using assms(6) gl sec seq_field_enc [OF r2] str_field_engine_enc [OF r3 bs(3)]
    by (simp add: v3_decode_def v3_clear_def b(1) add.assoc)
qed

subsection \<open>Variable bindings\<close>

definition vb_contents :: "var_bind \<Rightarrow> bytes" where
  "vb_contents vb =
     (let ob = ber_oid_enc (vb_oid vb) in
      head_enc ASN1_TAG_OBJID (word_of_nat (length ob)) @ ob @ head_enc (value_type vb) (value_len vb) @ vb_value vb)"

definition vb_bytes :: "var_bind \<Rightarrow> bytes" where
  "vb_bytes vb = head_enc ASN1_TAG_SEQ (vb_len vb) @ vb_contents vb"

text \<open>A variable binding the encoder predicts correctly and the decoder accepts.\<close>

definition vb_honest :: "var_bind \<Rightarrow> bool" where
  "vb_honest vb \<longleftrightarrow> oid_ok (vb_oid vb) \<and> length (ber_oid_enc (vb_oid vb)) \<le> 255 \<and> vb_fits vb
     \<and> vb_len vb = word_of_nat (length (vb_contents vb))"

lemma vb_honest_bounds:
  assumes "vb_honest vb"
  shows "unat (vb_len vb) = length (vb_contents vb)" "length (vb_contents vb) \<le> 1291" "length (vb_bytes vb) \<le> 1297"
proof -
  let ?n = "word_of_nat (length (ber_oid_enc (vb_oid vb))) :: u32"
  show *: "length (vb_contents vb) \<le> 1291"
    using assms ber_length_enc_bound [of ?n] ber_length_enc_bound [of "value_len vb"]
    by (simp add: vb_contents_def Let_def vb_honest_def vb_fits_def MIB_VALUE_MAX_LEN_def)
  then show "unat (vb_len vb) = length (vb_contents vb)"
    using assms by (simp add: vb_honest_def unat_word_of_nat)
  show "length (vb_bytes vb) \<le> 1297"
    using * ber_length_enc_bound [of "vb_len vb"] by (simp add: vb_bytes_def)
qed

lemma var_bind_encode_bytes:
  assumes "vb_honest vb"
  shows "var_bind_encode vb = Some (vb_bytes vb)"
proof -
  have l: "length (vb_oid vb) \<le> 64" "length (ber_oid_enc (vb_oid vb)) \<le> 255" "length (vb_value vb) = unat (value_len vb)"
    using assms by (simp_all add: vb_honest_def vb_fits_def MIB_OID_MAX_LEN_def)
  have m: "mem_oid (oid_img (vb_oid vb)) (length (vb_oid vb)) = Some (vb_oid vb)"
    using mem_oid_img [of "vb_oid vb" "[]"] by simp
  have n: "unat (word_of_nat (length (vb_oid vb)) :: u32) = length (vb_oid vb)"
    using l by (simp add: unat_word_of_nat)
  show ?thesis
    using l ber_oid_enc_size [of "vb_oid vb"]
    by (simp add: var_bind_encode_def field_enc_def ber_value_enc_def ber_value_enc_try_def m n rdn_def vb_bytes_def
        vb_contents_def Let_def)
qed

lemma var_binds_encode_bytes:
  "\<forall>vb \<in> set vbs. vb_honest vb \<Longrightarrow> var_binds_encode vbs = Some (concat (map vb_bytes vbs))"
  by (induction vbs) (simp_all add: var_bind_encode_bytes)

lemma var_bind_alloc_enc:
  assumes "remains buf off (vb_contents vb @ ys)" "vb_honest vb"
  shows "var_bind_alloc buf off = ok (vb\<lparr>vb_len := 0\<rparr>)"
proof -
  define ob where "ob = ber_oid_enc (vb_oid vb)"
  let ?n = "word_of_nat (length ob) :: u32"
  have ob: "ber_oid_dec ob = Some (vb_oid vb)" "ob \<noteq> []" "length ob \<le> 255" "vb_fits vb"
    using assms(2) ber_oid_roundtrip ber_oid_enc_nonempty by (auto simp: vb_honest_def ob_def)
  have n: "unat ?n = length ob"
    using ob by (simp add: unat_word_of_nat)
  have dt: "ber_value_dec_try ob ASN1_TAG_OBJID = word_of_nat (length (vb_oid vb))"
    using ob ber_oid_dec_size by (simp add: ber_value_dec_try_def)
  have r: "remains buf off (head_enc ASN1_TAG_OBJID ?n @ ob @ head_enc (value_type vb) (value_len vb) @ vb_value vb @ ys)"
    using assms(1) by (simp add: vb_contents_def Let_def ob_def)
  note h = remains_head [OF r]
  note h' = remains_head [OF remains_app [OF h(4)]]
  show ?thesis
    using h(1,3) remains_rdn [OF h(4)] h'(2,3) remains_rdn [OF h'(4)] ob n dt
    by (simp add: var_bind_alloc_def lift_def Let_def vb_fits_def MIB_OID_MAX_LEN_def MIB_VALUE_MAX_LEN_def
        word_le_nat_alt not_less unat_word_of_nat add.assoc)
qed

lemma vb_loop_enc:
  assumes "\<forall>vb \<in> set vbs. vb_honest vb" "length (concat (map vb_bytes vbs)) < 2 ^ 32"
    and "remains buf off (concat (map vb_bytes vbs) @ ys)"
  shows "vb_loop buf off (word_of_nat (length (concat (map vb_bytes vbs)))) acc =
    ok (acc @ map (\<lambda>vb. vb\<lparr>vb_len := 0\<rparr>) vbs, off + length (concat (map vb_bytes vbs)))"
  using assms
proof (induction vbs arbitrary: off acc)
  case Nil
  then show ?case
    by (simp add: vb_loop.simps)
next
  case (Cons vb vbs)
  let ?rest = "concat (map vb_bytes vbs)" and ?h = "head_enc ASN1_TAG_SEQ (vb_len vb)"
  have r: "remains buf off (?h @ vb_contents vb @ ?rest @ ys)"
    using Cons.prems by (simp add: vb_bytes_def [of vb])
  note r1 = remains_app [OF r]
  note r2 = remains_app [OF r1]
  have honest: "vb_honest vb"
    using Cons.prems by simp
  note len = vb_honest_bounds(1) [OF honest]
  have ne: "word_of_nat (length (concat (map vb_bytes (vb # vbs)))) \<noteq> (0 :: u32)"
    using Cons.prems(2) unat_word_of_nat [of "length (concat (map vb_bytes (vb # vbs)))"]
    by (auto simp: vb_bytes_def [of vb])
  have rest: "word_of_nat (length (concat (map vb_bytes (vb # vbs))))
      - (1 + word_of_nat (off + length ?h - Suc off) + vb_len vb) = (word_of_nat (length ?rest) :: u32)"
    using honest by (simp add: vb_bytes_def [of vb] vb_honest_def)
  have "length ?rest < 2 ^ 32"
    using Cons.prems(2) by simp
  note IH = Cons.IH [OF _ this r2]
  show ?case
    unfolding vb_loop.simps [of buf off] rest
    using ne IH Cons.prems(1) seq_field_enc [OF r] var_bind_alloc_enc [OF r1 honest] len rest
    by (simp add: vb_bytes_def [of vb] add.assoc)
qed

subsection \<open>Sizes\<close>

abbreviation wlen :: "bytes \<Rightarrow> u32" where
  "wlen bs \<equiv> word_of_nat (length bs)"

lemma head_size: "tlv_size len = 1 + (wlen (ber_length_enc len) + len)"
  by (simp add: tlv_size_def ber_length_enc_size add.assoc)

lemma int_enc_ok:
  assumes "int_len len v"
  obtains b where "int_enc len v = Some b" "tlv_size len = wlen b" "length b \<le> 11"
  using that [OF int_enc_bytes] assms ber_length_enc_bound [of len] ber_int_enc_bound [of v]
  by (simp add: head_size int_len_def)

lemma str_enc_ok:
  assumes "c_string mem len n"
  obtains b where "str_enc len mem = Some b" "tlv_size len = wlen b" "length b \<le> 6 + n"
proof -
  obtain b where b: "str_enc len mem = Some b" "length b \<le> 6 + n"
    using c_string_enc [OF assms] by blast
  then have "tlv_size len = wlen b"
    using assms by (auto simp: str_enc_bytes head_size c_string_def min_absorb2)
  with b show ?thesis
    using that by blast
qed

lemma engine_enc_ok:
  obtains b where "str_enc 14 snmpv3_engine_id = Some b" "tlv_size 14 = wlen b" "length b \<le> 20"
proof -
  have "str_enc 14 snmpv3_engine_id = Some (head_enc ASN1_TAG_OCTSTR 14 @ snmpv3_engine_id)"
    by (simp add: str_enc_bytes)
  then show ?thesis
    using that ber_length_enc_bound [of 14] by (simp add: head_size)
qed

lemma global_data_encode_ok:
  assumes "global_honest g" "msg_len g = global_data_encode_try g"
  obtains b where "global_data_encode g = Some (g\<lparr>msg_flags := 0\<rparr>, b)" "tlv_size (msg_len g) = wlen b" "length b \<le> 50"
proof -
  obtain b1 b2 b4 where bs: "int_enc (msg_id_len g) (msg_id g) = Some b1" "tlv_size (msg_id_len g) = wlen b1" "length b1 \<le> 11"
      "int_enc (msg_size_len g) (msg_max_size g) = Some b2" "tlv_size (msg_size_len g) = wlen b2" "length b2 \<le> 11"
      "int_enc (msg_model_len g) (msg_security_model g) = Some b4" "tlv_size (msg_model_len g) = wlen b4" "length b4 \<le> 11"
    using assms(1) int_enc_ok unfolding global_honest_def by metis
  obtain b3 where b3: "str_enc 1 [0] = Some b3" "tlv_size 1 = wlen b3" "length b3 \<le> 7"
    using ber_length_enc_bound [of 1] by (auto simp: str_enc_bytes head_size)
  let ?b = "head_enc ASN1_TAG_SEQ (msg_len g) @ b1 @ b2 @ b3 @ b4"
  have "tlv_size (msg_len g) = wlen ?b"
    unfolding head_size [of "msg_len g"] using assms bs b3
    by (simp add: global_data_encode_try_def global_honest_def add.assoc)
  moreover have "global_data_encode g = Some (g\<lparr>msg_flags := 0\<rparr>, ?b)"
    using assms(1) bs b3 by (simp add: global_data_encode_def global_honest_def)
  moreover have "length ?b \<le> 50"
    using bs b3 ber_length_enc_bound [of "msg_len g"] by simp
  ultimately show ?thesis
    using that by blast
qed

lemma security_parameter_encode_ok:
  assumes "security_honest s" "engine_id_len s = 14" "secur_para_len s = snd (security_parameter_encode_try s)"
  obtains b where "security_parameter_encode s = Some b" "tlv_size (secur_para_len s) = wlen b" "length b \<le> 200"
proof -
  obtain b1 where b1: "str_enc 14 snmpv3_engine_id = Some b1" "tlv_size 14 = wlen b1" "length b1 \<le> 20"
    by (rule engine_enc_ok)
  obtain b2 b3 where ints:
      "int_enc (engine_boots_len s) (engine_boots s) = Some b2" "tlv_size (engine_boots_len s) = wlen b2" "length b2 \<le> 11"
      "int_enc (engine_time_len s) (engine_time s) = Some b3" "tlv_size (engine_time_len s) = wlen b3" "length b3 \<le> 11"
    using assms(1) int_enc_ok unfolding security_honest_def by metis
  obtain b4 b5 b6 where strs:
      "str_enc (user_name_len s) (user_name s) = Some b4" "tlv_size (user_name_len s) = wlen b4" "length b4 \<le> 6 + 41"
      "str_enc (auth_para_len s) (auth_para s) = Some b5" "tlv_size (auth_para_len s) = wlen b5" "length b5 \<le> 6 + 41"
      "str_enc (priv_para_len s) (priv_para s) = Some b6" "tlv_size (priv_para_len s) = wlen b6" "length b6 \<le> 6 + 41"
    using assms(1) str_enc_ok unfolding security_honest_def by metis
  let ?b = "head_enc ASN1_TAG_SEQ (secur_para_len s) @ b1 @ b2 @ b3 @ b4 @ b5 @ b6"
  have "tlv_size (secur_para_len s) = wlen ?b"
    unfolding head_size [of "secur_para_len s"] using assms(2,3) b1 ints strs
    by (simp add: security_parameter_encode_try_def add.assoc)
  moreover have "security_parameter_encode s = Some ?b"
    using assms(2) b1 ints strs by (simp add: security_parameter_encode_def)
  moreover have "length ?b \<le> 200"
    using b1 ints strs ber_length_enc_bound [of "secur_para_len s"] by simp
  ultimately show ?thesis
    using that by blast
qed

lemma pdu_hdr_encode_ok:
  assumes "hdr_honest ph"
  obtains b where "pdu_hdr_encode ph = Some b" "length b \<le> 40"
    "wlen b = 1 + ber_length_enc_try (pdu_len ph) + tlv_size (req_id_len ph) + tlv_size (err_stat_len ph)
       + tlv_size (err_idx_len ph)"
proof -
  obtain b1 b2 b3 where bs: "int_enc (req_id_len ph) (req_id ph) = Some b1" "tlv_size (req_id_len ph) = wlen b1" "length b1 \<le> 11"
      "int_enc (err_stat_len ph) (err_stat ph) = Some b2" "tlv_size (err_stat_len ph) = wlen b2" "length b2 \<le> 11"
      "int_enc (err_idx_len ph) (err_idx ph) = Some b3" "tlv_size (err_idx_len ph) = wlen b3" "length b3 \<le> 11"
    using assms int_enc_ok unfolding hdr_honest_def by metis
  show ?thesis
    using that [of "head_enc (pdu_type ph) (pdu_len ph) @ b1 @ b2 @ b3"] bs ber_length_enc_bound [of "pdu_len ph"]
    by (simp add: pdu_hdr_encode_def ber_length_enc_size)
qed

lemma v3_encode_ok:
  assumes "global_honest (global sdg)" "security_honest (security sdg)" "sint (version sdg) \<ge> 3"
  defines "sdg1 \<equiv> asn1_sizes sdg"
  obtains b where "v3_encode sdg1 = Some (sdg1\<lparr>global := (global sdg1)\<lparr>msg_flags := 0\<rparr>\<rparr>, b)" "length b \<le> 300"
    "wlen b = tlv_size (msg_len (global sdg1)) + tlv_size (secur_str_len (security sdg1))
       + (1 + ber_length_enc_try (scope_len sdg1)) + tlv_size 14"
proof -
  have s: "security_honest (security sdg1)" "engine_id_len (security sdg1) = 14"
      "secur_para_len (security sdg1) = snd (security_parameter_encode_try (security sdg1))"
      "secur_str_len (security sdg1) = tlv_size (secur_para_len (security sdg1))"
    using assms by (simp_all add: asn1_sizes_def Let_def security_parameter_encode_try_def security_honest_def)
  have g: "global_honest (global sdg1)" "msg_len (global sdg1) = global_data_encode_try (global sdg1)"
    using assms by (simp_all add: asn1_sizes_def Let_def global_honest_def security_parameter_encode_try_def
        global_data_encode_try_def)
  obtain b1 where b1: "global_data_encode (global sdg1) = Some ((global sdg1)\<lparr>msg_flags := 0\<rparr>, b1)"
      "tlv_size (msg_len (global sdg1)) = wlen b1" "length b1 \<le> 50"
    using global_data_encode_ok [OF g] .
  obtain b2 where b2: "security_parameter_encode (security sdg1) = Some b2"
      "tlv_size (secur_para_len (security sdg1)) = wlen b2" "length b2 \<le> 200"
    using security_parameter_encode_ok [OF s(1-3)] .
  obtain b3 where b3: "str_enc 14 snmpv3_engine_id = Some b3" "tlv_size 14 = wlen b3" "length b3 \<le> 20"
    by (rule engine_enc_ok)
  let ?h1 = "head_enc ASN1_TAG_OCTSTR (secur_str_len (security sdg1))" and ?h2 = "head_enc ASN1_TAG_SEQ (scope_len sdg1)"
  have "tlv_size (secur_str_len (security sdg1)) = wlen (?h1 @ b2)"
    unfolding head_size [of "secur_str_len (security sdg1)"] using b2 s(4) by simp
  then show ?thesis
    using that [of "b1 @ ?h1 @ b2 @ ?h2 @ b3"] b1 b2 b3 ber_length_enc_bound [of "secur_str_len (security sdg1)"]
      ber_length_enc_bound [of "scope_len sdg1"]
    by (simp add: v3_encode_def ber_length_enc_size)
qed

subsection \<open>The whole message\<close>

text \<open>A datagram whose length fields agree with its values.\<close>

definition response_honest :: "snmp_datagram \<Rightarrow> bool" where
  "response_honest sdg \<longleftrightarrow> int_len (ver_len sdg) (version sdg) \<and> hdr_honest (hdr sdg)
     \<and> c_string (context_name sdg) (context_name_len sdg) 41
     \<and> (sint (version sdg) \<ge> 3 \<longrightarrow> global_honest (global sdg) \<and> security_honest (security sdg))
     \<and> (\<forall>vb \<in> set (vb_out_list sdg). vb_honest vb)
     \<and> length (concat (map vb_bytes (vb_out_list sdg))) < 2 ^ 31
     \<and> vb_list_len sdg = wlen (concat (map vb_bytes (vb_out_list sdg)))"

lemma asn1_sizes_same [simp]:
  "version (asn1_sizes sdg) = version sdg" "ver_len (asn1_sizes sdg) = ver_len sdg"
  "context_name (asn1_sizes sdg) = context_name sdg" "context_name_len (asn1_sizes sdg) = context_name_len sdg"
  "vb_list_len (asn1_sizes sdg) = vb_list_len sdg" "vb_out_list (asn1_sizes sdg) = vb_out_list sdg"
  "req_id_len (hdr (asn1_sizes sdg)) = req_id_len (hdr sdg)" "req_id (hdr (asn1_sizes sdg)) = req_id (hdr sdg)"
  "err_stat_len (hdr (asn1_sizes sdg)) = err_stat_len (hdr sdg)" "err_stat (hdr (asn1_sizes sdg)) = err_stat (hdr sdg)"
  "err_idx_len (hdr (asn1_sizes sdg)) = err_idx_len (hdr sdg)" "err_idx (hdr (asn1_sizes sdg)) = err_idx (hdr sdg)"
  "pdu_type (hdr (asn1_sizes sdg)) = pdu_type (hdr sdg)"
  by (simp_all add: asn1_sizes_def Let_def split: prod.splits)

text \<open>The bytes of the SNMPv3 part, if there is one, and what they are decoded to.\<close>

definition v3_part :: "snmp_datagram \<Rightarrow> snmp_datagram \<Rightarrow> bytes \<Rightarrow> bool" where
  "v3_part sdg1 sdg2 b \<longleftrightarrow>
     (if sint (version sdg1) \<ge> 3
      then v3_encode sdg1 = Some (sdg2, b) \<and> sdg2 = sdg1\<lparr>global := (global sdg1)\<lparr>msg_flags := 0\<rparr>\<rparr>
        \<and> global_honest (global sdg1) \<and> security_honest (security sdg1) \<and> engine_id_len (security sdg1) = 14
      else sdg2 = sdg1 \<and> b = [])"

lemma asn1_encode_ok:
  assumes "response_honest sdg"
  obtains sdg2 b1 b2 b3 b4 where
    "int_enc (ver_len sdg) (version sdg) = Some b1" "v3_part (asn1_sizes sdg) sdg2 b2"
    "str_enc (context_name_len sdg) (context_name sdg) = Some b3"
    "pdu_hdr_encode (hdr (asn1_sizes sdg)) = Some b4" "length (b1 @ b2 @ b3 @ b4) \<le> 500"
    "data_len (asn1_sizes sdg) = wlen (b1 @ b2 @ b3 @ b4 @ head_enc ASN1_TAG_SEQ (vb_list_len sdg)) + vb_list_len sdg"
proof -
  let ?s = "asn1_sizes sdg"
  obtain b1 where b1: "int_enc (ver_len sdg) (version sdg) = Some b1" "tlv_size (ver_len sdg) = wlen b1" "length b1 \<le> 11"
    using assms int_enc_ok unfolding response_honest_def by metis
  obtain b3 where b3: "str_enc (context_name_len sdg) (context_name sdg) = Some b3"
      "tlv_size (context_name_len sdg) = wlen b3" "length b3 \<le> 6 + 41"
    using assms str_enc_ok unfolding response_honest_def by metis
  have h: "hdr_honest (hdr ?s)"
    using assms by (simp add: response_honest_def hdr_honest_def)
  obtain b4 where b4: "pdu_hdr_encode (hdr ?s) = Some b4" "length b4 \<le> 40"
      "wlen b4 = 1 + ber_length_enc_try (pdu_len (hdr ?s)) + tlv_size (req_id_len (hdr ?s))
        + tlv_size (err_stat_len (hdr ?s)) + tlv_size (err_idx_len (hdr ?s))"
    using pdu_hdr_encode_ok [OF h] .
  have plen: "tlv_size (pdu_len (hdr ?s)) = wlen b4 + tlv_size (vb_list_len sdg)"
    unfolding b4(3) by (simp add: tlv_size_def [of "pdu_len (hdr ?s)"]) (simp add: asn1_sizes_def Let_def split: prod.splits)
  show ?thesis
  proof (cases "sint (version sdg) \<ge> 3")
    case True
    then obtain b2 where b2: "v3_encode ?s = Some (?s\<lparr>global := (global ?s)\<lparr>msg_flags := 0\<rparr>\<rparr>, b2)" "length b2 \<le> 300"
        "wlen b2 = tlv_size (msg_len (global ?s)) + tlv_size (secur_str_len (security ?s))
           + (1 + ber_length_enc_try (scope_len ?s)) + tlv_size 14"
      using v3_encode_ok assms unfolding response_honest_def by metis
    have "data_len ?s = wlen b2 + tlv_size (pdu_len (hdr ?s)) + tlv_size (context_name_len sdg) + tlv_size (ver_len sdg)"
      unfolding b2(3) using True by (simp add: asn1_sizes_def Let_def security_parameter_encode_try_def)
    moreover have "v3_part ?s (?s\<lparr>global := (global ?s)\<lparr>msg_flags := 0\<rparr>\<rparr>) b2"
      using True b2(1) assms by (simp add: v3_part_def response_honest_def) (simp add: asn1_sizes_def Let_def
          security_parameter_encode_try_def security_honest_def global_honest_def)
    ultimately show ?thesis
      using that [OF b1(1) _ b3(1) b4(1)] b1 b2(2) b3 b4(2) plen by (simp add: tlv_size_def [of "vb_list_len sdg"] ber_length_enc_size)
  next
    case False
    then have "data_len ?s = tlv_size (pdu_len (hdr ?s)) + tlv_size (context_name_len sdg) + tlv_size (ver_len sdg)"
      by (simp add: asn1_sizes_def Let_def)
    moreover have "v3_part ?s ?s []"
      using False by (simp add: v3_part_def)
    ultimately show ?thesis
      using that [OF b1(1) _ b3(1) b4(1)] b1 b3 b4(2) plen by (simp add: tlv_size_def [of "vb_list_len sdg"] ber_length_enc_size)
  qed
qed

lemma snmp_response_bytes:
  assumes "response_honest sdg"
  obtains sdg2 b1 b2 b3 b4 bs where
    "int_enc (ver_len sdg) (version sdg) = Some b1" "v3_part (asn1_sizes sdg) sdg2 b2"
    "str_enc (context_name_len sdg) (context_name sdg) = Some b3"
    "pdu_hdr_encode (hdr (asn1_sizes sdg)) = Some b4"
    "snmp_response sdg = Some (sdg2, bs, tlv_size (data_len sdg2))" "unat (tlv_size (data_len sdg2)) = length bs"
    "bs = head_enc ASN1_TAG_SEQ (data_len sdg2) @ b1 @ b2 @ b3 @ b4 @ head_enc ASN1_TAG_SEQ (vb_list_len sdg) @
      concat (map vb_bytes (vb_out_list sdg))"
proof -
  let ?s = "asn1_sizes sdg" and ?vbs = "concat (map vb_bytes (vb_out_list sdg))"
  obtain sdg2 b1 b2 b3 b4 where e:
      "int_enc (ver_len sdg) (version sdg) = Some b1" "v3_part ?s sdg2 b2"
      "str_enc (context_name_len sdg) (context_name sdg) = Some b3"
      "pdu_hdr_encode (hdr ?s) = Some b4" "length (b1 @ b2 @ b3 @ b4) \<le> 500"
      "data_len ?s = wlen (b1 @ b2 @ b3 @ b4 @ head_enc ASN1_TAG_SEQ (vb_list_len sdg)) + vb_list_len sdg"
    using asn1_encode_ok [OF assms] .
  have vbs: "\<forall>vb \<in> set (vb_out_list sdg). vb_honest vb" "length ?vbs < 2 ^ 31" "vb_list_len sdg = wlen ?vbs"
    using assms by (simp_all add: response_honest_def)
  have same: "context_name_len sdg2 = context_name_len sdg" "context_name sdg2 = context_name sdg"
      "hdr sdg2 = hdr ?s" "vb_list_len sdg2 = vb_list_len sdg" "vb_out_list sdg2 = vb_out_list sdg" "data_len sdg2 = data_len ?s"
    using e(2) by (auto simp: v3_part_def split: if_splits)
  let ?bs = "head_enc ASN1_TAG_SEQ (data_len sdg2) @ b1 @ b2 @ b3 @ b4 @ head_enc ASN1_TAG_SEQ (vb_list_len sdg) @ ?vbs"
  have enc: "asn1_encode sdg = Some (sdg2, tlv_size (data_len ?s), head_enc ASN1_TAG_SEQ (data_len ?s) @ b1 @ b2 @ b3 @ b4 @
      head_enc ASN1_TAG_SEQ (vb_list_len sdg))"
    using e(1-4) same by (auto simp: asn1_encode_def Let_def v3_part_def split: if_splits)
  have "tlv_size (data_len sdg2) = wlen ?bs"
    unfolding head_size using e(6) vbs(3) same(6) by simp
  moreover have "length ?bs < 2 ^ 32"
    using e(5) vbs(2) ber_length_enc_bound [of "data_len sdg2"] ber_length_enc_bound [of "vb_list_len sdg"] by simp
  ultimately have len: "unat (tlv_size (data_len sdg2)) = length ?bs"
    by (simp only: unat_word_of_nat)
  moreover have "snmp_response sdg = Some (sdg2, ?bs, tlv_size (data_len sdg2))"
    using enc var_binds_encode_bytes [OF vbs(1)] len same by (simp add: snmp_response_def)
  ultimately show ?thesis
    using that [OF e(1-4)] by blast
qed

lemma v3_part_decode:
  assumes "v3_part sdg1 sdg2 b" "remains buf off (b @ ys)" "v3_clear sdg0" "version sdg0 = version sdg1"
  obtains sdg3 where
    "(if sint (version sdg1) \<ge> 3 then v3_decode buf off sdg0 else ok (sdg0, off)) = ok (sdg3, off + length b)"
    "context_name sdg3 = context_name sdg0" "version sdg3 = version sdg1"
    "sint (version sdg1) \<ge> 3 \<Longrightarrow> global sdg3 = global sdg2"
    "sint (version sdg1) \<ge> 3 \<Longrightarrow> security sdg3 = (security sdg2)\<lparr>engine_id := engine_id_33\<rparr>"
proof (cases "sint (version sdg1) \<ge> 3")
  case True
  then have h: "v3_encode sdg1 = Some (sdg2, b)" "global_honest (global sdg1)" "security_honest (security sdg1)"
      "engine_id_len (security sdg1) = 14" "sdg2 = sdg1\<lparr>global := (global sdg1)\<lparr>msg_flags := 0\<rparr>\<rparr>"
    using assms(1) by (simp_all add: v3_part_def)
  show ?thesis
    using True v3_decode_enc(1) [OF assms(2) h(1-4) assms(3)] h(5) assms(4) that by simp
next
  case False
  then show ?thesis
    using assms that [of sdg0] by (simp add: v3_part_def)
qed

lemma var_bind_parse_enc:
  assumes "remains buf off (head_enc ASN1_TAG_SEQ (wlen bs) @ bs)" "bs = concat (map vb_bytes vbs)"
    and "\<forall>vb \<in> set vbs. vb_honest vb" "length bs < 2 ^ 31"
  shows "\<exists>off'. var_bind_parse buf off = ok (map (\<lambda>vb. vb\<lparr>vb_len := 0\<rparr>) vbs, off')"
  using vb_loop_enc [OF assms(3), of buf _ "[]" "[]"] remains_app [OF assms(1)] seq_field_enc [OF assms(1)] assms(2,4)
  by (simp add: var_bind_parse_def)

lemma snmp_decode_chain:
  assumes "ber_length_dec buf 1 = Some (n, dl)" "int_field buf (1 + n) SNMP_ERR_VERSION (version sdg) = ok (vl, v, off1)"
    and "(if sint v \<ge> 3 then v3_decode buf off1 (sdg\<lparr>data_len := dl, ver_len := vl, version := v\<rparr>)
       else ok (sdg\<lparr>data_len := dl, ver_len := vl, version := v\<rparr>, off1)) = ok (sdg3, off2)"
    and "str_field buf off2 SNMP_ERR_CONTEXT_NAME SNMP_ERR_CONTEXT_NAME_LEN 41 (context_name sdg3) = ok (cnl, cn, off3)"
    and "pdu_hdr_parse buf off3 (hdr sdg3) = ok (ph, off4)" "var_bind_parse buf off4 = ok (vbs, off5)"
  shows "snmp_decode_msg buf sdg = ok (sdg3\<lparr>context_name_len := cnl, context_name := cn, hdr := ph, vb_list_len := 0,
    vb_in_cnt := word_of_nat (length vbs), vb_in_list := vbs\<rparr>)"
  unfolding snmp_decode_msg_def assms(1) lift_def Let_def
  by (simp only: option.map dbind.simps prod.case assms(2-))

lemma snmp_response_decodes:
  assumes e: "int_enc (ver_len sdg) (version sdg) = Some b1" "v3_part (asn1_sizes sdg) sdg2 b2"
      "str_enc (context_name_len sdg) (context_name sdg) = Some b3" "pdu_hdr_encode (hdr (asn1_sizes sdg)) = Some b4"
      "bs = head_enc ASN1_TAG_SEQ (data_len sdg2) @ b1 @ b2 @ b3 @ b4 @ head_enc ASN1_TAG_SEQ (vb_list_len sdg) @
        concat (map vb_bytes (vb_out_list sdg))"
    and "response_honest sdg"
  shows "\<exists>sdg''. snmp_decode_msg bs snmp_datagram_clear = ok sdg'' \<and> vb_in_list sdg'' = map (\<lambda>vb. vb\<lparr>vb_len := 0\<rparr>) (vb_out_list sdg)
      \<and> hdr sdg'' = hdr (asn1_sizes sdg) \<and> context_name sdg'' = context_name sdg \<and> version sdg'' = version sdg
      \<and> (sint (version sdg) \<ge> 3 \<longrightarrow> global sdg'' = global sdg2 \<and> security sdg'' = (security sdg2)\<lparr>engine_id := engine_id_33\<rparr>)"
proof -
  let ?vbs = "concat (map vb_bytes (vb_out_list sdg))"
  let ?off = "1 + length (ber_length_enc (data_len sdg2)) + length b1"
  have hon: "int_len (ver_len sdg) (version sdg)" "hdr_honest (hdr (asn1_sizes sdg))" "c_string (context_name sdg) (context_name_len sdg) 41"
      "\<forall>vb \<in> set (vb_out_list sdg). vb_honest vb" "length ?vbs < 2 ^ 31" "vb_list_len sdg = wlen ?vbs"
    using assms(6) by (simp_all add: response_honest_def hdr_honest_def)
  have "remains bs 0 (head_enc ASN1_TAG_SEQ (data_len sdg2) @ b1 @ b2 @ b3 @ b4 @ head_enc ASN1_TAG_SEQ (vb_list_len sdg) @ ?vbs)"
    unfolding e(5) by (simp add: remains_def)
  note r0 = remains_head [OF this, folded One_nat_def]
  note r1 = remains_app [OF r0(4)]
  note r2 = remains_app [OF r1]
  note r3 = remains_app [OF r2]
  note r4 = remains_app [OF r3]
  define sdg0 where "sdg0 = snmp_datagram_clear\<lparr>data_len := data_len sdg2, ver_len := ver_len sdg, version := version sdg\<rparr>"
  have "v3_clear sdg0" "version sdg0 = version (asn1_sizes sdg)"
    by (simp_all add: sdg0_def v3_clear_def snmp_datagram_clear_def)
  from v3_part_decode [OF e(2) r1 this, unfolded asn1_sizes_same] obtain sdg3 where v3:
      "(if sint (version sdg) \<ge> 3 then v3_decode bs ?off sdg0 else ok (sdg0, ?off)) = ok (sdg3, ?off + length b2)"
      "context_name sdg3 = context_name sdg0" "version sdg3 = version sdg"
      "sint (version sdg) \<ge> 3 \<Longrightarrow> global sdg3 = global sdg2"
      "sint (version sdg) \<ge> 3 \<Longrightarrow> security sdg3 = (security sdg2)\<lparr>engine_id := engine_id_33\<rparr>"
    by metis
  have ctx: "str_field bs (?off + length b2) e e' 41 (context_name sdg3)
      = ok (context_name_len sdg, context_name sdg, ?off + length b2 + length b3)" for e e'
    using str_field_c_string_enc [OF r2 e(3) hon(3), of 41] v3(2) by (simp add: sdg0_def snmp_datagram_clear_def)
  obtain off5 where vb: "var_bind_parse bs (?off + length b2 + length b3 + length b4)
      = ok (map (\<lambda>vb. vb\<lparr>vb_len := 0\<rparr>) (vb_out_list sdg), off5)"
    using var_bind_parse_enc [OF _ refl hon(4,5)] r4 hon(6) by metis
  show ?thesis
    using snmp_decode_chain [OF r0(3) int_field_enc [OF r0(4) e(1) hon(1)] v3(1) [unfolded sdg0_def] ctx
        pdu_hdr_parse_enc [OF r3 e(4) hon(2)] vb] v3(3-5) by simp
qed

lemma response_roundtrip:
  assumes "response_honest sdg"
  shows "\<exists>sdg' bs total sdg''. snmp_response sdg = Some (sdg', bs, total) \<and> length bs = unat total
    \<and> snmp_decode_msg bs snmp_datagram_clear = ok sdg''
    \<and> version sdg'' = version sdg \<and> context_name sdg'' = context_name sdg
    \<and> hdr sdg'' = (hdr sdg)\<lparr>pdu_len := pdu_len (hdr sdg')\<rparr>
    \<and> vb_in_list sdg'' = map (\<lambda>vb. vb\<lparr>vb_len := 0\<rparr>) (vb_out_list sdg)
    \<and> (sint (version sdg) \<ge> 3 \<longrightarrow> global sdg'' = global sdg'
        \<and> security sdg'' = (security sdg')\<lparr>engine_id := engine_id_33\<rparr>)"
proof -
  obtain sdg2 b1 b2 b3 b4 bs where e:
      "int_enc (ver_len sdg) (version sdg) = Some b1" "v3_part (asn1_sizes sdg) sdg2 b2"
      "str_enc (context_name_len sdg) (context_name sdg) = Some b3" "pdu_hdr_encode (hdr (asn1_sizes sdg)) = Some b4"
      "snmp_response sdg = Some (sdg2, bs, tlv_size (data_len sdg2))" "unat (tlv_size (data_len sdg2)) = length bs"
      "bs = head_enc ASN1_TAG_SEQ (data_len sdg2) @ b1 @ b2 @ b3 @ b4 @ head_enc ASN1_TAG_SEQ (vb_list_len sdg) @
        concat (map vb_bytes (vb_out_list sdg))"
    using snmp_response_bytes [OF assms] .
  have "hdr (asn1_sizes sdg) = (hdr sdg)\<lparr>pdu_len := pdu_len (hdr sdg2)\<rparr>"
    using e(2) by (auto simp: v3_part_def split: if_splits)
  with snmp_response_decodes [OF e(1-4) e(7) assms] show ?thesis
    using e(5,6) by auto
qed

text \<open>C16: A response whose length fields agree with its values is written completely and exactly: the
  bytes fill the buffer that is allocated and sent, and decoding them gives back the version, the
  community or security parameters, the PDU header and all variable bindings.\<close>

theorem snmp_response_roundtrip:
  assumes "response_honest sdg"
  shows "\<exists>sdg' bs total sdg''. snmp_response sdg = Some (sdg', bs, total) \<and> length bs = unat total
    \<and> snmp_decode_msg bs snmp_datagram_clear = ok sdg''
    \<and> version sdg'' = version sdg \<and> context_name sdg'' = context_name sdg
    \<and> hdr sdg'' = (hdr sdg)\<lparr>pdu_len := pdu_len (hdr sdg')\<rparr>
    \<and> vb_in_list sdg'' = map (\<lambda>vb. vb\<lparr>vb_len := 0\<rparr>) (vb_out_list sdg)
    \<and> (sint (version sdg) \<ge> 3 \<longrightarrow> global sdg'' = global sdg'
        \<and> security sdg'' = (security sdg')\<lparr>engine_id := engine_id_33\<rparr>)"
  using response_roundtrip [OF assms] .

text \<open>A response of SNMPv2c with community \<open>p\<close> and one integer.\<close>

definition resp_vb :: var_bind where
  "resp_vb = \<lparr>vb_oid = [1, 3, 6, 1], vb_len = 8, value_len = 1, value_type = ASN1_TAG_INT, vb_value = [42]\<rparr>"

definition resp_example :: snmp_datagram where
  "resp_example = snmp_datagram_clear\<lparr>version := 1, ver_len := 1, context_name := 0x70 # replicate 40 0,
     context_name_len := 1,
     hdr := \<lparr>pdu_type = 0xa2, pdu_len = 0, req_id_len = 1, req_id = 7, err_stat_len = 1, err_stat = 0,
       err_idx_len = 1, err_idx = 0\<rparr>,
     vb_list_len := 10, vb_out_list := [resp_vb]\<rparr>"

lemma resp_example_honest: "response_honest resp_example"
proof -
  have i: "ber_int_enc 1 = [1]" "ber_int_enc 7 = [7]" "ber_int_enc 0 = [0]"
    by code_simp+
  have l: "ber_length_enc 3 = [3]" "ber_length_enc 1 = [1]" "ber_length_enc 8 = [8]" "ber_oid_enc [1, 3, 6, 1] = [43, 6, 1]"
    by code_simp+
  have c: "c_string (0x70 # replicate 40 0) 1 41"
    by (auto simp: c_string_def nth_Cons')
  have v: "length (vb_contents resp_vb) = 8" "length (vb_bytes resp_vb) = 10"
    using l by (simp_all add: vb_contents_def vb_bytes_def resp_vb_def head_enc_def)
  then have "vb_honest resp_vb"
    using l by (simp add: vb_honest_def resp_vb_def oid_ok_def vb_fits_def MIB_OID_MAX_LEN_def MIB_VALUE_MAX_LEN_def)
  then show ?thesis
    using c i v by (simp add: response_honest_def resp_example_def hdr_honest_def int_len_def)
qed

theorem snmp_response_roundtrip_witness:
  "\<exists>sdg' bs total sdg''. snmp_response resp_example = Some (sdg', bs, total) \<and> length bs = unat total
    \<and> snmp_decode_msg bs snmp_datagram_clear = ok sdg'' \<and> vb_in_list sdg'' = [resp_vb\<lparr>vb_len := 0\<rparr>]"
  using snmp_response_roundtrip [OF resp_example_honest] by (auto simp: resp_example_def)

end
