(* ===== verification/Oid.thy ===== *)
theory Oid
  imports Ber_Encoder "HOL-Library.List_Lexorder"
begin

text \<open>
  Object identifiers: copying, comparison, covering and the binary search over the sub-identifiers of
  a group node (\<open>core/mib_tree.c\<close>, \<open>oid_dup\<close>, \<open>oid_cmp\<close>, \<open>oid_cover\<close>,
  \<open>oid_binary_search\<close>). An identifier is passed in C as a pointer and a length; here it is the
  list of its sub-identifiers. The lemmas relate the comparison to the lexicographic order
  (\<open>List_Lexorder\<close>), covering to the prefix order, and the search to the position of a
  key in a strictly sorted array.
\<close>

section \<open>Definitions\<close>

text \<open>\<open>oid_dup\<close> copies into a buffer of \<open>MIB_VALUE_MAX_LEN\<close> cells; a longer identifier is written past its end.\<close>

definition oid_dup :: "oid \<Rightarrow> oid option" where
  "oid_dup oid = (if length oid \<le> MIB_VALUE_MAX_LEN then Some oid else None)"

text \<open>\<open>oid_cmp\<close>: sub-identifiers are subtracted as unsigned numbers and the difference is
  cast to \<open>int\<close>; identifiers that agree on the shorter one are compared by length.\<close>

fun oid_cmp :: "oid \<Rightarrow> oid \<Rightarrow> int" where
  "oid_cmp (s # src) (t # target) =
     (let ret = sint (s - t) in if ret = 0 then oid_cmp src target else ret)"
| "oid_cmp src target = sint (word_of_nat (length src) - word_of_nat (length target) :: u32)"

definition oid_cover :: "oid \<Rightarrow> oid \<Rightarrow> int" where
  "oid_cover oid1 oid2 =
     (let len1 = length oid1; len2 = length oid2 in
      if len1 \<le> len2 \<and> oid_cmp oid1 (take len1 oid2) = 0 then 1
      else if len2 \<le> len1 \<and> oid_cmp (take len2 oid1) oid2 = 0 then - 1
      else 0)"

text \<open>The loop of \<open>oid_binary_search\<close> returns the last position \<open>low\<close> whose element is not
  greater than the key, \<open>-1\<close> if there is none.\<close>

function obs_loop :: "oid_t list \<Rightarrow> oid_t \<Rightarrow> int \<Rightarrow> int \<Rightarrow> int option" where
  "obs_loop arr oid low high =
     (if low + 1 < high then
        let mid = low + (high - low) div 2 in
        do { x \<leftarrow> rd arr (nat mid);
             if x > oid then obs_loop arr oid low mid else obs_loop arr oid mid high }
      else Some low)"
  by pat_completeness auto
termination
  by (relation "measure (\<lambda>(arr, oid, low, high). nat (high - low))") auto

definition oid_binary_search :: "oid_t list \<Rightarrow> nat \<Rightarrow> oid_t \<Rightarrow> int option" where
  "oid_binary_search arr n oid =
     do { low \<leftarrow> obs_loop arr oid (- 1) (int n);
          if low < 0 then Some (- low - 2)
          else do { x \<leftarrow> rd arr (nat low);
                    if x \<noteq> oid then Some (- low - 2) else Some low } }"

declare obs_loop.simps [simp del]

section \<open>Comparison\<close>

lemma sint_diff_0: "sint (a - b :: u32) = 0 \<longleftrightarrow> a = b"
  by (simp add: signed_eq_0_iff)

lemma oid_cmp_eq_len: "length s = length t \<Longrightarrow> oid_cmp s t = 0 \<longleftrightarrow> s = t"
  by (induction s t rule: oid_cmp.induct) (auto simp: Let_def sint_diff_0)

lemma sint_word_of_int_small:
  "- (2 ^ 31) \<le> k \<Longrightarrow> k < 2 ^ 31 \<Longrightarrow> sint (word_of_int k :: u32) = k"
  by (simp add: signed_of_int signed_take_bit_int_eq_self)

text \<open>A sub-identifier or length below \<open>2 ^ 31\<close> is one whose differences fit an \<open>int\<close>.\<close>

definition small :: "u32 \<Rightarrow> bool" where
  "small x \<longleftrightarrow> uint x < 2 ^ 31"

lemma sint_diff_small:
  assumes "small a" "small b"
  shows "sint (a - b) = uint a - uint b"
proof -
  have "sint (word_of_int (uint a - uint b) :: u32) = uint a - uint b"
  proof (rule sint_word_of_int_small)
    have "0 \<le> uint a" "0 \<le> uint b"
      by simp_all
    with assms show "- (2 ^ 31) \<le> uint a - uint b" "uint a - uint b < 2 ^ 31"
      unfolding small_def by linarith+
  qed
  then show ?thesis
    by simp
qed

lemma sint_length_diff:
  "m < 2 ^ 31 \<Longrightarrow> n < 2 ^ 31 \<Longrightarrow> sint (word_of_nat m - word_of_nat n :: u32) = int m - int n"
  using sint_word_of_int_small [of "int m - int n"] by simp

lemmas sint_length_diffs =
  sint_length_diff [where m = 0, simplified] sint_length_diff [where n = 0, simplified]
  sint_length_diff [simplified]

text \<open>On small identifiers the sign of \<open>oid_cmp\<close> is the lexicographic order.\<close>

definition small_oid :: "oid \<Rightarrow> bool" where
  "small_oid s \<longleftrightarrow> length s < 2 ^ 31 \<and> list_all small s"

lemma small_oid_Cons: "small_oid (a # s) \<Longrightarrow> small a \<and> small_oid s"
  by (simp add: small_oid_def)

lemma Nil_less_iff: "[] < (t :: oid) \<longleftrightarrow> t \<noteq> []"
  by (cases t) simp_all

lemma oid_cmp_less: "small_oid s \<Longrightarrow> small_oid t \<Longrightarrow> oid_cmp s t < 0 \<longleftrightarrow> s < t"
proof (induction s t rule: oid_cmp.induct)
  case (1 a s b t)
  note sm = small_oid_Cons [OF "1.prems"(1)] small_oid_Cons [OF "1.prems"(2)]
  have "sint (a - b) = uint a - uint b"
    using sm by (simp add: sint_diff_small)
  then show ?case
    using "1.IH" sm by (auto simp: Let_def word_less_def word_uint_eq_iff)
qed (auto simp: small_oid_def sint_length_diffs Nil_less_iff)

lemma oid_cmp_zero: "small_oid s \<Longrightarrow> small_oid t \<Longrightarrow> oid_cmp s t = 0 \<longleftrightarrow> s = t"
proof (induction s t rule: oid_cmp.induct)
  case (1 a s b t)
  then show ?case
    using small_oid_Cons [OF "1.prems"(1)] small_oid_Cons [OF "1.prems"(2)]
    by (auto simp: Let_def sint_diff_0)
qed (auto simp: small_oid_def sint_length_diffs)

lemma oid_cmp_greater: "small_oid s \<Longrightarrow> small_oid t \<Longrightarrow> oid_cmp s t > 0 \<longleftrightarrow> t < s"
  using oid_cmp_less [of s t] oid_cmp_zero [of s t] by (metis linorder_neqE neq_iff order_less_asym)

section \<open>Covering\<close>

lemma oid_cover_prefix:
  "oid_cover oid1 oid2 = (if prefix oid1 oid2 then 1 else if prefix oid2 oid1 then - 1 else 0)"
proof -
  have "length a \<le> length b \<and> oid_cmp a (take (length a) b) = 0 \<longleftrightarrow> prefix a b" for a b
    by (auto simp: oid_cmp_eq_len prefix_def) (metis append_take_drop_id)
  moreover have "length a \<le> length b \<and> oid_cmp (take (length a) b) a = 0 \<longleftrightarrow> prefix a b" for a b
    by (auto simp: oid_cmp_eq_len prefix_def) (metis append_take_drop_id)
  ultimately show ?thesis
    by (simp add: oid_cover_def Let_def)
qed

lemma oid_cover_pos: "oid_cover a b > 0 \<longleftrightarrow> prefix a b"
  by (simp add: oid_cover_prefix)

lemma oid_cover_neg: "oid_cover a b < 0 \<longleftrightarrow> strict_prefix b a"
  by (auto simp: oid_cover_prefix strict_prefix_def)

lemma oid_cover_zero: "oid_cover a b = 0 \<longleftrightarrow> a \<parallel> b"
  by (auto simp: oid_cover_prefix parallel_def)

section \<open>Binary search\<close>

text \<open>The position at which a key is, or is to be inserted, in a strictly sorted array.\<close>

definition ins_pos :: "oid_t list \<Rightarrow> oid_t \<Rightarrow> nat" where
  "ins_pos xs x = length (takeWhile (\<lambda>y. y < x) xs)"

lemma ins_pos_le: "ins_pos xs x \<le> length xs"
  by (simp add: ins_pos_def length_takeWhile_le)

lemma ins_pos_unique:
  assumes "sorted_wrt (<) xs" "p \<le> length xs"
    "\<And>i. i < p \<Longrightarrow> xs ! i < x" "\<And>i. p \<le> i \<Longrightarrow> i < length xs \<Longrightarrow> x \<le> xs ! i"
  shows "ins_pos xs x = p"
proof -
  have "takeWhile (\<lambda>y. y < x) (take p xs @ drop p xs) = take p xs"
  proof (subst takeWhile_append2)
    show "y < x" if "y \<in> set (take p xs)" for y
      using that assms(2,3) by (auto simp: in_set_conv_nth)
    show "take p xs @ takeWhile (\<lambda>y. y < x) (drop p xs) = take p xs"
    proof (cases "p < length xs")
      case True
      with assms(4) [of p] have "drop p xs = xs ! p # drop (Suc p) xs" "\<not> xs ! p < x"
        by (simp_all add: Cons_nth_drop_Suc leD)
      then show ?thesis
        by simp
    qed simp
  qed
  then show ?thesis
    using assms(2) by (simp add: ins_pos_def)
qed


text \<open>The part of the array in use is strictly increasing.\<close>

lemma sorted_take_less:
  assumes "sorted_wrt (<) (take n arr)" "n \<le> length arr" "i < j" "j < n"
  shows "arr ! i < arr ! j"
  using sorted_wrt_nth_less [OF assms(1), of i j] assms(2-4) by simp

lemma sorted_take_le:
  fixes arr :: "'a :: order list"
  assumes "sorted_wrt (<) (take n arr)" "n \<le> length arr" "i \<le> j" "j < n"
  shows "arr ! i \<le> arr ! j"
  using sorted_take_less [OF assms(1,2), of i j] assms(3,4) by (cases "i = j") (auto simp: less_imp_le)

text \<open>The loop keeps every element up to \<open>low\<close> at most the key and every element from
  \<open>high\<close> on above it, and it never reads outside the array.\<close>

lemma obs_loop_spec:
  assumes "sorted_wrt (<) (take n arr)" "n \<le> length arr"
    "- 1 \<le> low" "low < high" "high \<le> int n"
    "\<And>i. int i \<le> low \<Longrightarrow> arr ! i \<le> oid"
    "\<And>i. high \<le> int i \<Longrightarrow> i < n \<Longrightarrow> oid < arr ! i"
  shows "\<exists>r. obs_loop arr oid low high = Some r \<and> - 1 \<le> r \<and> r < int n \<and>
    (\<forall>i. int i \<le> r \<longrightarrow> arr ! i \<le> oid) \<and> (\<forall>i < n. r < int i \<longrightarrow> oid < arr ! i)"
  using assms
proof (induction arr oid low high rule: obs_loop.induct)
  case (1 arr oid low high)
  show ?case
  proof (cases "low + 1 < high")
    case False
    then show ?thesis
      using "1.prems" by (subst obs_loop.simps) auto
  next
    case True
    define mid where "mid = low + (high - low) div 2"
    have mid: "low < mid" "mid < high" "0 \<le> mid" "nat mid < n"
      using True "1.prems"(3,5) by (auto simp: mid_def)
    have rdm: "rd arr (nat mid) = Some (arr ! nat mid)"
      using mid(4) "1.prems"(2) by (simp add: rd_def)
    have step: "obs_loop arr oid low high =
        (if arr ! nat mid > oid then obs_loop arr oid low mid else obs_loop arr oid mid high)"
      using True by (subst obs_loop.simps) (simp add: mid_def [symmetric] Let_def rdm)
    note le = sorted_take_le [OF "1.prems"(1,2)]
    show ?thesis
    proof (cases "arr ! nat mid > oid")
      case above: True
      have "oid < arr ! i" if "mid \<le> int i" "i < n" for i
        using above le [of "nat mid" i] that by (simp add: order.strict_trans2)
      then show ?thesis
        using "1.IH"(1) [OF True mid_def rdm above] "1.prems" mid above step by auto
    next
      case below: False
      have "arr ! i \<le> oid" if "int i \<le> mid" for i
        using below le [of i "nat mid"] mid(3,4) that by (simp add: not_less le_nat_iff)
      then show ?thesis
        using "1.IH"(2) [OF True mid_def rdm below] "1.prems" mid below step by auto
    qed
  qed
qed

text \<open>Where the loop stops, read as the place of the key in the sorted order.\<close>

lemma ins_pos_hit:
  fixes arr :: "oid_t list" and oid :: oid_t
  assumes srt: "sorted_wrt (<) (take n arr)" "n \<le> length arr" and "k < n" "arr ! k = oid"
  shows "ins_pos (take n arr) oid = k"
proof (rule ins_pos_unique [OF srt(1)])
  show "k \<le> length (take n arr)"
    using assms by simp
  show "take n arr ! i < oid" if "i < k" for i
    using that sorted_take_less [OF srt, of i k] assms(3,4) by simp
  show "oid \<le> take n arr ! i" if "k \<le> i" "i < length (take n arr)" for i
    using that sorted_take_le [OF srt, of k i] assms(4) by simp
qed

lemma ins_pos_miss:
  fixes arr :: "oid_t list" and oid :: oid_t
  assumes srt: "sorted_wrt (<) (take n arr)" "n \<le> length arr"
    and r: "- 1 \<le> r" "r < int n" "\<And>i. int i \<le> r \<Longrightarrow> arr ! i \<le> oid" "\<And>i. i < n \<Longrightarrow> r < int i \<Longrightarrow> oid < arr ! i"
    and miss: "r < 0 \<or> arr ! nat r \<noteq> oid"
  shows "ins_pos (take n arr) oid = nat (r + 1)"
proof (rule ins_pos_unique [OF srt(1)])
  show "nat (r + 1) \<le> length (take n arr)"
    using r(1,2) srt(2) by auto
  show "take n arr ! i < oid" if i: "i < nat (r + 1)" for i
  proof -
    have "0 \<le> r"
      using i by simp
    then have "arr ! nat r < oid"
      using miss r(3) [of "nat r"] by (simp add: order.strict_iff_order)
    moreover have "arr ! i \<le> arr ! nat r"
      using i r(2) sorted_take_le [OF srt, of i "nat r"] by simp
    ultimately show ?thesis
      using i r(2) by simp
  qed
  show "oid \<le> take n arr ! i" if "nat (r + 1) \<le> i" "i < length (take n arr)" for i
    using that r(4) [of i] by (auto simp: less_imp_le)
qed

lemma oid_binary_search_spec:
  fixes arr :: "oid_t list" and oid :: oid_t
  assumes "sorted_wrt (<) (take n arr)" "n \<le> length arr"
  defines "p \<equiv> ins_pos (take n arr) oid"
  shows "oid_binary_search arr n oid =
    Some (if p < n \<and> arr ! p = oid then int p else - int p - 1)"
proof -
  obtain r where r: "obs_loop arr oid (- 1) (int n) = Some r" "- 1 \<le> r" "r < int n"
    "\<And>i. int i \<le> r \<Longrightarrow> arr ! i \<le> oid" "\<And>i. i < n \<Longrightarrow> r < int i \<Longrightarrow> oid < arr ! i"
    using obs_loop_spec [OF assms(1,2), of "- 1" "int n" oid] by auto
  consider (hit) "0 \<le> r" "arr ! nat r = oid" | (miss) "r < 0 \<or> arr ! nat r \<noteq> oid"
    by linarith
  then show ?thesis
  proof cases
    case hit
    have "p = nat r"
      using ins_pos_hit [OF assms(1,2), of "nat r" oid] hit r(3) by (simp add: p_def)
    then show ?thesis
      using hit r(1-3) assms(2) by (auto simp: oid_binary_search_def rd_def)
  next
    case miss
    have eq: "p = nat (r + 1)"
      unfolding p_def by (rule ins_pos_miss [OF assms(1,2) r(2-5) miss])
    then have "\<not> (p < n \<and> arr ! p = oid)"
      using r(2) r(5) [of p] by auto
    moreover have "- r - 2 = - int p - 1"
      using eq r(2) by simp
    ultimately show ?thesis
      using miss r(1-3) assms(2) by (auto simp: oid_binary_search_def rd_def)
  qed
qed


section \<open>Properties\<close>

text \<open>C39: for identifiers whose sub-identifiers are below \<open>2 ^ 31\<close> the sign of \<open>oid_cmp\<close> is the
  lexicographic order of the identifiers.\<close>

theorem oid_cmp_order:
  assumes "small_oid s" "small_oid t"
  shows "(oid_cmp s t < 0 \<longleftrightarrow> s < t) \<and> (oid_cmp s t = 0 \<longleftrightarrow> s = t) \<and> (oid_cmp s t > 0 \<longleftrightarrow> t < s)"
  using oid_cmp_less [OF assms] oid_cmp_zero [OF assms] oid_cmp_greater [OF assms] by blast

theorem oid_cmp_order_witness: "oid_cmp [1, 3, 6] [1, 3, 6, 1] < 0"
  using oid_cmp_order [of "[1, 3, 6]" "[1, 3, 6, 1]"] by (simp add: small_oid_def small_def)

text \<open>beyond that bound the order is wrong: if the first sub-identifiers that differ are
  more than \<open>2 ^ 31\<close> apart, the greater identifier compares as the smaller one.\<close>

theorem oid_cmp_wraps:
  fixes a b :: oid_t
  assumes "uint a - uint b > 2 ^ 31"
  shows "b # t < a # s \<and> oid_cmp (a # s) (b # t) < 0"
proof -
  have "b < a"
    using assms by (simp add: word_less_def)
  have r: "0 \<le> uint b" "uint a < 2 ^ 32"
    using uint_lt2p [of a] by simp_all
  have range: "- (2 ^ 31) \<le> x - y - 2 ^ 32 \<and> x - y - 2 ^ 32 < 2 ^ 31"
    if "x - y > 2 ^ 31" "0 \<le> y" "x < 2 ^ 32" for x y :: int
    using that by simp
  have "(word_of_int (2 ^ 32) :: u32) = 0"
    by (simp add: word_of_int_eq_0_iff)
  then have "(word_of_int (uint a - uint b - 2 ^ 32) :: u32) = a - b"
    by (simp only: of_int_diff) simp
  then have "sint (a - b) = sint (word_of_int (uint a - uint b - 2 ^ 32) :: u32)"
    by (simp only:)
  also have "\<dots> = uint a - uint b - 2 ^ 32"
    using range [OF assms r] by (intro sint_word_of_int_small) blast+
  also have "\<dots> < 0"
    using r by linarith
  finally show ?thesis
    using \<open>b < a\<close> by (simp add: Let_def)
qed

theorem oid_cmp_wraps_witness: "oid_cmp [0xffffffff] [0] < 0"
  using oid_cmp_wraps [of "0xffffffff" 0 "[]" "[]"] by simp

text \<open>C40: on the first \<open>n\<close> cells of an array, strictly sorted, the binary search ends without
  reading outside the array and returns the index of the key, or \<open>- p - 1\<close> for the position
  \<open>p\<close> at which the key keeps the array sorted: all cells before it are smaller, all from it
  on are greater.\<close>

theorem oid_binary_search_correct:
  fixes arr :: "oid_t list"
  assumes "sorted_wrt (<) (take n arr)" "n \<le> length arr"
  shows "\<exists>i. oid_binary_search arr n x = Some i \<and>
    (if i \<ge> 0 then nat i < n \<and> arr ! nat i = x
     else nat (- i - 1) \<le> n \<and> (\<forall>j < nat (- i - 1). arr ! j < x) \<and> (\<forall>j < n. nat (- i - 1) \<le> j \<longrightarrow> x < arr ! j))"
proof -
  let ?p = "ins_pos (take n arr) x"
  have len: "length (take n arr) = n"
    using assms(2) by simp
  have p: "?p \<le> n"
    using ins_pos_le [of "take n arr" x] len by simp
  have below: "arr ! j < x" if "j < ?p" for j
  proof -
    have "takeWhile (\<lambda>y. y < x) (take n arr) ! j < x"
      using that set_takeWhileD [OF nth_mem, of j "\<lambda>y. y < x" "take n arr"] by (simp add: ins_pos_def)
    then show ?thesis
      using that p by (simp add: takeWhile_nth ins_pos_def)
  qed
  have above: "x < arr ! j" if "\<not> (?p < n \<and> arr ! ?p = x)" "?p \<le> j" "j < n" for j
  proof -
    have "\<not> arr ! ?p < x"
      using nth_length_takeWhile [of "\<lambda>y. y < x" "take n arr"] that len by (simp add: ins_pos_def)
    then have "x < arr ! ?p"
      using that by (auto simp: neq_iff)
    moreover have "?p < j \<Longrightarrow> arr ! ?p < arr ! j"
      using sorted_wrt_nth_less [OF assms(1), of ?p j] that len by simp
    ultimately show ?thesis
      using that(2) by (metis le_less order.strict_trans)
  qed
  show ?thesis
    using oid_binary_search_spec [OF assms, of x] below above p by auto
qed

theorem oid_binary_search_correct_witness: "\<exists>i. oid_binary_search [1, 3, 6] 3 3 = Some i"
  using oid_binary_search_correct [of 3 "[1, 3, 6]" 3] by auto

end
