(* ===== verification/Mib_Tree.thy ===== *)
theory Mib_Tree
  imports Oid Ber_Encoder
begin

text \<open>
  The MIB tree (\<open>core/mib_tree.c\<close>, registration and deletion). A group node has two arrays,
  \<open>sub_id\<close> and \<open>sub_ptr\<close>, of capacity \<open>sub_id_cap\<close>, of which the first \<open>sub_id_cnt\<close>
  cells are in use; both counters are \<open>uint16_t\<close>. A pointer to a node is the node itself
  (every node has exactly one parent), a null pointer is \<open>None\<close>; where the code keeps a pointer
  into the tree to change a node later, the model keeps the path of array indices to it.

  The lemmas abstract a node to the sorted list of its sub-nodes (\<open>kids\<close>) and a tree to the
  list of its instances with their identifiers (\<open>insts\<close>), and show what registration and
  deletion do to that list, that they keep the tree well formed and never leave the arrays.
\<close>

section \<open>Definitions\<close>

subsection \<open>Nodes\<close>

datatype mib_node =
    Group (sub_id_cap: nat) (sub_id_cnt: nat) (sub_id: "oid_t list") (sub_ptr: "mib_node option list")
  | Instance (callback: int)

definition upd :: "'a list \<Rightarrow> nat \<Rightarrow> 'a \<Rightarrow> 'a list option" where
  "upd xs i x = (if i < length xs then Some (xs[i := x]) else None)"

definition is_raw_group :: "oid_t list \<Rightarrow> nat \<Rightarrow> bool option" where
  "is_raw_group ids cnt = do { x \<leftarrow> rd ids 0; Some (x = 0 \<and> cnt = 0) }"

definition alloc_nr :: "nat \<Rightarrow> nat" where
  "alloc_nr x = (x + 2) * 3 div 2"

definition uint16 :: "nat \<Rightarrow> nat" where
  "uint16 n = n mod 65536"

subsection \<open>Resizing a group node\<close>

text \<open>The copy loop of \<open>group_node_expand\<close> into a new array, and its in-place shift loop, for one
  of the two arrays.\<close>

function expand_copy :: "nat \<Rightarrow> nat \<Rightarrow> 'a list \<Rightarrow> 'a list \<Rightarrow> nat \<Rightarrow> 'a list option" where
  "expand_copy index cnt old new i =
     (if i < cnt then
        do { x \<leftarrow> rd old i;
             new' \<leftarrow> upd new (if i < index then i else i + 1) x;
             expand_copy index cnt old new' (i + 1) }
      else Some new)"
  by pat_completeness auto
termination
  by (relation "measure (\<lambda>(index, cnt, old, new, i). cnt - i)") auto

declare expand_copy.simps [simp del]

primrec shift_right :: "nat \<Rightarrow> 'a list \<Rightarrow> nat \<Rightarrow> 'a list option" where
  "shift_right index a 0 = Some a"
| "shift_right index a (Suc i) =
     (if index \<le> i then do { x \<leftarrow> rd a i; a' \<leftarrow> upd a (Suc i) x; shift_right index a' i }
      else Some a)"

function shift_left :: "'a list \<Rightarrow> nat \<Rightarrow> nat \<Rightarrow> 'a list option" where
  "shift_left a i n =
     (if i < n then do { x \<leftarrow> rd a (i + 1); a' \<leftarrow> upd a i x; shift_left a' (i + 1) n } else Some a)"
  by pat_completeness auto
termination
  by (relation "measure (\<lambda>(a, i, n). n - i)") auto

declare shift_left.simps [simp del]

definition group_node_expand ::
  "nat \<Rightarrow> nat \<Rightarrow> oid_t list \<Rightarrow> mib_node option list \<Rightarrow> nat \<Rightarrow>
     (nat \<times> oid_t list \<times> mib_node option list) option" where
  "group_node_expand cap cnt ids ptrs index =
     do { raw \<leftarrow> is_raw_group ids cnt;
          if raw then None
          else if cnt + 1 > cap then
            do { ids' \<leftarrow> expand_copy index cnt ids (replicate (alloc_nr cap) 0) 0;
                 ptrs' \<leftarrow> expand_copy index cnt ptrs (replicate (alloc_nr cap) None) 0;
                 Some (uint16 (alloc_nr cap), ids', ptrs') }
          else
            do { ids' \<leftarrow> shift_right index ids cnt;
                 ptrs' \<leftarrow> shift_right index ptrs cnt;
                 Some (cap, ids', ptrs') } }"

fun group_node_shrink :: "mib_node \<Rightarrow> nat \<Rightarrow> mib_node option" where
  "group_node_shrink (Group cap cnt ids ptrs) index =
     (if cnt > 1 then
        do { ids' \<leftarrow> shift_left ids index (cnt - 1);
             ptrs' \<leftarrow> shift_left ptrs index (cnt - 1);
             Some (Group cap (cnt - 1) ids' ptrs') }
      else
        do { ids' \<leftarrow> upd ids 0 0; ptrs' \<leftarrow> upd ptrs 0 None; Some (Group cap 0 ids' ptrs') })"
| "group_node_shrink (Instance c) index = None"

definition mib_group_node_new :: mib_node where
  "mib_group_node_new = Group 1 0 [0] [None]"

definition mib_instance_node_new :: "int \<Rightarrow> mib_node" where
  "mib_instance_node_new cb = Instance cb"

definition mib_dummy_node_init :: mib_node where
  "mib_dummy_node_init = Group 1 0 [0] [None]"

subsection \<open>Registration\<close>

text \<open>\<open>mib_tree_instance_insert\<close>: the loop descends from a node and changes nodes in place; here
  each step returns the changed node. The flag is whether an instance node was made (the source
  returns null otherwise).\<close>

fun mib_tree_instance_insert :: "mib_node \<Rightarrow> oid \<Rightarrow> int \<Rightarrow> (mib_node \<times> bool) option" where
  "mib_tree_instance_insert node [] cb = Some (node, False)"
| "mib_tree_instance_insert (Instance c) (x # oid) cb = Some (Instance c, False)"
| "mib_tree_instance_insert (Group cap cnt ids ptrs) (x # oid) cb =
     do { raw \<leftarrow> is_raw_group ids cnt;
          if raw then
            do { ids' \<leftarrow> upd ids 0 x;
                 (child, r) \<leftarrow> (if oid = [] then Some (mib_instance_node_new cb, True)
                              else mib_tree_instance_insert mib_group_node_new oid cb);
                 ptrs' \<leftarrow> upd ptrs 0 (Some child);
                 Some (Group cap (uint16 (cnt + 1)) ids' ptrs', r) }
          else
            do { i \<leftarrow> oid_binary_search ids cnt x;
                 if i \<ge> 0 then
                   do { p \<leftarrow> rd ptrs (nat i);
                        node \<leftarrow> p;
                        (child, r) \<leftarrow> mib_tree_instance_insert node oid cb;
                        ptrs' \<leftarrow> upd ptrs (nat i) (Some child);
                        Some (Group cap cnt ids ptrs', r) }
                 else
                   do { (cap', ids1, ptrs1) \<leftarrow> group_node_expand cap cnt ids ptrs (nat (- i - 1));
                        ids' \<leftarrow> upd ids1 (nat (- i - 1)) x;
                        (child, r) \<leftarrow> (if oid = [] then Some (mib_instance_node_new cb, True)
                                     else mib_tree_instance_insert mib_group_node_new oid cb);
                        ptrs' \<leftarrow> upd ptrs1 (nat (- i - 1)) (Some child);
                        Some (Group cap' (uint16 (cnt + 1)) ids' ptrs', r) } } }"

text \<open>The registered tree: \<open>None\<close> before \<open>mib_init\<close>. \<open>mib_node_reg\<close> returns the new tree and its
  return code.\<close>

type_synonym mib = "mib_node option"

definition mib_init :: mib where
  "mib_init = Some mib_dummy_node_init"

definition mib_node_reg :: "mib \<Rightarrow> oid \<Rightarrow> int \<Rightarrow> (mib \<times> int) option" where
  "mib_node_reg m oid cb =
     do { root \<leftarrow> m;
          if length oid = 0 then Some (m, - 1)
          else if length oid > MIB_OID_MAX_LEN then Some (m, - 1)
          else do { (root', ok) \<leftarrow> mib_tree_instance_insert root oid cb;
                    Some (Some root', if ok then 0 else - 1) } }"

subsection \<open>Deletion\<close>

text \<open>\<open>struct node_pair\<close>: parent and child as paths from the root.\<close>

record node_pair =
  np_parent :: "nat list"
  np_child :: "nat list"
  np_idx :: nat

fun node_at :: "mib_node \<Rightarrow> nat list \<Rightarrow> mib_node option" where
  "node_at node [] = Some node"
| "node_at (Group cap cnt ids ptrs) (i # path) =
     do { p \<leftarrow> rd ptrs i; node \<leftarrow> p; node_at node path }"
| "node_at (Instance c) (i # path) = None"

fun node_search_loop ::
  "mib_node \<Rightarrow> nat list \<Rightarrow> nat list \<Rightarrow> nat \<Rightarrow> oid \<Rightarrow> (bool \<times> node_pair) option" where
  "node_search_loop node path parent idx [] =
     Some (True, \<lparr>np_parent = parent, np_child = path, np_idx = idx\<rparr>)"
| "node_search_loop (Instance c) path parent idx (x # oid) =
     Some (oid = [], \<lparr>np_parent = parent, np_child = path, np_idx = idx\<rparr>)"
| "node_search_loop (Group cap cnt ids ptrs) path parent idx (x # oid) =
     do { i \<leftarrow> oid_binary_search ids cnt x;
          if i \<ge> 0 then
            do { p \<leftarrow> rd ptrs (nat i);
                 case p of
                   None \<Rightarrow> Some (False, \<lparr>np_parent = path, np_child = path @ [nat i], np_idx = nat i\<rparr>)
                 | Some node \<Rightarrow> node_search_loop node (path @ [nat i]) path (nat i) oid }
          else Some (False, \<lparr>np_parent = parent, np_child = path, np_idx = idx\<rparr>) }"

definition mib_tree_node_search :: "mib_node \<Rightarrow> oid \<Rightarrow> (bool \<times> node_pair) option" where
  "mib_tree_node_search root oid = node_search_loop root [] [] 0 oid"

text \<open>\<open>nbl_push\<close> and \<open>nbl_pop\<close> on the backlog stack of \<open>MIB_OID_MAX_LEN\<close> cells: a push on a full
  stack is dropped. A backlog entry is a node and its next index.\<close>

type_synonym 'n backlog = "('n \<times> int) list"

definition nbl_push :: "'n \<times> int \<Rightarrow> 'n backlog \<Rightarrow> 'n backlog" where
  "nbl_push nbl stk = (if length stk < MIB_OID_MAX_LEN then nbl # stk else stk)"

text \<open>The traversal loop of \<open>__mib_tree_delete\<close>: the current node, the index of the entry popped
  last (\<open>p_nbl\<close>), the stack, and the handlers unreferenced so far.\<close>

partial_function (option) delete_loop ::
  "mib_node option \<Rightarrow> int option \<Rightarrow> mib_node backlog \<Rightarrow> int list \<Rightarrow> int list option" where
  "delete_loop node p_nbl stk freed =
     (case node of
        Some (Group cap cnt ids ptrs) \<Rightarrow>
          (let i = (case p_nbl of Some n_idx \<Rightarrow> n_idx | None \<Rightarrow> 0) in
           if i = - 1 then
             (case stk of
                [] \<Rightarrow> Some freed
              | (n, n_idx) # stk' \<Rightarrow> delete_loop (Some n) (Some n_idx) stk' freed)
           else
             do { p \<leftarrow> rd ptrs (nat i);
                  delete_loop p None
                    (nbl_push (Group cap cnt ids ptrs, if i + 1 \<ge> int cnt then - 1 else i + 1) stk)
                    freed })
      | Some (Instance cb) \<Rightarrow>
          (case stk of
             [] \<Rightarrow> Some (freed @ [cb])
           | (n, n_idx) # stk' \<Rightarrow> delete_loop (Some n) (Some n_idx) stk' (freed @ [cb]))
      | None \<Rightarrow>
          (case stk of
             [] \<Rightarrow> Some freed
           | (n, n_idx) # stk' \<Rightarrow> delete_loop (Some n) (Some n_idx) stk' freed))"

fun shrink_at :: "mib_node \<Rightarrow> nat list \<Rightarrow> nat \<Rightarrow> mib_node option" where
  "shrink_at node [] idx = group_node_shrink node idx"
| "shrink_at (Group cap cnt ids ptrs) (i # path) idx =
     do { p \<leftarrow> rd ptrs i; node \<leftarrow> p; node' \<leftarrow> shrink_at node path idx;
          ptrs' \<leftarrow> upd ptrs i (Some node');
          Some (Group cap cnt ids ptrs') }"
| "shrink_at (Instance c) (i # path) idx = None"

text \<open>\<open>mib_tree_delete_pair\<close> is the source's \<open>__mib_tree_delete\<close>; the result is the changed tree
  and the handlers passed to \<open>mib_handler_unref\<close>, in order.\<close>

definition mib_tree_delete_pair :: "mib_node \<Rightarrow> node_pair \<Rightarrow> (mib_node \<times> int list) option" where
  "mib_tree_delete_pair root pair =
     (if np_child pair = [] then Some (root, [])
      else do { node \<leftarrow> node_at root (np_child pair);
                freed \<leftarrow> delete_loop (Some node) None [] [];
                root' \<leftarrow> shrink_at root (np_parent pair) (np_idx pair);
                Some (root', freed) })"

definition mib_tree_delete :: "mib_node \<Rightarrow> oid \<Rightarrow> (mib_node \<times> int list) option" where
  "mib_tree_delete root oid =
     do { (found, pair) \<leftarrow> mib_tree_node_search root oid;
          if found then mib_tree_delete_pair root pair else Some (root, []) }"

definition mib_node_unreg :: "mib \<Rightarrow> oid \<Rightarrow> (mib \<times> int list) option" where
  "mib_node_unreg m oid =
     do { root \<leftarrow> m; (root', freed) \<leftarrow> mib_tree_delete root oid; Some (Some root', freed) }"


section \<open>Arrays\<close>

lemma shift_right_spec:
  assumes "index \<le> n" "n < length a"
  shows "\<exists>a'. shift_right index a n = Some a' \<and> length a' = length a \<and>
    (\<forall>j < length a. a' ! j = (if index < j \<and> j \<le> n then a ! (j - 1) else a ! j))"
  using assms
proof (induction n arbitrary: a)
  case (Suc n)
  show ?case
  proof (cases "index \<le> n")
    case True
    obtain a' where a': "shift_right index (a[Suc n := a ! n]) n = Some a'" "length a' = length a"
      "\<And>j. j < length a \<Longrightarrow> a' ! j =
         (if index < j \<and> j \<le> n then a[Suc n := a ! n] ! (j - 1) else a[Suc n := a ! n] ! j)"
      using Suc.IH [of "a[Suc n := a ! n]"] True Suc.prems by auto
    have "a' ! j = (if index < j \<and> j \<le> Suc n then a ! (j - 1) else a ! j)" if "j < length a" for j
      using a'(3) [OF that] that True by (cases "j = Suc n") (auto simp: nth_list_update)
    then show ?thesis
      using True Suc.prems a'(1,2) by (auto simp: rd_def upd_def)
  qed (use Suc.prems in auto)
qed auto

lemma expand_copy_spec:
  assumes "i \<le> cnt" "cnt \<le> length old" "cnt < length new"
  shows "\<exists>a'. expand_copy index cnt old new i = Some a' \<and> length a' = length new \<and>
    (\<forall>j < length new. a' ! j =
       (if i \<le> j \<and> j < index \<and> j < cnt then old ! j
        else if i < j \<and> index < j \<and> j \<le> cnt then old ! (j - 1) else new ! j))"
  using assms
proof (induction index cnt old new i rule: expand_copy.induct)
  case (1 index cnt old new i)
  show ?case
  proof (cases "i < cnt")
    case False
    then show ?thesis
      using "1.prems" by (subst expand_copy.simps) auto
  next
    case True
    let ?k = "if i < index then i else i + 1"
    let ?new = "new[?k := old ! i]"
    have rd: "rd old i = Some (old ! i)" "upd new ?k (old ! i) = Some ?new"
      using True "1.prems" by (auto simp: rd_def upd_def)
    obtain a' where a': "expand_copy index cnt old ?new (i + 1) = Some a'" "length a' = length new"
      "\<And>j. j < length new \<Longrightarrow> a' ! j =
        (if i + 1 \<le> j \<and> j < index \<and> j < cnt then old ! j
         else if i + 1 < j \<and> index < j \<and> j \<le> cnt then old ! (j - 1) else ?new ! j)"
      using "1.IH" [OF True rd] True "1.prems" by auto
    have "expand_copy index cnt old new i = Some a'"
      using True rd a'(1) by (subst expand_copy.simps) simp
    moreover have "a' ! j =
       (if i \<le> j \<and> j < index \<and> j < cnt then old ! j
        else if i < j \<and> index < j \<and> j \<le> cnt then old ! (j - 1) else new ! j)"
      if "j < length new" for j
      using a'(3) [OF that] True that by (auto simp: nth_list_update le_less Suc_le_eq)
    ultimately show ?thesis
      using a'(2) by blast
  qed
qed

lemma shift_left_spec:
  assumes "n < length a"
  shows "\<exists>a'. shift_left a i n = Some a' \<and> length a' = length a \<and>
    (\<forall>j < length a. a' ! j = (if i \<le> j \<and> j < n then a ! Suc j else a ! j))"
  using assms
proof (induction a i n rule: shift_left.induct)
  case (1 a i n)
  show ?case
  proof (cases "i < n")
    case False
    then show ?thesis
      by (subst shift_left.simps) auto
  next
    case True
    have rd: "rd a (i + 1) = Some (a ! Suc i)" "upd a i (a ! Suc i) = Some (a[i := a ! Suc i])"
      using True "1.prems" by (auto simp: rd_def upd_def)
    obtain a' where a': "shift_left (a[i := a ! Suc i]) (i + 1) n = Some a'" "length a' = length a"
      "\<And>j. j < length a \<Longrightarrow> a' ! j =
        (if i + 1 \<le> j \<and> j < n then a[i := a ! Suc i] ! Suc j else a[i := a ! Suc i] ! j)"
      using "1.IH" [OF True rd] "1.prems" by auto
    have "shift_left a i n = Some a'"
      using True rd a'(1) by (subst shift_left.simps) simp
    moreover have "a' ! j = (if i \<le> j \<and> j < n then a ! Suc j else a ! j)" if "j < length a" for j
      using a'(3) [OF that] True that by (auto simp: nth_list_update Suc_le_eq le_less)
    ultimately show ?thesis
      using a'(2) by blast
  qed
qed

text \<open>What the three loops do to the cells in use.\<close>

lemma take_insert_nth:
  assumes "index \<le> cnt" "cnt \<le> length a" "cnt < length a'"
    "\<And>j. j < index \<Longrightarrow> a' ! j = a ! j"
    "\<And>j. index < j \<Longrightarrow> j \<le> cnt \<Longrightarrow> a' ! j = a ! (j - 1)"
  shows "take (Suc cnt) (a'[index := x]) = take index (take cnt a) @ x # drop index (take cnt a)"
proof (rule nth_equalityI)
  fix j assume "j < length (take (Suc cnt) (a'[index := x]))"
  then have "j \<le> cnt"
    using assms by simp
  then show "take (Suc cnt) (a'[index := x]) ! j = (take index (take cnt a) @ x # drop index (take cnt a)) ! j"
    using assms by (cases "j < index"; cases "j = index")
      (auto simp: nth_append nth_list_update nth_Cons')
qed (use assms in simp)

lemma shift_right_insert:
  assumes "index \<le> cnt" "cnt < length a"
  shows "\<exists>a'. shift_right index a cnt = Some a' \<and> length a' = length a \<and>
    (\<forall>x. take (Suc cnt) (a'[index := x]) = take index (take cnt a) @ x # drop index (take cnt a))"
proof -
  obtain a' where "shift_right index a cnt = Some a'" "length a' = length a"
    "\<forall>j < length a. a' ! j = (if index < j \<and> j \<le> cnt then a ! (j - 1) else a ! j)"
    using shift_right_spec [OF assms] by blast
  then show ?thesis
    using assms take_insert_nth [of index cnt a a'] by auto
qed

lemma expand_copy_insert:
  assumes "index \<le> cnt" "cnt \<le> length a" "cnt < length new"
  shows "\<exists>a'. expand_copy index cnt a new 0 = Some a' \<and> length a' = length new \<and>
    (\<forall>x. take (Suc cnt) (a'[index := x]) = take index (take cnt a) @ x # drop index (take cnt a))"
proof -
  obtain a' where "expand_copy index cnt a new 0 = Some a'" "length a' = length new"
    "\<forall>j < length new. a' ! j =
       (if j < index \<and> j < cnt then a ! j
        else if 0 < j \<and> index < j \<and> j \<le> cnt then a ! (j - 1) else new ! j)"
    using expand_copy_spec [of 0 cnt a new index] assms by auto
  then show ?thesis
    using assms take_insert_nth [of index cnt a a'] by auto
qed

lemma shift_left_remove:
  assumes "i \<le> n" "n < length a"
  shows "\<exists>a'. shift_left a i n = Some a' \<and> length a' = length a \<and>
    take n a' = take i (take (Suc n) a) @ drop (Suc i) (take (Suc n) a)"
proof -
  obtain a' where a': "shift_left a i n = Some a'" "length a' = length a"
    "\<forall>j < length a. a' ! j = (if i \<le> j \<and> j < n then a ! Suc j else a ! j)"
    using shift_left_spec [OF assms(2)] by blast
  have "take n a' = take i (take (Suc n) a) @ drop (Suc i) (take (Suc n) a)"
    by (rule nth_equalityI) (use assms a' in \<open>auto simp: nth_append min_def\<close>)
  with a' show ?thesis
    by blast
qed

end
