(* ===== verification/Mib_Reg.thy ===== *)
theory Mib_Reg
  imports Mib_Tree
begin

text \<open>
  Well-formed MIB trees and registration. A node is abstracted to the sorted list of its
  sub-nodes and a tree to the list of its instances; registration adds one instance to it, or
  changes nothing.
\<close>

section \<open>Sub-nodes and instances\<close>

text \<open>The sub-nodes of a group, in array order.\<close>

fun some_nodes :: "(oid_t \<times> mib_node option) list \<Rightarrow> (oid_t \<times> mib_node) list" where
  "some_nodes [] = []"
| "some_nodes ((x, None) # ps) = some_nodes ps"
| "some_nodes ((x, Some n) # ps) = (x, n) # some_nodes ps"

fun kids :: "mib_node \<Rightarrow> (oid_t \<times> mib_node) list" where
  "kids (Group cap cnt ids ptrs) = some_nodes (zip (take cnt ids) (take cnt ptrs))"
| "kids (Instance c) = []"

lemma some_nodes_mem: "(x, n) \<in> set (some_nodes ps) \<Longrightarrow> (x, Some n) \<in> set ps"
  by (induction ps rule: some_nodes.induct) auto

lemma kids_size_Group [termination_simp]:
  assumes "(x, n) \<in> set (kids (Group cap cnt ids ptrs))"
  shows "size n < Suc (size_list (size_option size) ptrs)"
proof -
  from assms have "Some n \<in> set ptrs"
    by (auto dest!: some_nodes_mem set_zip_rightD in_set_takeD)
  then have "Suc (size n) \<le> size_list (size_option size) ptrs"
    by (rule size_list_estimation') simp
  then show ?thesis
    by simp
qed

lemma kids_size: "(x, n) \<in> set (kids g) \<Longrightarrow> size n < size g"
  using kids_size_Group by (cases g) (auto simp del: kids.simps(1))

declare kids.simps(1) [simp del]

lemma kids_induct [case_names Node]:
  assumes "\<And>g. (\<And>x n. (x, n) \<in> set (kids g) \<Longrightarrow> P n) \<Longrightarrow> P g"
  shows "P g"
  by (induction g rule: measure_induct_rule [of size]) (blast intro: assms kids_size)

text \<open>All instances of a tree with their identifiers relative to its root, in traversal order.\<close>

fun insts :: "mib_node \<Rightarrow> (oid \<times> int) list" where
  "insts g = (case g of
      Instance c \<Rightarrow> [([], c)]
    | Group _ _ _ _ \<Rightarrow> concat (map (\<lambda>(x, n). map (\<lambda>(p, c). (x # p, c)) (insts n)) (kids g)))"

fun height :: "mib_node \<Rightarrow> nat" where
  "height g = (case g of
      Instance c \<Rightarrow> 0
    | Group _ _ _ _ \<Rightarrow> Suc (foldr max (map (\<lambda>(x, n). height n) (kids g)) 0))"

declare insts.simps [simp del] height.simps [simp del]

text \<open>Well-formed nodes: array sizes and counters agree, the sub-identifiers in use are strictly
  sorted, the sub-nodes in use are not null and well formed, and a group without sub-nodes is raw.\<close>

definition arrays_ok :: "nat \<Rightarrow> nat \<Rightarrow> oid_t list \<Rightarrow> mib_node option list \<Rightarrow> bool" where
  "arrays_ok cap cnt ids ptrs \<longleftrightarrow>
     1 \<le> cap \<and> cap < 65536 \<and> cnt \<le> cap \<and> length ids = cap \<and> length ptrs = cap \<and>
     sorted_wrt (<) (take cnt ids) \<and> None \<notin> set (take cnt ptrs) \<and>
     (cnt = 0 \<longrightarrow> ids ! 0 = 0 \<and> ptrs ! 0 = None)"

fun wf_node :: "mib_node \<Rightarrow> bool" where
  "wf_node g = (case g of
      Instance c \<Rightarrow> True
    | Group cap cnt ids ptrs \<Rightarrow> arrays_ok cap cnt ids ptrs \<and> list_all (\<lambda>(x, n). wf_node n) (kids g))"

declare wf_node.simps [simp del]

lemma wf_Group:
  "wf_node (Group cap cnt ids ptrs) \<longleftrightarrow> arrays_ok cap cnt ids ptrs \<and>
     (\<forall>x n. (x, n) \<in> set (kids (Group cap cnt ids ptrs)) \<longrightarrow> wf_node n)"
  by (subst wf_node.simps) (auto simp: list_all_iff)

lemma wf_Instance [simp]: "wf_node (Instance c)"
  by (subst wf_node.simps) simp

lemma insts_Instance [simp]: "insts (Instance c) = [([], c)]"
  by (subst insts.simps) simp

lemma insts_Group:
  "insts (Group cap cnt ids ptrs) =
     concat (map (\<lambda>(x, n). map (\<lambda>(p, c). (x # p, c)) (insts n)) (kids (Group cap cnt ids ptrs)))"
  by (subst insts.simps) simp

lemma height_Instance [simp]: "height (Instance c) = 0"
  by (subst height.simps) simp

lemma height_Group_le:
  "height (Group cap cnt ids ptrs) \<le> Suc m \<longleftrightarrow>
     (\<forall>x n. (x, n) \<in> set (kids (Group cap cnt ids ptrs)) \<longrightarrow> height n \<le> m)"
proof -
  have "foldr max (map (\<lambda>(x, n). height n) ps) 0 \<le> m \<longleftrightarrow> (\<forall>x n. (x, n) \<in> set ps \<longrightarrow> height n \<le> m)" for ps
    by (induction ps) auto
  then show ?thesis
    by (subst height.simps) simp
qed

lemma height_Group_pos: "0 < height (Group cap cnt ids ptrs)"
  by (subst height.simps) simp

subsection \<open>The list of sub-nodes and the arrays\<close>

lemma some_nodes_zip:
  "length xs = length ps \<Longrightarrow> None \<notin> set ps \<Longrightarrow> some_nodes (zip xs ps) = zip xs (map the ps)"
proof (induction xs ps rule: list_induct2)
  case (Cons x xs y ys)
  then show ?case
    by (cases y) auto
qed simp

lemma kids_eq:
  "arrays_ok cap cnt ids ptrs \<Longrightarrow>
     kids (Group cap cnt ids ptrs) = zip (take cnt ids) (map the (take cnt ptrs))"
  by (simp add: arrays_ok_def some_nodes_zip kids.simps)

lemma arrays_kids:
  assumes "arrays_ok cap cnt ids ptrs"
  defines "ks \<equiv> kids (Group cap cnt ids ptrs)"
  shows "length ks = cnt" "map fst ks = take cnt ids" "sorted_wrt (<) (map fst ks)"
    "\<And>i. i < cnt \<Longrightarrow> ptrs ! i = Some (snd (ks ! i))" "\<And>i. i < cnt \<Longrightarrow> ids ! i = fst (ks ! i)"
proof -
  have ks: "ks = zip (take cnt ids) (map the (take cnt ptrs))"
    using assms by (simp add: kids_eq)
  show len: "length ks = cnt" and map: "map fst ks = take cnt ids" "sorted_wrt (<) (map fst ks)"
    using assms(1) by (auto simp: ks arrays_ok_def)
  fix i assume i: "i < cnt"
  then have "ptrs ! i \<in> set (take cnt ptrs)"
    using assms(1) by (auto simp: arrays_ok_def in_set_conv_nth intro!: exI [of _ i])
  then have "ptrs ! i \<noteq> None"
    using assms(1) unfolding arrays_ok_def by metis
  then show "ptrs ! i = Some (snd (ks ! i))" "ids ! i = fst (ks ! i)"
    using i assms(1) by (auto simp: ks arrays_ok_def)
qed

text \<open>Where a sub-identifier is, or belongs, among the sub-nodes.\<close>

definition kid_pos :: "(oid_t \<times> 'n) list \<Rightarrow> oid_t \<Rightarrow> nat" where
  "kid_pos ks x = ins_pos (map fst ks) x"

definition has_kid :: "(oid_t \<times> 'n) list \<Rightarrow> oid_t \<Rightarrow> bool" where
  "has_kid ks x \<longleftrightarrow> kid_pos ks x < length ks \<and> fst (ks ! kid_pos ks x) = x"

lemma kid_pos_le: "kid_pos ks x \<le> length ks"
  using ins_pos_le [of "map fst ks" x] by (simp add: kid_pos_def)

lemma search_kids:
  assumes "arrays_ok cap cnt ids ptrs"
  defines "ks \<equiv> kids (Group cap cnt ids ptrs)"
  shows "oid_binary_search ids cnt x =
    Some (if has_kid ks x then int (kid_pos ks x) else - int (kid_pos ks x) - 1)"
proof -
  note ks = arrays_kids [OF assms(1), folded ks_def]
  have "oid_binary_search ids cnt x = Some
      (if kid_pos ks x < cnt \<and> ids ! kid_pos ks x = x then int (kid_pos ks x)
       else - int (kid_pos ks x) - 1)"
    using oid_binary_search_spec [of cnt ids x] assms(1) ks(2)
    by (simp add: arrays_ok_def kid_pos_def)
  then show ?thesis
    using ks by (auto simp: has_kid_def)
qed

lemma has_kid_iff:
  assumes "sorted_wrt (<) (map fst ks)"
  shows "has_kid ks x \<longleftrightarrow> x \<in> fst ` set ks"
proof
  assume "has_kid ks x"
  then show "x \<in> fst ` set ks"
    unfolding has_kid_def by (metis image_eqI nth_mem)
next
  assume "x \<in> fst ` set ks"
  then obtain i where i: "i < length ks" "fst (ks ! i) = x"
    by (auto simp: in_set_conv_nth)
  have lt: "fst (ks ! j) < fst (ks ! k)" if "j < k" "k < length ks" for j k
    using sorted_wrt_nth_less [OF assms, of j k] that by simp
  have "kid_pos ks x = i"
    unfolding kid_pos_def
    by (rule ins_pos_unique [OF assms])
      (use i lt in \<open>auto simp: less_imp_le order_le_less\<close>)
  then show "has_kid ks x"
    using i by (simp add: has_kid_def)
qed


subsection \<open>Changing the arrays changes the sub-nodes\<close>

lemma set_kid:
  assumes ok: "arrays_ok cap cnt ids ptrs" and i: "i < cnt"
  defines "ks \<equiv> kids (Group cap cnt ids ptrs)"
  shows "arrays_ok cap cnt ids (ptrs[i := Some n])"
    "kids (Group cap cnt ids (ptrs[i := Some n])) = ks[i := (fst (ks ! i), n)]"
proof -
  show ok': "arrays_ok cap cnt ids (ptrs[i := Some n])"
    using ok i by (auto simp: arrays_ok_def take_update_swap dest: in_set_butlastD
        set_update_subset_insert [THEN subsetD])
  have "(take cnt ids)[i := ids ! i] = take cnt ids"
    using i by (metis list_update_id nth_take)
  then show "kids (Group cap cnt ids (ptrs[i := Some n])) = ks[i := (fst (ks ! i), n)]"
    using ok i by (simp add: kids_eq [OF ok'] ks_def kids_eq [OF ok] take_update_swap map_update
        arrays_ok_def update_zip)
qed

lemma raw_iff: "arrays_ok cap cnt ids ptrs \<Longrightarrow> is_raw_group ids cnt = Some (cnt = 0)"
  by (auto simp: arrays_ok_def is_raw_group_def rd_def)

lemma set_take_insert_drop: "set (take p xs @ x # drop p xs) = insert x (set xs)"
proof -
  have "set (take p xs) \<union> set (drop p xs) = set xs"
    by (metis append_take_drop_id set_append)
  then show ?thesis
    by auto
qed

lemma sorted_insert_pos:
  assumes "sorted_wrt (<) xs" "\<not> (ins_pos xs x < length xs \<and> xs ! ins_pos xs x = x)"
  shows "sorted_wrt (<) (take (ins_pos xs x) xs @ x # drop (ins_pos xs x) xs)"
  using assms
proof (induction xs)
  case (Cons y ys)
  show ?case
  proof (cases "y < x")
    case True
    then have pos: "ins_pos (y # ys) x = Suc (ins_pos ys x)"
      by (simp add: ins_pos_def)
    then have "sorted_wrt (<) (take (ins_pos ys x) ys @ x # drop (ins_pos ys x) ys)"
      using Cons by simp
    moreover have "\<forall>z \<in> insert x (set ys). y < z"
      using True Cons.prems(1) by simp
    ultimately show ?thesis
      using set_take_insert_drop [of "ins_pos ys x" ys x] by (simp add: pos)
  next
    case False
    then have "ins_pos (y # ys) x = 0" "x < y"
      using Cons.prems(2) by (auto simp: ins_pos_def)
    then show ?thesis
      using Cons.prems(1) by (auto intro: order.strict_trans)
  qed
qed (simp add: ins_pos_def)

lemma alloc_nr_room: "cap < 43689 \<Longrightarrow> alloc_nr cap < 65536 \<and> cap < alloc_nr cap"
  by (auto simp: alloc_nr_def)

text \<open>\<open>group_node_expand\<close> opens a gap at \<open>i\<close>, in place or in freshly allocated larger arrays.\<close>

lemma expand_gap:
  fixes ids :: "oid_t list"
  assumes ok: "arrays_ok cap cnt ids ptrs" and cnt: "0 < cnt" "cnt < 43689" and i: "i \<le> cnt"
  shows "\<exists>cap' ids1 ptrs1. group_node_expand cap cnt ids ptrs i = Some (cap', ids1, ptrs1) \<and>
      cnt < cap' \<and> cap' < 65536 \<and> length ids1 = cap' \<and> length ptrs1 = cap' \<and>
      (\<forall>x. take (Suc cnt) (ids1[i := x]) = take i (take cnt ids) @ x # drop i (take cnt ids)) \<and>
      (\<forall>x. take (Suc cnt) (ptrs1[i := x]) = take i (take cnt ptrs) @ x # drop i (take cnt ptrs))"
proof -
  have arr: "length ids = cap" "length ptrs = cap" "cnt \<le> cap" "cap < 65536"
    using ok by (auto simp: arrays_ok_def)
  show ?thesis
  proof (cases "cnt + 1 > cap")
    case True
    then have cap: "cap = cnt"
      using arr by simp
    then have room: "alloc_nr cap < 65536" "cnt < alloc_nr cap"
      using alloc_nr_room [of cap] cnt by auto
    then show ?thesis
      using expand_copy_insert [of i cnt ids "replicate (alloc_nr cap) 0"]
        expand_copy_insert [of i cnt ptrs "replicate (alloc_nr cap) None"] i arr cnt True
      by (auto simp: group_node_expand_def raw_iff [OF ok] uint16_def)
  next
    case False
    then show ?thesis
      using shift_right_insert [of i cnt ids] shift_right_insert [of i cnt ptrs] i arr cnt
      by (auto simp: group_node_expand_def raw_iff [OF ok])
  qed
qed

text \<open>A group node with sub-nodes, in which \<open>x\<close> is not found: \<open>group_node_expand\<close> makes room at
  the right position.\<close>

lemma expand_kid:
  fixes x :: oid_t
  assumes ok: "arrays_ok cap cnt ids ptrs" and cnt: "0 < cnt" "cnt < 43689"
  defines "ks \<equiv> kids (Group cap cnt ids ptrs)"
  defines "i \<equiv> kid_pos ks x"
  assumes new: "\<not> has_kid ks x"
  shows "\<exists>cap' ids1 ptrs1. group_node_expand cap cnt ids ptrs i = Some (cap', ids1, ptrs1) \<and>
    i < length ids1 \<and> i < length ptrs1 \<and>
    (\<forall>n. arrays_ok cap' (Suc cnt) (ids1[i := x]) (ptrs1[i := Some n]) \<and>
      kids (Group cap' (Suc cnt) (ids1[i := x]) (ptrs1[i := Some n])) = take i ks @ (x, n) # drop i ks)"
proof -
  note kids = arrays_kids [OF ok, folded ks_def]
  have i: "i \<le> cnt"
    using kid_pos_le [of ks x] kids(1) by (simp add: i_def)
  have arr: "length ids = cap" "length ptrs = cap" "cnt \<le> cap" "cap < 65536"
    using ok by (auto simp: arrays_ok_def)
  obtain cap' ids1 ptrs1 where
    exp: "group_node_expand cap cnt ids ptrs i = Some (cap', ids1, ptrs1)"
    and sz: "cnt < cap'" "cap' < 65536" "length ids1 = cap'" "length ptrs1 = cap'"
    and ids1: "\<And>x. take (Suc cnt) (ids1[i := x]) = take i (take cnt ids) @ x # drop i (take cnt ids)"
    and ptrs1: "\<And>x. take (Suc cnt) (ptrs1[i := x]) = take i (take cnt ptrs) @ x # drop i (take cnt ptrs)"
    using expand_gap [OF ok cnt i] by blast
  have srt: "sorted_wrt (<) (take i (take cnt ids) @ x # drop i (take cnt ids))"
  proof -
    have "\<not> (i < length (map fst ks) \<and> map fst ks ! i = x)"
      using new by (auto simp: has_kid_def i_def)
    from sorted_insert_pos [OF kids(3) this [unfolded i_def kid_pos_def]] show ?thesis
      unfolding i_def kid_pos_def kids(2) .
  qed
  have nn: "None \<notin> set (take i (take cnt ptrs) @ Some n # drop i (take cnt ptrs))" for n
    using ok unfolding set_take_insert_drop by (auto simp: arrays_ok_def)
  have ok': "arrays_ok cap' (Suc cnt) (ids1[i := x]) (ptrs1[i := Some n])" for n
    unfolding arrays_ok_def ids1 ptrs1 using sz srt nn by auto
  have "kids (Group cap' (Suc cnt) (ids1[i := x]) (ptrs1[i := Some n]))
      = take i ks @ (x, n) # drop i ks" for n
    unfolding kids_eq [OF ok'] ids1 ptrs1 using i arr
    by (simp add: ks_def kids_eq [OF ok] take_zip drop_zip take_map drop_map)
  then show ?thesis
    using exp sz i ok' by auto
qed


section \<open>Registration\<close>

text \<open>One step of the descent, in terms of the sub-nodes.\<close>

lemma insert_found:
  assumes ok: "arrays_ok cap cnt ids ptrs"
  defines "ks \<equiv> kids (Group cap cnt ids ptrs)"
  assumes found: "has_kid ks x"
    and rec: "mib_tree_instance_insert (snd (ks ! kid_pos ks x)) oid cb = Some (child, r)"
  shows "mib_tree_instance_insert (Group cap cnt ids ptrs) (x # oid) cb =
    Some (Group cap cnt ids (ptrs[kid_pos ks x := Some child]), r)"
proof -
  have i: "kid_pos ks x < cnt"
    using found arrays_kids(1) [OF ok] by (simp add: has_kid_def ks_def)
  then have "cnt \<noteq> 0" "kid_pos ks x < length ptrs"
    using ok by (auto simp: arrays_ok_def)
  moreover have "ptrs ! kid_pos ks x = Some (snd (ks ! kid_pos ks x))"
    using arrays_kids(4) [OF ok i] by (simp add: ks_def)
  ultimately show ?thesis
    using found rec search_kids [OF ok, of x, folded ks_def]
    by (simp add: raw_iff [OF ok] rd_def upd_def)
qed

abbreviation new_child :: "oid \<Rightarrow> int \<Rightarrow> (mib_node \<times> bool) option" where
  "new_child oid cb \<equiv> if oid = [] then Some (mib_instance_node_new cb, True)
     else mib_tree_instance_insert mib_group_node_new oid cb"

lemma insert_new:
  fixes x :: oid_t
  assumes ok: "arrays_ok cap cnt ids ptrs" and cnt: "cnt < 43689"
  defines "ks \<equiv> kids (Group cap cnt ids ptrs)"
  assumes new: "\<not> has_kid ks x" and rec: "new_child oid cb = Some (child, r)"
  shows "\<exists>cap' ids' ptrs'. mib_tree_instance_insert (Group cap cnt ids ptrs) (x # oid) cb =
      Some (Group cap' (Suc cnt) ids' ptrs', r) \<and> arrays_ok cap' (Suc cnt) ids' ptrs' \<and>
      kids (Group cap' (Suc cnt) ids' ptrs') = take (kid_pos ks x) ks @ (x, child) # drop (kid_pos ks x) ks"
proof (cases "cnt = 0")
  case True
  then have raw: "is_raw_group ids cnt = Some True"
    using raw_iff [OF ok] by simp
  have "0 < length ids" "0 < length ptrs" "1 \<le> cap" "cap < 65536" "length ids = cap" "length ptrs = cap"
    using ok by (auto simp: arrays_ok_def)
  then have ok': "arrays_ok cap 1 (ids[0 := x]) (ptrs[0 := Some child])"
    by (cases ids; cases ptrs) (auto simp: arrays_ok_def)
  moreover have "ks = []"
    using True arrays_kids(1) [OF ok] by (simp add: ks_def)
  moreover have "kids (Group cap 1 (ids[0 := x]) (ptrs[0 := Some child])) = [(x, child)]"
    using ok' by (cases ids; cases ptrs) (auto simp: kids_eq arrays_ok_def)
  moreover have "mib_tree_instance_insert (Group cap cnt ids ptrs) (x # oid) cb =
      Some (Group cap 1 (ids[0 := x]) (ptrs[0 := Some child]), r)"
    using True rec raw \<open>0 < length ids\<close> \<open>0 < length ptrs\<close>
    by (simp add: upd_def uint16_def)
  ultimately show ?thesis
    using True by (auto simp: kid_pos_def)
next
  case False
  obtain cap' ids1 ptrs1 where e:
    "group_node_expand cap cnt ids ptrs (kid_pos ks x) = Some (cap', ids1, ptrs1)"
    "kid_pos ks x < length ids1" "kid_pos ks x < length ptrs1"
    "\<And>n. arrays_ok cap' (Suc cnt) (ids1[kid_pos ks x := x]) (ptrs1[kid_pos ks x := Some n]) \<and>
      kids (Group cap' (Suc cnt) (ids1[kid_pos ks x := x]) (ptrs1[kid_pos ks x := Some n]))
        = take (kid_pos ks x) ks @ (x, n) # drop (kid_pos ks x) ks"
    using expand_kid [OF ok _ cnt, of x, folded ks_def] False new by auto
  have "mib_tree_instance_insert (Group cap cnt ids ptrs) (x # oid) cb =
      Some (Group cap' (Suc cnt) (ids1[kid_pos ks x := x]) (ptrs1[kid_pos ks x := Some child]), r)"
    using False new rec search_kids [OF ok, of x, folded ks_def] e(1-3) cnt
    by (simp add: raw_iff [OF ok] upd_def uint16_def)
  then show ?thesis
    using e(4) by blast
qed

text \<open>How wide the groups of a tree are.\<close>

fun width_le :: "nat \<Rightarrow> mib_node \<Rightarrow> bool" where
  "width_le k g = (case g of
      Instance c \<Rightarrow> True
    | Group cap cnt ids ptrs \<Rightarrow> cnt \<le> k \<and> list_all (\<lambda>(x, n). width_le k n) (kids g))"

declare width_le.simps [simp del]

lemma width_Instance [simp]: "width_le k (Instance c)"
  by (subst width_le.simps) simp

lemma width_Group:
  "width_le k (Group cap cnt ids ptrs) \<longleftrightarrow> cnt \<le> k \<and>
     (\<forall>x n. (x, n) \<in> set (kids (Group cap cnt ids ptrs)) \<longrightarrow> width_le k n)"
  by (subst width_le.simps) (auto simp: list_all_iff)

text \<open>The node a path of sub-identifiers leads to.\<close>

fun node_of :: "mib_node \<Rightarrow> oid \<Rightarrow> mib_node option" where
  "node_of n [] = Some n"
| "node_of n (x # oid) = do { m \<leftarrow> map_of (kids n) x; node_of m oid }"

lemma map_of_kid:
  assumes "sorted_wrt (<) (map fst ks)"
  shows "map_of ks x = (if has_kid ks x then Some (snd (ks ! kid_pos ks x)) else None)"
proof -
  have "distinct (map fst ks)"
    using assms strict_sorted_iff by blast
  then show ?thesis
    using has_kid_iff [OF assms, of x]
    by (auto simp: has_kid_def map_of_eq_None_iff) (metis nth_mem prod.collapse map_of_is_SomeI)+
qed

lemma kids_new: "kids mib_group_node_new = []" "arrays_ok 1 0 [0] [None]"
  by (simp_all add: mib_group_node_new_def arrays_ok_def kids.simps)

text \<open>The chain of groups made for the rest of an identifier.\<close>

lemma new_child_ok:
  "\<exists>n. new_child oid cb = Some (n, True) \<and> wf_node n \<and> insts n = [(oid, cb)] \<and>
     height n = length oid \<and> width_le 1 n"
proof (induction oid)
  case Nil
  then show ?case
    by (simp add: mib_instance_node_new_def)
next
  case (Cons x oid)
  then obtain n where n: "new_child oid cb = Some (n, True)" "wf_node n" "insts n = [(oid, cb)]"
    "height n = length oid" "width_le 1 n"
    by blast
  have "\<not> has_kid (kids (Group 1 0 [0] [None])) x"
    using kids_new(1) by (simp add: has_kid_def mib_group_node_new_def)
  then obtain cap' ids' ptrs' where g:
    "mib_tree_instance_insert mib_group_node_new (x # oid) cb = Some (Group cap' 1 ids' ptrs', True)"
    "arrays_ok cap' 1 ids' ptrs'" "kids (Group cap' 1 ids' ptrs') = [(x, n)]"
    using insert_new [OF kids_new(2) _ _ n(1), of x] kids_new(1) by (auto simp: mib_group_node_new_def)
  have "height (Group cap' 1 ids' ptrs') = Suc (length oid)"
    using n(4) by (subst height.simps) (simp add: g(3) [unfolded One_nat_def])
  then show ?case
    using g n by (auto simp: wf_Group insts_Group width_Group)
qed

text \<open>Where an identifier can be registered: no node is there, and no instance above.\<close>

fun reg_free :: "mib_node \<Rightarrow> oid \<Rightarrow> bool" where
  "reg_free n [] = False"
| "reg_free (Instance c) (x # oid) = False"
| "reg_free (Group cap cnt ids ptrs) (x # oid) =
     (case map_of (kids (Group cap cnt ids ptrs)) x of None \<Rightarrow> True | Some m \<Rightarrow> reg_free m oid)"

lemma split_kid:
  assumes "has_kid ks x"
  shows "ks = take (kid_pos ks x) ks @ (x, snd (ks ! kid_pos ks x)) # drop (Suc (kid_pos ks x)) ks"
    "ks[kid_pos ks x := (fst (ks ! kid_pos ks x), n)] =
       take (kid_pos ks x) ks @ (x, n) # drop (Suc (kid_pos ks x)) ks"
proof -
  have "kid_pos ks x < length ks" "ks ! kid_pos ks x = (x, snd (ks ! kid_pos ks x))"
    using assms by (auto simp: has_kid_def prod_eq_iff)
  then show "ks = take (kid_pos ks x) ks @ (x, snd (ks ! kid_pos ks x)) # drop (Suc (kid_pos ks x)) ks"
    "ks[kid_pos ks x := (fst (ks ! kid_pos ks x), n)] =
       take (kid_pos ks x) ks @ (x, n) # drop (Suc (kid_pos ks x)) ks"
    using id_take_nth_drop [of "kid_pos ks x" ks] assms
    by (auto simp: upd_conv_take_nth_drop has_kid_def)
qed

abbreviation insts_of :: "(oid_t \<times> mib_node) list \<Rightarrow> (oid \<times> int) list" where
  "insts_of ks \<equiv> concat (map (\<lambda>(x, n). map (\<lambda>(p, c). (x # p, c)) (insts n)) ks)"

text \<open>What registration does to a well-formed tree.\<close>

definition reg_result :: "nat \<Rightarrow> mib_node \<Rightarrow> oid \<Rightarrow> int \<Rightarrow> mib_node \<Rightarrow> bool \<Rightarrow> bool" where
  "reg_result k n oid cb n' r \<longleftrightarrow>
     wf_node n' \<and> width_le (Suc k) n' \<and> height n' \<le> max (height n) (length oid) \<and> r = reg_free n oid \<and>
     (if r then \<exists>ys zs. insts n = ys @ zs \<and> insts n' = ys @ (oid, cb) # zs else n' = n)"

lemma width_mono: "width_le k n \<Longrightarrow> k \<le> l \<Longrightarrow> width_le l n"
proof (induction n rule: kids_induct)
  case (Node g)
  then show ?case
    by (cases g) (auto simp: width_Group intro: order_trans)
qed

lemma height_kid:
  assumes "(x, n) \<in> set (kids g)"
  shows "height n < height g"
proof (cases g)
  case (Group cap cnt ids ptrs)
  then show ?thesis
    using assms height_Group_le [of cap cnt ids ptrs "height g - 1"] height_Group_pos [of cap cnt ids ptrs]
    by (auto simp: Suc_le_eq) (metis Suc_pred less_Suc_eq_le order_refl)
qed (use assms in simp)

text \<open>A group whose sub-nodes are those of \<open>g\<close>, but for one.\<close>

lemma rebuild_ok:
  assumes g: "wf_node g" "width_le k g" "kids g = as @ ms @ bs"
    and ok: "arrays_ok cap cnt ids ptrs" "cnt \<le> Suc k"
    and ks: "kids (Group cap cnt ids ptrs) = as @ (x, m) # bs"
    and m: "wf_node m" "width_le (Suc k) m" "Suc (height m) \<le> max (height g) (Suc l)"
  shows "wf_node (Group cap cnt ids ptrs)" "width_le (Suc k) (Group cap cnt ids ptrs)"
    "height (Group cap cnt ids ptrs) \<le> max (height g) (Suc l)"
proof -
  have old: "wf_node n \<and> width_le (Suc k) n \<and> height n < height g" if "(y, n) \<in> set as \<union> set bs" for y n
  proof -
    have "(y, n) \<in> set (kids g)"
      using that g(3) by auto
    then show ?thesis
      using g(1,2) by (cases g) (auto simp: wf_Group width_Group height_kid intro: width_mono [of k])
  qed
  show "wf_node (Group cap cnt ids ptrs)" "width_le (Suc k) (Group cap cnt ids ptrs)"
    using ok m old by (auto simp: wf_Group width_Group ks)
  obtain b where b: "max (height g) (Suc l) = Suc b"
    by (cases "max (height g) (Suc l)") auto
  have "height n \<le> b" if "(y, n) \<in> set as \<union> set bs" for y n
    using old [OF that] b by linarith
  then show "height (Group cap cnt ids ptrs) \<le> max (height g) (Suc l)"
    using m(3) unfolding b height_Group_le ks by auto
qed

lemma insert_ok_found:
  assumes g: "wf_node g" "width_le k g" "g = Group cap cnt ids ptrs"
    and kid: "has_kid (kids g) x"
  defines "m \<equiv> snd (kids g ! kid_pos (kids g) x)"
  assumes rec: "mib_tree_instance_insert m oid cb = Some (m', r)" "reg_result k m oid cb m' r"
  shows "\<exists>g'. mib_tree_instance_insert g (x # oid) cb = Some (g', r) \<and> reg_result k g (x # oid) cb g' r"
proof -
  let ?i = "kid_pos (kids g) x"
  let ?g' = "Group cap cnt ids (ptrs[?i := Some m'])"
  have ok: "arrays_ok cap cnt ids ptrs" "cnt \<le> k"
    using g by (auto simp: wf_Group width_Group)
  have i: "?i < cnt"
    using kid arrays_kids(1) [OF ok(1)] by (simp add: has_kid_def g(3))
  note sp = split_kid [OF kid, folded m_def]
  have ok': "arrays_ok cap cnt ids (ptrs[?i := Some m'])"
    and ks': "kids ?g' = take ?i (kids g) @ (x, m') # drop (Suc ?i) (kids g)"
    using set_kid [OF ok(1) i, of m'] sp(2) by (simp_all add: g(3))
  have "(x, m) \<in> set (kids g)"
    by (subst sp(1)) simp
  then have hm: "Suc (height m') \<le> max (height g) (Suc (length oid))"
    using rec(2) height_kid [of x m g] by (auto simp: reg_result_def)
  have "if r then \<exists>ys zs. insts g = ys @ zs \<and> insts ?g' = ys @ (x # oid, cb) # zs else ?g' = g"
  proof (cases r)
    case True
    then obtain ys zs where yz: "insts m = ys @ zs" "insts m' = ys @ (oid, cb) # zs"
      using rec(2) by (auto simp: reg_result_def)
    have "insts g = insts_of (take ?i (kids g) @ (x, m) # drop (Suc ?i) (kids g))"
      using sp(1) by (simp add: g(3) insts_Group)
    then have "insts g = (insts_of (take ?i (kids g)) @ map (\<lambda>(p, c). (x # p, c)) ys) @
          map (\<lambda>(p, c). (x # p, c)) zs @ insts_of (drop (Suc ?i) (kids g))"
      "insts ?g' = (insts_of (take ?i (kids g)) @ map (\<lambda>(p, c). (x # p, c)) ys) @
          (x # oid, cb) # map (\<lambda>(p, c). (x # p, c)) zs @ insts_of (drop (Suc ?i) (kids g))"
      by (simp_all add: insts_Group ks' yz)
    then show ?thesis
      unfolding if_P [OF True] by blast
  next
    case False
    then show ?thesis
      using rec(2) arrays_kids(4) [OF ok(1) i] list_update_id [of ptrs ?i]
      by (simp add: reg_result_def m_def g(3))
  qed
  moreover have "reg_free g (x # oid) = reg_free m oid"
    using kid arrays_kids(3) [OF ok(1)] by (simp add: g(3) map_of_kid m_def)
  ultimately show ?thesis
    using insert_found [OF ok(1), folded g(3), OF kid, folded m_def, OF rec(1)] rec(2) hm
      rebuild_ok [OF g(1,2) _ ok' _ ks' _ _ hm, of "[(x, m)]"] sp(1) ok(2)
    by (auto simp: reg_result_def)
qed

lemma insert_ok_new:
  assumes g: "wf_node g" "width_le k g" "g = Group cap cnt ids ptrs" "k < 43689"
    and kid: "\<not> has_kid (kids g) x"
  shows "\<exists>g'. mib_tree_instance_insert g (x # oid) cb = Some (g', True) \<and> reg_result k g (x # oid) cb g' True"
proof -
  let ?i = "kid_pos (kids g) x"
  obtain m where m: "new_child oid cb = Some (m, True)" "wf_node m" "insts m = [(oid, cb)]"
    "height m = length oid" "width_le 1 m"
    using new_child_ok by blast
  have ok: "arrays_ok cap cnt ids ptrs" "cnt \<le> k" "cnt < 43689"
    using g by (auto simp: wf_Group width_Group)
  obtain cap' ids' ptrs' where g':
    "mib_tree_instance_insert g (x # oid) cb = Some (Group cap' (Suc cnt) ids' ptrs', True)"
    "arrays_ok cap' (Suc cnt) ids' ptrs'"
    "kids (Group cap' (Suc cnt) ids' ptrs') = take ?i (kids g) @ (x, m) # drop ?i (kids g)"
    using insert_new [OF ok(1,3) _ m(1), of x] kid by (auto simp: g(3))
  have I: "insts g = insts_of (take ?i (kids g)) @ insts_of (drop ?i (kids g))"
    by (simp add: g(3) insts_Group flip: concat_append map_append)
  moreover have "insts (Group cap' (Suc cnt) ids' ptrs') =
      insts_of (take ?i (kids g)) @ (x # oid, cb) # insts_of (drop ?i (kids g))"
    by (simp add: insts_Group g'(3) m(3))
  ultimately have "\<exists>ys zs. insts g = ys @ zs \<and> insts (Group cap' (Suc cnt) ids' ptrs') = ys @ (x # oid, cb) # zs"
    by blast
  moreover have "reg_free g (x # oid)"
    using kid arrays_kids(3) [OF ok(1)] by (simp add: g(3) map_of_kid)
  moreover have "width_le (Suc k) m"
    using m(5) width_mono [of 1 m "Suc k"] by simp
  ultimately show ?thesis
    using g'(1) rebuild_ok [OF g(1,2) _ g'(2) _ g'(3) m(2), of "[]" "length oid"] ok(2) m(4)
    by (auto simp: reg_result_def)
qed

lemma insert_ok:
  assumes "wf_node n" "width_le k n" "k < 43689"
  shows "\<exists>n' r. mib_tree_instance_insert n oid cb = Some (n', r) \<and> reg_result k n oid cb n' r"
  using assms
proof (induction oid arbitrary: n)
  case Nil
  then show ?case
    using width_mono [of k n "Suc k"] by (auto simp: reg_result_def intro!: exI [of _ False])
next
  case (Cons x oid)
  show ?case
  proof (cases n)
    case (Instance c)
    then show ?thesis
      by (auto simp: reg_result_def intro!: exI [of _ False])
  next
    case n: (Group cap cnt ids ptrs)
    show ?thesis
    proof (cases "has_kid (kids n) x")
      case True
      then have "(x, snd (kids n ! kid_pos (kids n) x)) \<in> set (kids n)"
        by (metis has_kid_def nth_mem prod.collapse)
      then have "wf_node (snd (kids n ! kid_pos (kids n) x))" "width_le k (snd (kids n ! kid_pos (kids n) x))"
        using Cons.prems by (auto simp: n wf_Group width_Group)
      then show ?thesis
        using Cons.IH Cons.prems(3) insert_ok_found [OF Cons.prems(1,2) n True] by blast
    qed (use insert_ok_new Cons.prems n in blast)
  qed
qed


section \<open>Order of the instances\<close>

text \<open>The instances of a well-formed tree are sorted by their identifiers, and no identifier is a
  prefix of another.\<close>

lemma sorted_insts_of:
  assumes "sorted_wrt (<) (map fst ks)" "\<And>x n. (x, n) \<in> set ks \<Longrightarrow> sorted_wrt (<) (map fst (insts n))"
  shows "sorted_wrt (<) (map fst (insts_of ks))"
  using assms
proof (induction ks)
  case (Cons k ks)
  obtain x n where k: "k = (x, n)"
    by fastforce
  have "map fst (insts_of (k # ks)) = map (Cons x) (map fst (insts n)) @ map fst (insts_of ks)"
    by (simp add: k comp_def case_prod_beta')
  moreover have "sorted_wrt (<) (map (Cons x) (map fst (insts n)))"
    using Cons.prems(2) [of x n] by (simp add: k sorted_wrt_map)
  moreover have "sorted_wrt (<) (map fst (insts_of ks))"
    by (rule Cons.IH) (use Cons.prems in auto)
  moreover have "\<forall>q \<in> set (map fst (insts_of ks)). \<forall>p. x # p < q"
    using Cons.prems(1) by (fastforce simp: k)
  ultimately show ?case
    by (simp only: sorted_wrt_append) simp
qed simp

lemma insts_sorted: "wf_node n \<Longrightarrow> sorted_wrt (<) (map fst (insts n))"
proof (induction n rule: kids_induct)
  case (Node g)
  then show ?case
    by (cases g) (auto simp: wf_Group insts_Group intro!: sorted_insts_of arrays_kids(3))
qed

lemma insts_antichain:
  assumes "wf_node n" "(p, c) \<in> set (insts n)" "(q, d) \<in> set (insts n)" "prefix p q"
  shows "p = q"
  using assms
proof (induction n arbitrary: p q rule: kids_induct)
  case (Node g)
  show ?case
  proof (cases g)
    case g: (Group cap cnt ids ptrs)
    from Node.prems obtain x n p' y m q' where x: "(x, n) \<in> set (kids g)" "(p', c) \<in> set (insts n)" "p = x # p'"
      and y: "(y, m) \<in> set (kids g)" "(q', d) \<in> set (insts m)" "q = y # q'"
      by (auto simp: g insts_Group)
    have "distinct (map fst (kids g))"
      using Node.prems(1) arrays_kids(3) [of cap cnt ids ptrs] strict_sorted_iff
      by (auto simp: g wf_Group)
    then have "n = m" "x = y"
      using x y Node.prems(4) by (auto dest: eq_key_imp_eq_value)
    then show ?thesis
      using Node.IH [OF x(1), of p' q'] Node.prems x y by (auto simp: g wf_Group)
  qed (use Node.prems in auto)
qed

text \<open>\<open>insts\<close> lists the instances by their paths.\<close>

lemma insts_node_of:
  "wf_node n \<Longrightarrow> (p, c) \<in> set (insts n) \<longleftrightarrow> node_of n p = Some (Instance c)"
proof (induction p arbitrary: n)
  case Nil
  then show ?case
    by (cases n) (auto simp: insts_Group)
next
  case (Cons x p)
  show ?case
  proof (cases n)
    case n: (Group cap cnt ids ptrs)
    have d: "distinct (map fst (kids n))"
      using Cons.prems arrays_kids(3) [of cap cnt ids ptrs] strict_sorted_iff by (auto simp: n wf_Group)
    have kwf: "wf_node m" if "(x, m) \<in> set (kids n)" for m
      using Cons.prems that by (auto simp: n wf_Group)
    have "(x # p, c) \<in> set (insts n) \<longleftrightarrow> (\<exists>m. (x, m) \<in> set (kids n) \<and> (p, c) \<in> set (insts m))"
      by (force simp: n insts_Group)
    also have "\<dots> \<longleftrightarrow> (\<exists>m. map_of (kids n) x = Some m \<and> node_of m p = Some (Instance c))"
      using d kwf Cons.IH by (auto simp: map_of_eq_Some_iff)
    finally show ?thesis
      by (auto split: bind_splits)
  qed simp
qed

text \<open>An identifier can be registered unless a node is there or an instance above it.\<close>

lemma reg_free_iff:
  "reg_free n oid \<longleftrightarrow> node_of n oid = None \<and> (\<forall>p c. prefix p oid \<longrightarrow> node_of n p \<noteq> Some (Instance c))"
proof (induction oid arbitrary: n)
  case (Cons x oid)
  show ?case
  proof (cases n)
    case (Group cap cnt ids ptrs)
    then show ?thesis
      using Cons.IH by (auto simp: prefix_Cons split: option.splits bind_splits)
  qed (auto intro!: exI [of _ "[]"])
qed auto

end
