(* ===== verification/Mib_Unreg.thy ===== *)
theory Mib_Unreg
  imports Mib_Reg
begin

text \<open>
  Deletion from the MIB tree: the traversal with its fixed-size backlog stack visits every
  instance of the deleted sub-tree once, in order, and \<open>group_node_shrink\<close> removes exactly that
  sub-tree from its parent. With \<open>Mib_Reg\<close> this gives the invariant of every sequence of
  registrations and deletions.
\<close>

section \<open>The traversal\<close>

definition backtrack :: "mib_node backlog \<Rightarrow> int list \<Rightarrow> int list option" where
  "backtrack stk freed = (case stk of [] \<Rightarrow> Some freed
     | (n, n_idx) # stk' \<Rightarrow> delete_loop (Some n) (Some n_idx) stk' freed)"

lemma delete_loop_Instance:
  "delete_loop (Some (Instance cb)) p_nbl stk freed = backtrack stk (freed @ [cb])"
  by (subst delete_loop.simps) (simp add: backtrack_def)

lemma delete_loop_None: "delete_loop None p_nbl stk freed = backtrack stk freed"
  by (subst delete_loop.simps) (simp add: backtrack_def)

lemma delete_loop_done:
  "delete_loop (Some (Group cap cnt ids ptrs)) (Some (- 1)) stk freed = backtrack stk freed"
  by (subst delete_loop.simps) (simp add: backtrack_def)

lemma delete_loop_first:
  "delete_loop (Some (Group cap cnt ids ptrs)) None stk freed =
   delete_loop (Some (Group cap cnt ids ptrs)) (Some 0) stk freed"
  by (subst (1 2) delete_loop.simps) simp

lemma delete_loop_push:
  assumes "length stk < 64" "i < length ptrs"
  shows "delete_loop (Some (Group cap cnt ids ptrs)) (Some (int i)) stk freed =
    delete_loop (ptrs ! i) None
      ((Group cap cnt ids ptrs, if Suc i < cnt then int (Suc i) else - 1) # stk) freed"
proof -
  have "(if int i + 1 \<ge> int cnt then - 1 else int i + 1) = (if Suc i < cnt then int (Suc i) else - 1)"
    by auto
  then show ?thesis
    using assms by (subst delete_loop.simps) (simp add: rd_def nbl_push_def MIB_OID_MAX_LEN_def del: of_nat_Suc)
qed

lemma delete_loop_kids:
  assumes ok: "arrays_ok cap cnt ids ptrs" "length stk < 64" "i < cnt"
  defines "ks \<equiv> kids (Group cap cnt ids ptrs)"
  assumes IH: "\<And>y m stk' freed. (y, m) \<in> set ks \<Longrightarrow> length stk' = Suc (length stk) \<Longrightarrow>
      delete_loop (Some m) None stk' freed = backtrack stk' (freed @ map snd (insts m))"
  shows "delete_loop (Some (Group cap cnt ids ptrs)) (Some (int i)) stk freed =
    backtrack stk (freed @ map snd (insts_of (drop i ks)))"
  using ok(3)
proof (induction "cnt - i" arbitrary: i freed rule: less_induct)
  case (less i)
  note kids = arrays_kids [OF ok(1), folded ks_def]
  have i: "i < length ptrs" "i < length ks"
    using less.prems ok(1) kids(1) by (auto simp: arrays_ok_def)
  have mem: "ks ! i \<in> set ks"
    using i(2) by simp
  have d: "drop i ks = ks ! i # drop (Suc i) ks"
    using i(2) by (simp add: Cons_nth_drop_Suc)
  have "delete_loop (Some (Group cap cnt ids ptrs)) (Some (int i)) stk freed =
      backtrack ((Group cap cnt ids ptrs, if Suc i < cnt then int (Suc i) else - 1) # stk)
        (freed @ map snd (insts (snd (ks ! i))))"
    unfolding delete_loop_push [OF ok(2) i(1)] kids(4) [OF less.prems]
    by (rule IH [of "fst (ks ! i)"]) (use mem in auto)
  then show ?case
    using less.hyps [of "Suc i"] less.prems kids(1)
    by (auto simp: backtrack_def [of "_ # _"] delete_loop_done d case_prod_beta comp_def
        simp del: of_nat_Suc)
qed

lemma delete_loop_insts:
  assumes "wf_node n" "height n + length stk \<le> 64"
  shows "delete_loop (Some n) None stk freed = backtrack stk (freed @ map snd (insts n))"
  using assms
proof (induction n arbitrary: stk freed rule: kids_induct)
  case (Node g)
  show ?case
  proof (cases g)
    case (Instance c)
    then show ?thesis
      by (simp add: delete_loop_Instance)
  next
    case g: (Group cap cnt ids ptrs)
    have ok: "arrays_ok cap cnt ids ptrs" and stk: "length stk < 64"
      using Node.prems height_Group_pos [of cap cnt ids ptrs] by (auto simp: g wf_Group)
    show ?thesis
    proof (cases "cnt = 0")
      case True
      then have "0 < length ptrs" "ptrs ! 0 = None" "kids g = []"
        using ok arrays_kids(1) [OF ok] by (auto simp: arrays_ok_def g)
      then show ?thesis
        using True stk delete_loop_push [of stk 0 ptrs cap cnt ids freed]
        by (simp add: g delete_loop_first delete_loop_None backtrack_def [of "_ # _"]
            delete_loop_done insts_Group)
    next
      case False
      have "delete_loop (Some m) None stk' freed = backtrack stk' (freed @ map snd (insts m))"
        if "(y, m) \<in> set (kids g)" "length stk' = Suc (length stk)" for y m stk' freed
        using Node.IH [OF that(1)] Node.prems that height_kid [OF that(1)] by (auto simp: g wf_Group)
      then show ?thesis
        using delete_loop_kids [OF ok stk, of 0 freed, folded g] False
        by (simp add: g delete_loop_first insts_Group)
    qed
  qed
qed


section \<open>Removing a sub-node\<close>

lemma shrink_kid:
  assumes ok: "arrays_ok cap cnt ids ptrs" and i: "i < cnt"
  defines "ks \<equiv> kids (Group cap cnt ids ptrs)"
  shows "\<exists>cnt' ids' ptrs'. group_node_shrink (Group cap cnt ids ptrs) i = Some (Group cap cnt' ids' ptrs') \<and>
    arrays_ok cap cnt' ids' ptrs' \<and> cnt' < cnt \<and>
    kids (Group cap cnt' ids' ptrs') = take i ks @ drop (Suc i) ks"
proof (cases "cnt > 1")
  case True
  have len: "length ids = cap" "length ptrs = cap" "cnt \<le> cap"
    using ok by (auto simp: arrays_ok_def)
  obtain ids' where ids': "shift_left ids i (cnt - 1) = Some ids'" "length ids' = cap"
    "take (cnt - 1) ids' = take i (take cnt ids) @ drop (Suc i) (take cnt ids)"
    using shift_left_remove [of i "cnt - 1" ids] i len True by (auto simp: le_diff_conv2 less_eq_Suc_le)
  obtain ptrs' where ptrs': "shift_left ptrs i (cnt - 1) = Some ptrs'" "length ptrs' = cap"
    "take (cnt - 1) ptrs' = take i (take cnt ptrs) @ drop (Suc i) (take cnt ptrs)"
    using shift_left_remove [of i "cnt - 1" ptrs] i len True by (auto simp: le_diff_conv2 less_eq_Suc_le)
  have "sorted_wrt (<) (take i (take cnt ids) @ drop (Suc i) (take cnt ids))"
  proof -
    have "sorted_wrt (<) (take i (take cnt ids) @ drop i (take cnt ids))"
      using ok unfolding append_take_drop_id by (simp add: arrays_ok_def)
    moreover have "drop i (take cnt ids) = ids ! i # drop (Suc i) (take cnt ids)"
      using i len Cons_nth_drop_Suc [of i "take cnt ids"] by simp
    ultimately show ?thesis
      by (simp add: sorted_wrt_append)
  qed
  moreover have "None \<notin> set (take i (take cnt ptrs) @ drop (Suc i) (take cnt ptrs))"
    using ok unfolding arrays_ok_def set_append by (auto simp del: take_take dest: in_set_takeD in_set_dropD)
  ultimately have ok': "arrays_ok cap (cnt - 1) ids' ptrs'"
    unfolding arrays_ok_def ids'(3) ptrs'(3) using ok len True ids'(2) ptrs'(2)
    by (auto simp: arrays_ok_def)
  moreover have "kids (Group cap (cnt - 1) ids' ptrs') = take i ks @ drop (Suc i) ks"
    unfolding kids_eq [OF ok'] ids'(3) ptrs'(3) ks_def kids_eq [OF ok] using i len
    by (simp add: take_zip drop_zip take_map drop_map)
  moreover have "group_node_shrink (Group cap cnt ids ptrs) i = Some (Group cap (cnt - 1) ids' ptrs')"
    using True ids'(1) ptrs'(1) by simp
  moreover have "cnt - 1 < cnt"
    using True by simp
  ultimately show ?thesis
    by blast
next
  case False
  then have "cnt = 1" "i = 0" "length ks = 1"
    using i arrays_kids(1) [OF ok] by (auto simp: ks_def)
  moreover have "0 < length ids" "0 < length ptrs"
    using ok by (auto simp: arrays_ok_def)
  ultimately show ?thesis
    using ok by (auto simp: upd_def arrays_ok_def kids.simps)
qed


section \<open>Finding the node to delete\<close>

text \<open>The sub-identifiers and array indices on the way to the node \<open>mib_tree_node_search\<close> finds: the
  node at the identifier, or the instance just above it.\<close>

fun locate :: "mib_node \<Rightarrow> oid \<Rightarrow> (oid_t \<times> nat) list option" where
  "locate n [] = Some []"
| "locate (Instance c) (x # oid) = (if oid = [] then Some [] else None)"
| "locate (Group cap cnt ids ptrs) (x # oid) =
     (let ks = kids (Group cap cnt ids ptrs) in
      case map_of ks x of None \<Rightarrow> None
      | Some m \<Rightarrow> map_option (Cons (x, kid_pos ks x)) (locate m oid))"

lemma kid_of:
  assumes "arrays_ok cap cnt ids ptrs" "map_of (kids (Group cap cnt ids ptrs)) x = Some m"
  defines "ks \<equiv> kids (Group cap cnt ids ptrs)"
  shows "has_kid ks x" "kid_pos ks x < cnt" "kid_pos ks x < length ptrs" "ks ! kid_pos ks x = (x, m)"
    "ptrs ! kid_pos ks x = Some m" "(x, m) \<in> set ks"
proof -
  note kids = arrays_kids [OF assms(1), folded ks_def]
  show h: "has_kid ks x"
    using assms(2) map_of_kid [OF kids(3), of x] by (auto simp: ks_def split: if_splits)
  then show c: "kid_pos ks x < cnt" and "ks ! kid_pos ks x = (x, m)"
    using assms(2) map_of_kid [OF kids(3), of x] kids(1)
    by (auto simp: ks_def has_kid_def prod_eq_iff)
  then show "ptrs ! kid_pos ks x = Some m" "(x, m) \<in> set ks"
    using kids(1,4) nth_mem [of "kid_pos ks x" ks] by auto
  show "kid_pos ks x < length ptrs"
    using c assms(1) by (simp add: arrays_ok_def)
qed

lemma node_search_loop_spec:
  assumes "wf_node n"
  shows "\<exists>pair. node_search_loop n path parent idx oid = Some (locate n oid \<noteq> None, pair) \<and>
    (\<forall>l. locate n oid = Some l \<longrightarrow> np_child pair = path @ map snd l \<and>
       np_parent pair = (if l = [] then parent else path @ butlast (map snd l)) \<and>
       np_idx pair = (if l = [] then idx else last (map snd l)))"
  using assms
proof (induction oid arbitrary: n path parent idx)
  case (Cons x oid)
  show ?case
  proof (cases n)
    case n: (Group cap cnt ids ptrs)
    have ok: "arrays_ok cap cnt ids ptrs"
      using Cons.prems by (simp add: n wf_Group)
    note s = search_kids [OF ok, of x, folded n]
    show ?thesis
    proof (cases "map_of (kids n) x")
      case None
      then show ?thesis
        using s arrays_kids(3) [OF ok, folded n] by (auto simp: n map_of_kid split: if_splits)
    next
      case (Some m)
      note k = kid_of [OF ok, of x m, folded n, OF Some]
      have "wf_node m"
        using Cons.prems k(6) by (auto simp: n wf_Group)
      from Cons.IH [OF this, of "path @ [kid_pos (kids n) x]" path "kid_pos (kids n) x"]
      show ?thesis
        using s k Some by (auto simp: n rd_def)
    qed
  qed auto
qed simp

text \<open>Replacing the sub-tree at a position.\<close>

lemma filter_kid:
  assumes "\<And>m'. (x, m') \<notin> set as \<union> set bs"
  shows "filter (\<lambda>(q, c). prefix (x # p) q) (insts_of (as @ (x, m) # bs)) =
      map (\<lambda>(q, c). (x # q, c)) (filter (\<lambda>(q, c). prefix p q) (insts m))"
    "filter (\<lambda>(q, c). \<not> prefix (x # p) q) (insts_of (as @ (x, m) # bs)) =
      insts_of as @ map (\<lambda>(q, c). (x # q, c)) (filter (\<lambda>(q, c). \<not> prefix p q) (insts m)) @ insts_of bs"
proof -
  have none: "\<forall>(q, c) \<in> set (insts_of ks). \<not> prefix (x # p) q" if "\<And>m'. (x, m') \<notin> set ks" for ks
    using that by auto
  have "filter (\<lambda>(q, c). prefix (x # p) q) (insts_of ks) = []"
    "filter (\<lambda>(q, c). \<not> prefix (x # p) q) (insts_of ks) = insts_of ks" if "\<And>m'. (x, m') \<notin> set ks" for ks
    using none [OF that] by (auto simp: filter_empty_conv intro!: filter_True)
  then show "filter (\<lambda>(q, c). prefix (x # p) q) (insts_of (as @ (x, m) # bs)) =
      map (\<lambda>(q, c). (x # q, c)) (filter (\<lambda>(q, c). prefix p q) (insts m))"
    "filter (\<lambda>(q, c). \<not> prefix (x # p) q) (insts_of (as @ (x, m) # bs)) =
      insts_of as @ map (\<lambda>(q, c). (x # q, c)) (filter (\<lambda>(q, c). \<not> prefix p q) (insts m)) @ insts_of bs"
    using assms by (auto simp: filter_map comp_def case_prod_beta')
qed

lemma rebuild_le:
  assumes "arrays_ok cap cnt ids ptrs" "cnt \<le> k" "0 < h"
    and "\<And>y n. (y, n) \<in> set (kids (Group cap cnt ids ptrs)) \<Longrightarrow> wf_node n \<and> width_le k n \<and> height n < h"
  shows "wf_node (Group cap cnt ids ptrs)" "width_le k (Group cap cnt ids ptrs)"
    "height (Group cap cnt ids ptrs) \<le> h"
proof -
  show "wf_node (Group cap cnt ids ptrs)" "width_le k (Group cap cnt ids ptrs)"
    using assms by (auto simp: wf_Group width_Group)
  obtain b where b: "h = Suc b"
    using assms(3) gr0_implies_Suc by blast
  show "height (Group cap cnt ids ptrs) \<le> h"
    unfolding b height_Group_le using assms(4) by (auto simp: b less_Suc_eq_le)
qed

text \<open>A group, split at one of its sub-nodes.\<close>

lemma kid_context:
  assumes g: "wf_node g" "width_le k g" "g = Group cap cnt ids ptrs" and m: "map_of (kids g) x = Some m"
  defines "as \<equiv> take (kid_pos (kids g) x) (kids g)" and "bs \<equiv> drop (Suc (kid_pos (kids g) x)) (kids g)"
  shows "arrays_ok cap cnt ids ptrs" "cnt \<le> k" "kids g = as @ (x, m) # bs" "\<And>m'. (x, m') \<notin> set as \<union> set bs"
    "wf_node m" "height m < height g"
    "\<And>y n. (y, n) \<in> set as \<union> set bs \<Longrightarrow> wf_node n \<and> width_le k n \<and> height n < height g"
proof -
  show ok: "arrays_ok cap cnt ids ptrs" "cnt \<le> k"
    using g by (auto simp: wf_Group width_Group)
  note kid = kid_of [OF ok(1), folded g(3), OF m]
  show sp: "kids g = as @ (x, m) # bs"
    unfolding as_def bs_def using split_kid(1) [OF kid(1)] kid(4) by simp
  have old: "wf_node n \<and> width_le k n \<and> height n < height g" if "(y, n) \<in> set (kids g)" for y n
    using g(1,2) that height_kid [OF that] by (auto simp: g(3) wf_Group width_Group)
  then show "wf_node m" "height m < height g"
    "\<And>y n. (y, n) \<in> set as \<union> set bs \<Longrightarrow> wf_node n \<and> width_le k n \<and> height n < height g"
    unfolding sp by auto
  have "distinct (map fst (as @ (x, m) # bs))"
    using arrays_kids(3) [OF ok(1), folded g(3)] sp strict_sorted_iff by metis
  then show "\<And>m'. (x, m') \<notin> set as \<union> set bs"
    by (auto simp: image_iff)
qed

definition delete_result :: "nat \<Rightarrow> mib_node \<Rightarrow> oid \<Rightarrow> mib_node \<Rightarrow> mib_node \<Rightarrow> bool" where
  "delete_result k g p m g' \<longleftrightarrow>
     wf_node m \<and> height m < height g \<and> wf_node g' \<and> width_le k g' \<and> height g' \<le> height g \<and>
     insts g' = filter (\<lambda>(q, c). \<not> prefix p q) (insts g) \<and>
     map snd (insts m) = map snd (filter (\<lambda>(q, c). prefix p q) (insts g))"

lemma delete_kid:
  assumes g: "wf_node g" "width_le k g" "g = Group cap cnt ids ptrs" and m: "map_of (kids g) x = Some m"
  shows "\<exists>g'. group_node_shrink g (kid_pos (kids g) x) = Some g' \<and> delete_result k g [x] m g'"
proof -
  let ?i = "kid_pos (kids g) x"
  note c = kid_context [OF assms]
  obtain cnt' ids' ptrs' where g': "group_node_shrink g ?i = Some (Group cap cnt' ids' ptrs')"
    "arrays_ok cap cnt' ids' ptrs'" "cnt' < cnt"
    "kids (Group cap cnt' ids' ptrs') = take ?i (kids g) @ drop (Suc ?i) (kids g)"
    using shrink_kid [OF c(1), of ?i] kid_of(2) [OF c(1), folded g(3), OF m] by (auto simp: g(3))
  have "cnt' \<le> k" "0 < height g"
    using g'(3) c(2) height_Group_pos by (auto simp: g(3))
  then have "wf_node (Group cap cnt' ids' ptrs')" "width_le k (Group cap cnt' ids' ptrs')"
    "height (Group cap cnt' ids' ptrs') \<le> height g"
    using rebuild_le [OF g'(2), of k "height g"] c(7) unfolding g'(4) by auto
  moreover have "insts g = insts_of (kids g)"
    by (simp add: g(3) insts_Group)
  moreover note filter_kid [OF c(4), of "[]" m, folded c(3)]
  ultimately have "delete_result k g [x] m (Group cap cnt' ids' ptrs')"
    using c(5,6) by (simp add: delete_result_def insts_Group g'(4) comp_def case_prod_beta')
  then show ?thesis
    using g'(1) by blast
qed

lemma delete_below:
  assumes g: "wf_node g" "width_le k g" "g = Group cap cnt ids ptrs" and n: "map_of (kids g) x = Some n"
    and del: "delete_result k n p m n'"
  shows "delete_result k g (x # p) m (Group cap cnt ids (ptrs[kid_pos (kids g) x := Some n']))"
    (is "delete_result k g _ m ?g'")
proof -
  let ?i = "kid_pos (kids g) x"
  note c = kid_context [OF assms(1-4)]
  note kid = kid_of [OF c(1), folded g(3), OF n]
  note s = set_kid [OF c(1) kid(2), of n', folded g(3)]
  have ks': "kids ?g' = take ?i (kids g) @ (x, n') # drop (Suc ?i) (kids g)"
    using s(2) split_kid(2) [OF kid(1), of n'] by simp
  have "0 < height g" "width_le k n'" "wf_node n'" "height n' < height g"
    using c(6) del by (auto simp: delete_result_def)
  then have "wf_node ?g'" "width_le k ?g'" "height ?g' \<le> height g"
    using rebuild_le [OF s(1) c(2), of "height g"] c(7) unfolding ks' by auto
  moreover have "insts g = insts_of (kids g)" "insts ?g' = insts_of (kids ?g')"
    by (simp_all add: g(3) insts_Group)
  moreover note filter_kid [OF c(4), of p n, folded c(3)]
  ultimately show ?thesis
    using c(6) del by (simp add: delete_result_def ks' comp_def case_prod_beta')
qed

lemma delete_at:
  assumes "wf_node g" "width_le k g" "locate g oid = Some l" "l \<noteq> []"
  shows "\<exists>m g'. node_at g (map snd l) = Some m \<and>
    shrink_at g (butlast (map snd l)) (last (map snd l)) = Some g' \<and> delete_result k g (map fst l) m g'"
  using assms
proof (induction oid arbitrary: g l)
  case (Cons x oid)
  then obtain cap cnt ids ptrs where g: "g = Group cap cnt ids ptrs"
    by (cases g) (auto split: if_splits)
  let ?i = "kid_pos (kids g) x"
  obtain n l' where n: "map_of (kids g) x = Some n" "locate n oid = Some l'" "l = (x, ?i) # l'"
    using Cons.prems(3) by (auto simp: g Let_def split: option.splits)
  have ok: "arrays_ok cap cnt ids ptrs"
    using Cons.prems(1) by (simp add: g wf_Group)
  note kid = kid_of [OF ok, folded g, OF n(1)]
  have rdp: "rd ptrs ?i = Some (Some n)"
    using kid(3,5) by (simp add: rd_def)
  show ?case
  proof (cases "l' = []")
    case True
    obtain g' where "group_node_shrink g ?i = Some g'" "delete_result k g [x] n g'"
      using delete_kid [OF Cons.prems(1,2) g n(1)] by blast
    then show ?thesis
      using True rdp n(3) by (auto simp: g)
  next
    case False
    have "wf_node n" "width_le k n"
      using Cons.prems(1,2) kid(6) by (auto simp: g wf_Group width_Group)
    from Cons.IH [OF this n(2) False] obtain m n' where rec: "node_at n (map snd l') = Some m"
      "shrink_at n (butlast (map snd l')) (last (map snd l')) = Some n'"
      "delete_result k n (map fst l') m n'"
      by blast
    show ?thesis
      using False rdp n(3) rec(1,2) delete_below [OF Cons.prems(1,2) g n(1) rec(3)] kid(3)
      by (auto simp: g upd_def)
  qed
qed simp


section \<open>The registry\<close>

text \<open>The interface other components rely on: a registry of instances, each with its identifier.
  The bound is on the number of registrations (the capacity of a group node has 16 bits).\<close>

datatype 'v reg_op = Reg oid 'v | Unreg oid

definition covering :: "(oid \<times> 'v) list \<Rightarrow> oid \<Rightarrow> (oid \<times> 'v) option" where
  "covering its oid = find (\<lambda>(p, c). prefix p oid) its"

text \<open>One operation, and a sequence of them, on a given implementation.\<close>

definition reg_step :: "('m \<Rightarrow> oid \<Rightarrow> 'v \<Rightarrow> ('m \<times> int) option) \<Rightarrow> ('m \<Rightarrow> oid \<Rightarrow> ('m \<times> 'v list) option) \<Rightarrow>
    'v reg_op \<Rightarrow> 'm \<Rightarrow> 'm option" where
  "reg_step reg unreg x m =
     (case x of Reg oid c \<Rightarrow> map_option fst (reg m oid c) | Unreg oid \<Rightarrow> map_option fst (unreg m oid))"

primrec run_ops :: "('m \<Rightarrow> oid \<Rightarrow> 'v \<Rightarrow> ('m \<times> int) option) \<Rightarrow> ('m \<Rightarrow> oid \<Rightarrow> ('m \<times> 'v list) option) \<Rightarrow>
    'v reg_op list \<Rightarrow> 'm \<Rightarrow> 'm option" where
  "run_ops reg unreg [] m = Some m"
| "run_ops reg unreg (x # xs) m = do { m' \<leftarrow> reg_step reg unreg x m; run_ops reg unreg xs m' }"

locale oid_registry =
  fixes invar :: "nat \<Rightarrow> 'm \<Rightarrow> bool"
    and items :: "'m \<Rightarrow> (oid \<times> 'v) list"
    and reg :: "'m \<Rightarrow> oid \<Rightarrow> 'v \<Rightarrow> ('m \<times> int) option"
    and unreg :: "'m \<Rightarrow> oid \<Rightarrow> ('m \<times> 'v list) option"
    and target :: "'m \<Rightarrow> oid \<Rightarrow> oid option"
    and bound :: nat
  assumes invar_mono: "invar k m \<Longrightarrow> k \<le> l \<Longrightarrow> invar l m"
    and items_sorted: "invar k m \<Longrightarrow> sorted_wrt (<) (map fst (items m))"
    and items_antichain: "invar k m \<Longrightarrow> (p, c) \<in> set (items m) \<Longrightarrow> (q, d) \<in> set (items m) \<Longrightarrow> prefix p q \<Longrightarrow> p = q"
    and reg_ok: "invar k m \<Longrightarrow> k < bound \<Longrightarrow> \<exists>m' rc. reg m oid c = Some (m', rc) \<and> invar (Suc k) m' \<and>
        (rc = 0 \<and> (\<exists>ys zs. items m = ys @ zs \<and> items m' = ys @ (oid, c) # zs) \<or> rc = - 1 \<and> m' = m)"
    and unreg_ok: "invar k m \<Longrightarrow> \<exists>m' freed. unreg m oid = Some (m', freed) \<and> invar k m' \<and>
        (case target m oid of
           None \<Rightarrow> m' = m \<and> freed = []
         | Some p \<Rightarrow> items m' = filter (\<lambda>(q, c). \<not> prefix p q) (items m) \<and>
             freed = map snd (filter (\<lambda>(q, c). prefix p q) (items m)))"
    and target_item: "invar k m \<Longrightarrow> (oid, c) \<in> set (items m) \<Longrightarrow> target m oid = Some oid"
begin

text \<open>At most one item covers an identifier, and a search finds it.\<close>

lemma covering_iff:
  assumes "invar k m"
  shows "covering (items m) oid = Some (p, c) \<longleftrightarrow> (p, c) \<in> set (items m) \<and> prefix p oid"
proof -
  have uniq: "p = q" if "(p, c) \<in> set (items m)" "(q, d) \<in> set (items m)" "prefix p oid" "prefix q oid" for p q c d
    using items_antichain [OF assms] that prefix_same_cases by metis
  have dist: "distinct (map fst (items m))"
    using items_sorted [OF assms] strict_sorted_iff by blast
  show ?thesis
  proof
    assume "covering (items m) oid = Some (p, c)"
    then show "(p, c) \<in> set (items m) \<and> prefix p oid"
      unfolding covering_def by (auto simp: find_Some_iff dest: nth_mem)
  next
    assume pc: "(p, c) \<in> set (items m) \<and> prefix p oid"
    then obtain q d where q: "covering (items m) oid = Some (q, d)"
      unfolding covering_def by (cases "find (\<lambda>(p, c). prefix p oid) (items m)") (auto simp: find_None_iff)
    then have "(q, d) \<in> set (items m)" "prefix q oid"
      unfolding covering_def by (auto simp: find_Some_iff dest: nth_mem)
    then show "covering (items m) oid = Some (p, c)"
      using q pc uniq dist by (metis eq_key_imp_eq_value)
  qed
qed

text \<open>A registered identifier covers what is below it and changes no other search.\<close>

lemma reg_covering:
  assumes "invar k m" "k < bound" "reg m oid c = Some (m', 0)"
  shows "covering (items m') q = (if prefix oid q then Some (oid, c) else covering (items m) q)"
proof -
  obtain ys zs where m': "invar (Suc k) m'" "items m = ys @ zs" "items m' = ys @ (oid, c) # zs"
    using reg_ok [OF assms(1,2), of oid c] assms(3) by auto
  show ?thesis
  proof (cases "prefix oid q")
    case True
    then show ?thesis
      using covering_iff [OF m'(1), of q oid c] m'(3) by simp
  next
    case False
    have "covering (items m') q = Some pc \<longleftrightarrow> covering (items m) q = Some pc" for pc
      using covering_iff [OF m'(1), of q] covering_iff [OF assms(1), of q] m'(2,3) False
      by (cases pc) auto
    then show ?thesis
      using False by (metis not_None_eq)
  qed
qed

text \<open>Deleting what was just registered restores the items.\<close>

lemma reg_unreg:
  assumes "invar k m" "k < bound" "reg m oid c = Some (m', 0)"
  shows "\<exists>m''. unreg m' oid = Some (m'', [c]) \<and> invar (Suc k) m'' \<and> items m'' = items m"
proof -
  obtain ys zs where m': "invar (Suc k) m'" "items m = ys @ zs" "items m' = ys @ (oid, c) # zs"
    using reg_ok [OF assms(1,2), of oid c] assms(3) by auto
  have "\<not> prefix oid q" if "(q, d) \<in> set ys \<union> set zs" for q d
  proof
    assume "prefix oid q"
    then have "oid = q"
      using items_antichain [OF m'(1), of oid c q d] that m'(3) by auto
    then show False
      using that items_sorted [OF m'(1)] by (force simp: m'(3) sorted_wrt_append)
  qed
  then have "filter (\<lambda>(q, c). prefix oid q) ys = []" "filter (\<lambda>(q, c). prefix oid q) zs = []"
    "filter (\<lambda>(q, c). \<not> prefix oid q) ys = ys" "filter (\<lambda>(q, c). \<not> prefix oid q) zs = zs"
    by (auto simp: filter_empty_conv filter_id_conv)
  then show ?thesis
    using unreg_ok [OF m'(1), of oid] target_item [OF m'(1), of oid c] m'(2,3) by auto
qed

text \<open>A sequence of operations is safe.\<close>

lemma run_ok: "invar k m \<Longrightarrow> k + length xs \<le> bound \<Longrightarrow> \<exists>m'. run_ops reg unreg xs m = Some m' \<and> invar (k + length xs) m'"
proof (induction xs arbitrary: k m)
  case (Cons x xs)
  have "\<exists>m'. reg_step reg unreg x m = Some m' \<and>
      invar (Suc k) m'"
  proof (cases x)
    case (Reg oid c)
    then show ?thesis
      using reg_ok [OF Cons.prems(1), of oid c] Cons.prems(2) by (auto simp: reg_step_def)
  next
    case (Unreg oid)
    then show ?thesis
      using unreg_ok [OF Cons.prems(1), of oid] invar_mono [of k _ "Suc k"] by (auto simp: reg_step_def)
  qed
  then show ?case
    using Cons.IH [of "Suc k"] Cons.prems(2) by fastforce
qed auto

end


section \<open>The MIB tree is a registry\<close>

definition mib_ok :: "nat \<Rightarrow> mib \<Rightarrow> bool" where
  "mib_ok k m = (case m of
      Some (Group cap cnt ids ptrs) \<Rightarrow>
        wf_node (Group cap cnt ids ptrs) \<and> width_le k (Group cap cnt ids ptrs) \<and>
        height (Group cap cnt ids ptrs) \<le> MIB_OID_MAX_LEN
    | _ \<Rightarrow> False)"

definition mib_insts :: "mib \<Rightarrow> (oid \<times> int) list" where
  "mib_insts m = (case m of Some root \<Rightarrow> insts root | None \<Rightarrow> [])"

text \<open>The identifier whose sub-tree \<open>mib_node_unreg\<close> deletes.\<close>

definition unreg_target :: "mib \<Rightarrow> oid \<Rightarrow> oid option" where
  "unreg_target m oid = do {
     root \<leftarrow> m;
     if oid = [] then None
     else case node_of root oid of
       Some n \<Rightarrow> Some oid
     | None \<Rightarrow> (case node_of root (butlast oid) of Some (Instance c) \<Rightarrow> Some (butlast oid) | _ \<Rightarrow> None) }"

lemma mib_okE:
  assumes "mib_ok k m"
  obtains cap cnt ids ptrs where "m = Some (Group cap cnt ids ptrs)" "wf_node (Group cap cnt ids ptrs)"
    "width_le k (Group cap cnt ids ptrs)" "height (Group cap cnt ids ptrs) \<le> 64"
  using assms by (auto simp: mib_ok_def MIB_OID_MAX_LEN_def split: option.splits mib_node.splits)

lemma locate_target:
  "map_option (map fst) (locate n oid) =
     (case node_of n oid of
        Some m \<Rightarrow> Some oid
      | None \<Rightarrow> (case node_of n (butlast oid) of Some (Instance c) \<Rightarrow> Some (butlast oid) | _ \<Rightarrow> None))"
proof (induction oid arbitrary: n)
  case (Cons x oid)
  show ?case
  proof (cases n)
    case n: (Group cap cnt ids ptrs)
    show ?thesis
    proof (cases "map_of (kids n) x")
      case (Some m)
      have "map_option (map fst) (locate n (x # oid)) = map_option (Cons x) (map_option (map fst) (locate m oid))"
        using Some by (simp add: n Let_def option.map_comp comp_def)
      then show ?thesis
        using Some unfolding Cons.IH by (cases oid) (auto simp: n split: option.splits mib_node.splits)
    qed (auto simp: n Let_def)
  next
    case (Instance c)
    then show ?thesis
      by (cases oid) auto
  qed
qed simp

lemma mib_node_reg_ok:
  assumes "mib_ok k m" "k < 43689"
  shows "\<exists>m' rc. mib_node_reg m oid cb = Some (m', rc) \<and> mib_ok (Suc k) m' \<and>
    (if oid \<noteq> [] \<and> length oid \<le> 64 \<and> reg_free (the m) oid
     then rc = 0 \<and> (\<exists>ys zs. mib_insts m = ys @ zs \<and> mib_insts m' = ys @ (oid, cb) # zs)
     else rc = - 1 \<and> m' = m)"
proof -
  obtain cap cnt ids ptrs where m: "m = Some (Group cap cnt ids ptrs)" "wf_node (Group cap cnt ids ptrs)"
    "width_le k (Group cap cnt ids ptrs)" "height (Group cap cnt ids ptrs) \<le> 64"
    using mib_okE [OF assms(1)] .
  obtain n' r where n': "mib_tree_instance_insert (Group cap cnt ids ptrs) oid cb = Some (n', r)"
    "reg_result k (Group cap cnt ids ptrs) oid cb n' r"
    using insert_ok [OF m(2,3) assms(2)] by blast
  have Suc: "mib_ok (Suc k) m"
    using assms(1) by (auto simp: mib_ok_def split: option.splits mib_node.splits intro: width_mono)
  have grp: "\<exists>cap cnt ids ptrs. n' = Group cap cnt ids ptrs"
  proof (cases n')
    case (Instance c)
    then have "[([], c)] = insts n'" "oid \<noteq> [] \<or> \<not> r" "n' \<noteq> Group cap cnt ids ptrs"
      using n'(2) by (auto simp: reg_result_def)
    then show ?thesis
      using n'(2) by (auto simp: reg_result_def Cons_eq_append_conv split: if_splits)
  qed simp
  show ?thesis
  proof (cases "oid \<noteq> [] \<and> length oid \<le> 64")
    case True
    then have "mib_ok (Suc k) (Some n')"
      using n'(2) m(4) grp by (auto simp: reg_result_def mib_ok_def MIB_OID_MAX_LEN_def)
    then show ?thesis
      using True n' m(1) by (auto simp: mib_node_reg_def MIB_OID_MAX_LEN_def reg_result_def mib_insts_def)
  next
    case False
    then show ?thesis
      using Suc m(1) by (auto simp: mib_node_reg_def MIB_OID_MAX_LEN_def)
  qed
qed

lemma shrink_at_group: "shrink_at g path idx = Some g' \<Longrightarrow> \<exists>cap cnt ids ptrs. g' = Group cap cnt ids ptrs"
  by (induction g path idx rule: shrink_at.induct)
    (auto split: bind_splits if_splits elim!: group_node_shrink.elims)

lemma mib_node_unreg_ok:
  assumes "mib_ok k m"
  shows "\<exists>m' freed. mib_node_unreg m oid = Some (m', freed) \<and> mib_ok k m' \<and>
    (case unreg_target m oid of
       None \<Rightarrow> m' = m \<and> freed = []
     | Some p \<Rightarrow> mib_insts m' = filter (\<lambda>(q, c). \<not> prefix p q) (mib_insts m) \<and>
         freed = map snd (filter (\<lambda>(q, c). prefix p q) (mib_insts m)))"
proof -
  obtain cap cnt ids ptrs where m: "m = Some (Group cap cnt ids ptrs)" "wf_node (Group cap cnt ids ptrs)"
    "width_le k (Group cap cnt ids ptrs)" "height (Group cap cnt ids ptrs) \<le> 64"
    using mib_okE [OF assms] .
  define g where "g = Group cap cnt ids ptrs"
  note g = m [folded g_def]
  obtain pair where pair: "mib_tree_node_search g oid = Some (locate g oid \<noteq> None, pair)"
    "\<And>l. locate g oid = Some l \<Longrightarrow> np_child pair = map snd l \<and>
       np_parent pair = (if l = [] then [] else butlast (map snd l)) \<and>
       np_idx pair = (if l = [] then 0 else last (map snd l))"
    using node_search_loop_spec [OF g(2), of "[]" "[]" 0 oid] by (auto simp: mib_tree_node_search_def)
  have tgt: "unreg_target m oid = (if oid = [] then None else map_option (map fst) (locate g oid))"
    by (simp add: unreg_target_def g(1) locate_target)
  show ?thesis
  proof (cases "locate g oid")
    case None
    then show ?thesis
      using pair(1) tgt assms by (simp add: mib_node_unreg_def mib_tree_delete_def g(1))
  next
    case (Some l)
    show ?thesis
    proof (cases "l = []")
      case True
      then have "oid = []"
        using Some by (cases oid) (auto simp: g_def Let_def split: option.splits)
      then show ?thesis
        using pair Some True tgt assms
        by (simp add: mib_node_unreg_def mib_tree_delete_def mib_tree_delete_pair_def g(1))
    next
      case False
      obtain n g' where n: "node_at g (map snd l) = Some n"
        "shrink_at g (butlast (map snd l)) (last (map snd l)) = Some g'" "delete_result k g (map fst l) n g'"
        using delete_at [OF g(2,3) Some False] by blast
      then have "delete_loop (Some n) None [] [] = Some (map snd (insts n))"
        using g(4) delete_loop_insts [of n "[]" "[]"] by (simp add: delete_result_def backtrack_def)
      then have "mib_node_unreg m oid = Some (Some g', map snd (insts n))"
        using pair Some False n(1,2)
        by (simp add: mib_node_unreg_def mib_tree_delete_def mib_tree_delete_pair_def g(1))
      moreover have "oid \<noteq> []"
        using Some False by (cases oid) auto
      ultimately show ?thesis
        using n(3) tgt Some g(4) shrink_at_group [OF n(2)]
        by (auto simp: delete_result_def mib_insts_def g(1) mib_ok_def MIB_OID_MAX_LEN_def split: mib_node.splits)
    qed
  qed
qed

interpretation mib: oid_registry mib_ok mib_insts mib_node_reg mib_node_unreg unreg_target 43689
proof unfold_locales
  fix k l m
  show "mib_ok l m" if "mib_ok k m" "k \<le> l"
    using that by (auto simp: mib_ok_def split: option.splits mib_node.splits intro: width_mono)
next
  fix k m
  show "sorted_wrt (<) (map fst (mib_insts m))" if "mib_ok k m"
    using that insts_sorted by (auto elim!: mib_okE simp: mib_insts_def)
next
  fix k m p c q d
  show "p = q" if "mib_ok k m" "(p, c) \<in> set (mib_insts m)" "(q, d) \<in> set (mib_insts m)" "prefix p q"
    using that insts_antichain by (fastforce elim!: mib_okE simp: mib_insts_def)
next
  fix k m oid c
  show "\<exists>m' rc. mib_node_reg m oid c = Some (m', rc) \<and> mib_ok (Suc k) m' \<and>
      (rc = 0 \<and> (\<exists>ys zs. mib_insts m = ys @ zs \<and> mib_insts m' = ys @ (oid, c) # zs) \<or> rc = - 1 \<and> m' = m)"
    if "mib_ok k m" "k < 43689"
    using mib_node_reg_ok [OF that, of oid c] by (fastforce split: if_splits)
next
  fix k m oid
  show "\<exists>m' freed. mib_node_unreg m oid = Some (m', freed) \<and> mib_ok k m' \<and>
      (case unreg_target m oid of
         None \<Rightarrow> m' = m \<and> freed = []
       | Some p \<Rightarrow> mib_insts m' = filter (\<lambda>(q, c). \<not> prefix p q) (mib_insts m) \<and>
           freed = map snd (filter (\<lambda>(q, c). prefix p q) (mib_insts m)))" if "mib_ok k m"
    using mib_node_unreg_ok [OF that] .
next
  fix k m oid c
  show "unreg_target m oid = Some oid" if ok: "mib_ok k m" and mem: "(oid, c) \<in> set (mib_insts m)"
  proof (rule mib_okE [OF ok])
    fix cap cnt ids ptrs
    assume m: "m = Some (Group cap cnt ids ptrs)" "wf_node (Group cap cnt ids ptrs)"
    have "node_of (Group cap cnt ids ptrs) oid = Some (Instance c)"
      using mem insts_node_of [OF m(2), of oid c] by (simp add: m(1) mib_insts_def)
    moreover from this have "oid \<noteq> []"
      by auto
    ultimately show ?thesis
      by (simp add: unreg_target_def m(1))
  qed
qed


section \<open>Properties\<close>

lemma mib_init_ok: "mib_ok 0 mib_init"
proof -
  have "kids mib_dummy_node_init = []" "arrays_ok 1 0 [0] [None]"
    by (simp_all add: mib_dummy_node_init_def arrays_ok_def kids.simps)
  then show ?thesis
    by (simp add: mib_init_def mib_ok_def mib_dummy_node_init_def wf_Group width_Group
        MIB_OID_MAX_LEN_def height_Group_le [of 1 0 "[0]" "[None]" 63, simplified])
qed

lemma reg_example:
  "mib_node_reg mib_init [1, 3] 7 =
     Some (Some (Group 1 1 [1] [Some (Group 1 1 [3] [Some (Instance 7)])]), 0)"
  by (simp add: mib_node_reg_def mib_init_def mib_dummy_node_init_def MIB_OID_MAX_LEN_def is_raw_group_def
      rd_def upd_def uint16_def mib_group_node_new_def mib_instance_node_new_def)

text \<open>C32: \<open>mib_node_reg\<close> on a tree that \<open>k < 43689\<close> registrations can have built never leaves its
  arrays, returns 0 exactly if the identifier is not empty, has at most 64 sub-identifiers, is not
  the path of a node already and has no instance above it, and then adds exactly this instance, at one place of
  the traversal order; otherwise it returns -1 and leaves the tree as it was.\<close>

theorem mib_node_reg_spec:
  assumes "mib_ok k (Some root)" "k < 43689"
  shows "\<exists>m' rc. mib_node_reg (Some root) oid cb = Some (m', rc) \<and> mib_ok (Suc k) m' \<and>
    (if oid \<noteq> [] \<and> length oid \<le> 64 \<and> node_of root oid = None \<and>
        (\<forall>p c. prefix p oid \<longrightarrow> node_of root p \<noteq> Some (Instance c))
     then rc = 0 \<and> (\<exists>ys zs. insts root = ys @ zs \<and> mib_insts m' = ys @ (oid, cb) # zs)
     else rc = - 1 \<and> m' = Some root)"
proof -
  have "reg_free (the (Some root)) oid \<longleftrightarrow>
      node_of root oid = None \<and> (\<forall>p c. prefix p oid \<longrightarrow> node_of root p \<noteq> Some (Instance c))"
    using reg_free_iff by simp
  moreover have "mib_insts (Some root) = insts root"
    by (simp add: mib_insts_def)
  ultimately show ?thesis
    using mib_node_reg_ok [OF assms, of oid cb] by (simp only:)
qed

theorem mib_node_reg_spec_witness:
  "\<exists>m' rc. mib_node_reg mib_init [1, 3, 6] 7 = Some (m', rc) \<and> mib_ok (Suc 0) m'"
  using mib_node_reg_spec [of 0 mib_dummy_node_init "[1, 3, 6]" 7] mib_init_ok
  by (auto simp: mib_init_def split: if_splits)

text \<open>C33: \<open>mib_node_unreg\<close> always ends, keeps the tree well formed, unreferences every handler of the
  deleted sub-tree exactly once, in order, and removes exactly the instances below the target; the
  target is the node at the identifier, or, where there is none, the instance whose identifier is
  the given one without its last sub-identifier. Without a target, and for the empty identifier,
  nothing changes.\<close>

theorem mib_node_unreg_spec:
  assumes "mib_ok k m"
  shows "\<exists>m' freed. mib_node_unreg m oid = Some (m', freed) \<and> mib_ok k m' \<and>
    (case unreg_target m oid of
       None \<Rightarrow> m' = m \<and> freed = []
     | Some p \<Rightarrow> mib_insts m' = filter (\<lambda>(q, c). \<not> prefix p q) (mib_insts m) \<and>
         freed = map snd (filter (\<lambda>(q, c). prefix p q) (mib_insts m)))"
  using mib_node_unreg_ok [OF assms] .

theorem mib_node_unreg_spec_witness:
  "\<exists>m' freed. mib_node_unreg mib_init [1, 3] = Some (m', freed) \<and> mib_ok 0 m'"
  using mib_node_unreg_spec [OF mib_init_ok, of "[1, 3]"] by blast

text \<open>any sequence of registrations and deletions on the initial tree, in any order and with any
  identifiers, runs to its end without leaving an array or the backlog stack and keeps the tree
  well formed, up to 43689 operations.\<close>

theorem mib_ops_safe:
  assumes "length xs \<le> 43689"
  shows "\<exists>m. run_ops mib_node_reg mib_node_unreg xs mib_init = Some m \<and> mib_ok (length xs) m"
  using mib.run_ok [OF mib_init_ok, of xs] assms by simp

theorem mib_ops_safe_witness:
  "\<exists>m. run_ops mib_node_reg mib_node_unreg [Reg [1, 3, 6] 5, Reg [1, 3] 6, Unreg [1], Reg [1, 3] 6] mib_init = Some m \<and>
     mib_ok (Suc (Suc (Suc (Suc 0)))) m"
  using mib_ops_safe [of "[Reg [1, 3, 6] 5, Reg [1, 3] 6, Unreg [1], Reg [1, 3] 6]"]
  by (simp del: run_ops.simps)

text \<open>C34: the instances of a tree are strictly sorted by identifier in traversal order and no
  identifier is a prefix of another, so a lookup is covered by at most one instance; after a
  successful registration the lookups below the new identifier reach the new handler and every
  other lookup is as before.\<close>

theorem mib_reg_lookup:
  assumes "mib_ok k m" "k < 43689" "mib_node_reg m oid cb = Some (m', 0)"
  shows "sorted_wrt (<) (map fst (mib_insts m')) \<and>
    covering (mib_insts m') q = (if prefix oid q then Some (oid, cb) else covering (mib_insts m) q)"
  using mib.reg_covering [OF assms] mib.items_sorted mib.reg_ok [OF assms(1,2), of oid cb] assms(3) by auto

theorem mib_reg_lookup_witness:
  "\<exists>m'. mib_node_reg mib_init [1, 3] 7 = Some (m', 0) \<and> covering (mib_insts m') [1, 3, 0] = Some ([1, 3], 7)"
  using mib_reg_lookup [OF mib_init_ok _ reg_example, of "[1, 3, 0]"] reg_example by simp

text \<open>deleting an identifier right after its registration unreferences its handler and gives
  back the instances the tree had.\<close>

theorem mib_reg_unreg:
  assumes "mib_ok k m" "k < 43689" "mib_node_reg m oid cb = Some (m', 0)"
  shows "\<exists>m''. mib_node_unreg m' oid = Some (m'', [cb]) \<and> mib_ok (Suc k) m'' \<and> mib_insts m'' = mib_insts m"
  using mib.reg_unreg [OF assms] .

theorem mib_reg_unreg_witness:
  "\<exists>m' m''. mib_node_reg mib_init [1, 3] 7 = Some (m', 0) \<and> mib_node_unreg m' [1, 3] = Some (m'', [7])"
  using mib_reg_unreg [OF mib_init_ok _ reg_example] reg_example by auto

end
