(* ===== verification/Mib_Search.thy ===== *)
theory Mib_Search
  imports Mib_Unreg Ber_Decoder
begin

text \<open>
  Searching the MIB tree (\<open>core/mib_tree.c\<close>, \<open>mib_instance_search\<close>, \<open>mib_tree_search\<close>,
  \<open>mib_tree_search_next\<close>). The handler of an instance is Lua code: it is the parameter \<open>lua\<close>, a
  function of the handler number, the four arguments and a state of type \<open>'w\<close> that handlers may
  change; \<open>None\<close> stands for a failed \<open>lua_pcall\<close>. A value a handler returns is the record of what the
  Lua interface functions of the source give for it.

  The search buffer has \<open>MIB_VALUE_MAX_LEN\<close> cells, of which the list holds the initialised ones; a
  pointer into it is an offset. The value of a \<open>Variable\<close> is the byte image of its union.
\<close>

section \<open>Definitions\<close>

subsection \<open>Search results\<close>

record variable =
  var_tag :: u8
  var_len :: u16
  var_mem :: bytes

record oid_search_res =
  sr_oid :: oid
  sr_id_len :: nat
  sr_inst_id :: nat
  sr_inst_id_len :: nat
  sr_callback :: int
  sr_request :: u8
  sr_err_stat :: int
  sr_var :: variable

abbreviation "MIB_REQ_GET \<equiv> (0xA0 :: u8)"
abbreviation "MIB_REQ_GETNEXT \<equiv> (0xA1 :: u8)"
abbreviation "MIB_RESP \<equiv> (0xA2 :: u8)"
abbreviation "MIB_REQ_SET \<equiv> (0xA3 :: u8)"
abbreviation "MIB_REQ_BULKGET \<equiv> (0xA5 :: u8)"
abbreviation "MIB_REPO \<equiv> (0xA8 :: u8)"

definition set_tag :: "u8 \<Rightarrow> oid_search_res \<Rightarrow> oid_search_res" where
  "set_tag t r = r\<lparr>sr_var := (sr_var r)\<lparr>var_tag := t\<rparr>\<rparr>"

definition oid_cpy :: "oid \<Rightarrow> oid \<Rightarrow> oid option" where
  "oid_cpy dest src = (if length src \<le> MIB_VALUE_MAX_LEN then Some (src @ drop (length src) dest) else None)"

text \<open>The result a request starts with: \<open>memset\<close> to zero, then the kind of the request.\<close>

definition res_zero :: "u8 \<Rightarrow> oid_search_res" where
  "res_zero rq = \<lparr>sr_oid = [], sr_id_len = 0, sr_inst_id = 0, sr_inst_id_len = 0, sr_callback = 0,
     sr_request = rq, sr_err_stat = 0, sr_var = \<lparr>var_tag = 0, var_len = 0, var_mem = replicate MIB_VALUE_MAX_LEN 0\<rparr>\<rparr>"

subsection \<open>Calling a handler\<close>

datatype lua_arg = LNil | LInteger int | LNumber u32 | LString bytes | LTable oid

record lua_value =
  lv_integer :: int
  lv_number :: int
  lv_objlen :: nat
  lv_string :: bytes
  lv_elem :: "nat \<Rightarrow> int"

record lua_ret =
  lr_err :: lua_value
  lr_oid :: lua_value
  lr_val :: lua_value
  lr_tag :: lua_value

type_synonym 'w lua = "int \<Rightarrow> lua_arg list \<Rightarrow> 'w \<Rightarrow> lua_ret option \<times> 'w"

definition to_int :: "int \<Rightarrow> int" where
  "to_int x = sint (word_of_int x :: u32)"

text \<open>The value argument of a SET request.\<close>

definition req_val :: "variable \<Rightarrow> lua_arg option" where
  "req_val v =
     (let t = var_tag v; mem = var_mem v; len = unat (var_len v) in
      if t = ASN1_TAG_INT then map_option (\<lambda>x. LInteger (sint x)) (mem_u32 mem)
      else if t = ASN1_TAG_OCTSTR \<or> t = ASN1_TAG_IPADDR then map_option LString (rdn mem 0 len)
      else if t = ASN1_TAG_CNT \<or> t = ASN1_TAG_GAU \<or> t = ASN1_TAG_TIMETICKS
        then map_option LNumber (mem_u32 mem)
      else if t = ASN1_TAG_OBJID then map_option LTable (mem_oid mem len)
      else Some LNil)"

text \<open>Storing the value a handler returns: element count and byte image. An unknown tag fails the
  assertion of the default branch.\<close>

definition ret_val :: "u8 \<Rightarrow> lua_value \<Rightarrow> (u16 \<times> bytes) option" where
  "ret_val t v =
     (let len = word_of_nat (lv_objlen v) :: u16 in
      if t = ASN1_TAG_INT then Some (1, le32 (word_of_int (lv_integer v)))
      else if t = ASN1_TAG_OCTSTR then map_option (Pair len) (rdn (lv_string v) 0 (unat len))
      else if t = ASN1_TAG_CNT \<or> t = ASN1_TAG_GAU \<or> t = ASN1_TAG_TIMETICKS
        then Some (1, le32 (word_of_int (lv_number v)))
      else if t = ASN1_TAG_IPADDR
        then Some (len, map (\<lambda>i. word_of_int (lv_elem v (i + 1))) [0..<unat len])
      else if t = ASN1_TAG_OBJID
        then Some (len, oid_img (map (\<lambda>i. word_of_int (lv_elem v (i + 1))) [0..<unat len]))
      else None)"

definition ret_oid_ids :: "lua_value \<Rightarrow> oid" where
  "ret_oid_ids v = map (\<lambda>i. word_of_int (lv_elem v (i + 1))) [0..<unat (word_of_nat (lv_objlen v) :: u32)]"

text \<open>The call itself: error status, variable, the new instance identifier of a GETNEXT, and the
  state after it.\<close>

definition inst_call ::
  "'w lua \<Rightarrow> int \<Rightarrow> u8 \<Rightarrow> oid \<Rightarrow> variable \<Rightarrow> 'w \<Rightarrow> (int \<times> variable \<times> oid option \<times> 'w) option" where
  "inst_call lua cb request ids var w =
     do { val \<leftarrow> (if request = MIB_REQ_SET then req_val var else Some LNil);
          let typ = (if request = MIB_REQ_SET then LInteger (uint (var_tag var)) else LNil);
          case lua cb [LInteger (uint request), LTable ids, val, typ] w of
            (None, w') \<Rightarrow> Some (0, var\<lparr>var_tag := ASN1_TAG_NO_SUCH_OBJ\<rparr>, None, w')
          | (Some ret, w') \<Rightarrow>
              let err = to_int (lv_integer (lr_err ret));
                  t = word_of_int (lv_number (lr_tag ret));
                  var1 = var\<lparr>var_tag := t\<rparr> in
              if err = 0 \<and> MIB_TAG_VALID t then
                do { var2 \<leftarrow> (if request \<noteq> MIB_REQ_SET then
                                do { (len, img) \<leftarrow> ret_val t (lr_val ret);
                                     mem \<leftarrow> wr (var_mem var1) img;
                                     Some (var1\<lparr>var_len := len, var_mem := mem\<rparr>) }
                              else Some var1);
                     Some (err, var2,
                       if request = MIB_REQ_GETNEXT then Some (ret_oid_ids (lr_oid ret)) else None, w') }
              else Some (err, var1, None, w') }"

primrec put_ids :: "oid \<Rightarrow> nat \<Rightarrow> oid \<Rightarrow> oid option" where
  "put_ids buf off [] = Some buf"
| "put_ids buf off (x # ids) =
     do { buf' \<leftarrow> put MIB_VALUE_MAX_LEN buf off x; put_ids buf' (Suc off) ids }"

definition mib_instance_search :: "'w lua \<Rightarrow> oid_search_res \<Rightarrow> 'w \<Rightarrow> (int \<times> oid_search_res \<times> 'w) option" where
  "mib_instance_search lua r w =
     do { ids \<leftarrow> rdn (sr_oid r) (sr_inst_id r) (sr_inst_id_len r);
          (err, var, newids, w') \<leftarrow> inst_call lua (sr_callback r) (sr_request r) ids (sr_var r) w;
          case newids of
            None \<Rightarrow> Some (err, r\<lparr>sr_var := var, sr_err_stat := err\<rparr>, w')
          | Some new \<Rightarrow>
              do { buf \<leftarrow> put_ids (sr_oid r) (sr_inst_id r) new;
                   Some (err, r\<lparr>sr_var := var, sr_err_stat := err, sr_oid := buf,
                                sr_inst_id_len := length new\<rparr>, w') } }"

subsection \<open>GET\<close>

text \<open>The descent of \<open>mib_tree_search\<close>: where it stops, and at which offset of the identifier.\<close>

datatype stop = No_Sub mib_node | At_Instance mib_node | End_Of_Oid "mib_node option"

fun tree_search_loop :: "mib_node \<Rightarrow> oid \<Rightarrow> nat \<Rightarrow> (stop \<times> nat) option" where
  "tree_search_loop node [] off = Some (End_Of_Oid (Some node), off)"
| "tree_search_loop (Instance c) (x # oid) off = Some (At_Instance (Instance c), off)"
| "tree_search_loop (Group cap cnt ids ptrs) (x # oid) off =
     do { i \<leftarrow> oid_binary_search ids cnt x;
          if i \<ge> 0 then
            do { p \<leftarrow> rd ptrs (nat i);
                 case p of
                   None \<Rightarrow> Some (End_Of_Oid None, Suc off)
                 | Some node \<Rightarrow> tree_search_loop node oid (Suc off) }
          else Some (No_Sub (Group cap cnt ids ptrs), off) }"

definition mib_tree_search ::
  "'w lua \<Rightarrow> mib_node \<Rightarrow> oid \<Rightarrow> oid \<Rightarrow> oid_search_res \<Rightarrow> 'w \<Rightarrow> (mib_node option \<times> oid_search_res \<times> 'w) option" where
  "mib_tree_search lua root view orig_oid r0 w =
     do { buf \<leftarrow> oid_dup orig_oid;
          let r = r0\<lparr>sr_oid := buf, sr_id_len := length orig_oid, sr_err_stat := 0\<rparr>;
          if oid_cover view orig_oid \<le> 0 then Some (None, set_tag ASN1_TAG_NO_SUCH_OBJ r, w)
          else
            do { (st, off) \<leftarrow> tree_search_loop root orig_oid 0;
                 let r1 = r\<lparr>sr_inst_id := off, sr_inst_id_len := length orig_oid - off\<rparr>;
                 case st of
                   No_Sub node \<Rightarrow> Some (Some node, set_tag ASN1_TAG_NO_SUCH_OBJ r1, w)
                 | At_Instance node \<Rightarrow>
                     do { (err, r2, w') \<leftarrow> mib_instance_search lua (r1\<lparr>sr_callback := callback node\<rparr>) w;
                          Some (Some node, r2\<lparr>sr_err_stat := err\<rparr>, w') }
                 | End_Of_Oid (Some (Instance c)) \<Rightarrow>
                     Some (Some (Instance c), set_tag ASN1_TAG_NO_SUCH_INST r1, w)
                 | End_Of_Oid node \<Rightarrow> Some (node, set_tag ASN1_TAG_NO_SUCH_OBJ r1, w) } }"

subsection \<open>GETNEXT\<close>

definition uint32 :: "int \<Rightarrow> nat" where
  "uint32 n = nat (n mod 2 ^ 32)"

text \<open>The end of the traversal.\<close>

definition end_of_mib_view :: "oid \<Rightarrow> oid_search_res \<Rightarrow> oid_search_res option" where
  "end_of_mib_view orig_oid r =
     do { buf \<leftarrow> oid_cpy (sr_oid r) orig_oid;
          Some (set_tag ASN1_TAG_END_OF_MIB_VIEW
            (r\<lparr>sr_oid := buf, sr_id_len := length orig_oid, sr_inst_id := 0, sr_inst_id_len := 0,
               sr_err_stat := 0\<rparr>)) }"

text \<open>The state of the loop: the current node, the search mode, the index of the entry popped last
  (\<open>p_nbl\<close>), the offset of the pointer \<open>oid\<close>, \<open>id_len\<close>, the backlog stack, the result under
  construction and the state of the handlers.\<close>

record 'w next_state =
  ns_node :: "mib_node option"
  ns_immediate :: bool
  ns_p_nbl :: "int option"
  ns_pos :: nat
  ns_id_len :: nat
  ns_stk :: "mib_node option backlog"
  ns_res :: oid_search_res
  ns_w :: 'w

datatype 'w next_step = Return oid_search_res 'w | Loop "'w next_state"

definition next_backtrack :: "oid \<Rightarrow> 'w next_state \<Rightarrow> 'w next_step option" where
  "next_backtrack orig_oid s = (case ns_stk s of
      [] \<Rightarrow> map_option (\<lambda>r. Return r (ns_w s)) (end_of_mib_view orig_oid (ns_res s))
    | (n, n_idx) # stk \<Rightarrow>
        Some (Loop (s\<lparr>ns_node := n, ns_immediate := True, ns_p_nbl := Some n_idx, ns_pos := ns_pos s - 1, ns_stk := stk\<rparr>)))"

definition next_entry :: "mib_node \<Rightarrow> nat \<Rightarrow> int \<Rightarrow> mib_node option \<times> int" where
  "next_entry node cnt i = (if i + 1 \<ge> int cnt then (None, - 1) else (Some node, i + 1))"

text \<open>The two branches for a group node.\<close>

fun next_immediate :: "mib_node \<Rightarrow> 'w next_state \<Rightarrow> 'w next_step option" where
  "next_immediate (Group cap cnt ids ptrs) s =
     (let i = (case ns_p_nbl s of Some n_idx \<Rightarrow> n_idx | None \<Rightarrow> 0) in
      do { x \<leftarrow> rd ids (nat i);
           buf \<leftarrow> put MIB_VALUE_MAX_LEN (sr_oid (ns_res s)) (ns_pos s) x;
           p \<leftarrow> rd ptrs (nat i);
           Some (Loop (s\<lparr>ns_node := p, ns_p_nbl := None, ns_pos := Suc (ns_pos s),
             ns_stk := nbl_push (next_entry (Group cap cnt ids ptrs) cnt i) (ns_stk s),
             ns_res := (ns_res s)\<lparr>sr_oid := buf\<rparr>\<rparr>)) })"
| "next_immediate (Instance c) s = None"

fun next_match :: "oid \<Rightarrow> mib_node \<Rightarrow> 'w next_state \<Rightarrow> 'w next_step option" where
  "next_match orig_oid (Group cap cnt ids ptrs) s =
     do { y \<leftarrow> rd (sr_oid (ns_res s)) (ns_pos s);
          index \<leftarrow> oid_binary_search ids cnt y;
          let i = (if index < 0 then - index - 1 else index);
          if index < 0 \<and> i = int cnt then next_backtrack orig_oid (s\<lparr>ns_immediate := True\<rparr>)
          else if index < 0 \<and> i = 0 then Some (Loop (s\<lparr>ns_immediate := True\<rparr>))
          else
            do { x \<leftarrow> rd ids (nat i);
                 buf \<leftarrow> put MIB_VALUE_MAX_LEN (sr_oid (ns_res s)) (ns_pos s) x;
                 p \<leftarrow> rd ptrs (nat i);
                 let id_len = uint32 (int (ns_id_len s) - 1);
                 at_group \<leftarrow> (if id_len = 0 then
                               (case p of None \<Rightarrow> None
                                | Some (Group _ _ _ _) \<Rightarrow> Some True | Some (Instance _) \<Rightarrow> Some False)
                             else Some False);
                 Some (Loop (s\<lparr>ns_node := p, ns_immediate := (index < 0 \<or> at_group), ns_pos := Suc (ns_pos s),
                   ns_id_len := id_len, ns_stk := nbl_push (next_entry (Group cap cnt ids ptrs) cnt i) (ns_stk s),
                   ns_res := (ns_res s)\<lparr>sr_oid := buf\<rparr>\<rparr>)) } }"
| "next_match orig_oid (Instance c) s = None"

definition next_instance :: "'w lua \<Rightarrow> oid \<Rightarrow> oid \<Rightarrow> int \<Rightarrow> 'w next_state \<Rightarrow> 'w next_step option" where
  "next_instance lua view orig_oid cb s =
     do { (err, r, w) \<leftarrow> mib_instance_search lua
            ((ns_res s)\<lparr>sr_inst_id_len := (if ns_immediate s \<or> ns_id_len s = 0 then 0 else ns_id_len s),
               sr_inst_id := ns_pos s, sr_callback := cb\<rparr>) (ns_w s);
          let r1 = r\<lparr>sr_err_stat := err\<rparr>;
          if MIB_TAG_VALID (var_tag (sr_var r1)) then
            (let r2 = r1\<lparr>sr_id_len := ns_pos s + sr_inst_id_len r1\<rparr> in
             if sr_id_len r2 > MIB_OID_MAX_LEN then None
             else do { q \<leftarrow> rdn (sr_oid r2) 0 (sr_id_len r2);
                       if oid_cover view q = 0 then next_backtrack orig_oid (s\<lparr>ns_res := r2, ns_w := w\<rparr>)
                       else Some (Return r2 w) })
          else next_backtrack orig_oid (s\<lparr>ns_res := r1, ns_w := w\<rparr>) }"

text \<open>One iteration of the loop, and the loop.\<close>

definition next_iter :: "'w lua \<Rightarrow> oid \<Rightarrow> oid \<Rightarrow> 'w next_state \<Rightarrow> 'w next_step option" where
  "next_iter lua view orig_oid s =
     (case ns_node s of
        None \<Rightarrow> next_backtrack orig_oid s
      | Some (Instance cb) \<Rightarrow> next_instance lua view orig_oid cb s
      | Some (Group cap cnt ids ptrs) \<Rightarrow>
          if ns_immediate s then next_immediate (Group cap cnt ids ptrs) s
          else next_match orig_oid (Group cap cnt ids ptrs) s)"

partial_function (option) search_next_loop ::
  "'w lua \<Rightarrow> oid \<Rightarrow> oid \<Rightarrow> 'w next_state \<Rightarrow> (oid_search_res \<times> 'w) option" where
  "search_next_loop lua view orig_oid s =
     (case next_iter lua view orig_oid s of
        None \<Rightarrow> None
      | Some (Return r w) \<Rightarrow> Some (r, w)
      | Some (Loop s') \<Rightarrow> search_next_loop lua view orig_oid s')"

definition next_start :: "mib_node option \<Rightarrow> bool \<Rightarrow> nat \<Rightarrow> nat \<Rightarrow> oid_search_res \<Rightarrow> 'w \<Rightarrow> 'w next_state" where
  "next_start node immediate pos id_len r w =
     \<lparr>ns_node = node, ns_immediate = immediate, ns_p_nbl = None, ns_pos = pos, ns_id_len = id_len, ns_stk = [],
      ns_res = r, ns_w = w\<rparr>"

definition mib_tree_search_next ::
  "'w lua \<Rightarrow> mib_node \<Rightarrow> oid \<Rightarrow> oid \<Rightarrow> oid_search_res \<Rightarrow> 'w \<Rightarrow> (oid_search_res \<times> 'w) option" where
  "mib_tree_search_next lua root view orig_oid r w =
     (if oid_cover view orig_oid > 0 then
        do { (node, r1, w1) \<leftarrow> mib_tree_search lua root view view (r\<lparr>sr_request := MIB_REQ_GET\<rparr>) w;
             n \<leftarrow> node;
             buf \<leftarrow> oid_cpy (sr_oid r1) orig_oid;
             let r2 = r1\<lparr>sr_request := MIB_REQ_GETNEXT, sr_oid := buf, sr_id_len := length orig_oid, sr_err_stat := 0\<rparr>;
             search_next_loop lua view orig_oid (next_start (Some n) (length orig_oid \<le> sr_inst_id r2)
               (sr_inst_id r2) (uint32 (int (length orig_oid) - int (sr_inst_id r2))) r2 w1) }
      else if oid_cmp orig_oid view < 0 then
        do { (node, r1, w1) \<leftarrow> mib_tree_search lua root view view (r\<lparr>sr_request := MIB_REQ_GET\<rparr>) w;
             n \<leftarrow> node;
             let r2 = r1\<lparr>sr_request := MIB_REQ_GETNEXT, sr_err_stat := 0\<rparr>;
             search_next_loop lua view orig_oid
               (next_start (Some n) (case n of Group _ _ _ _ \<Rightarrow> True | Instance _ \<Rightarrow> False)
                  (sr_inst_id r2) (uint32 (int (sr_id_len r2) - int (sr_inst_id r2))) r2 w1) }
      else
        do { buf \<leftarrow> oid_dup view;
             search_next_loop lua view orig_oid
               (next_start None False 0 0 (r\<lparr>sr_oid := buf, sr_id_len := length view, sr_err_stat := 0\<rparr>) w) })"

end
