(* ===== verification/Mib_Next.thy ===== *)
theory Mib_Next
  imports Mib_Search
begin

text \<open>
  The GETNEXT search. The loop with its backlog stack and its two modes is related to a plain
  specification: try a list of candidates, each an instance with the instance identifier to ask its
  handler for, in order, and take the first that gives a value in the view. The candidates are
  the instances of the sub-tree that come after the requested identifier, and the one the
  requested identifier is an instance of.
\<close>

section \<open>The specification\<close>

datatype 'w outcome = UB | Found oid variable int 'w | Exhausted variable 'w

fun try_cands :: "'w lua \<Rightarrow> oid \<Rightarrow> (oid \<times> int \<times> oid) list \<Rightarrow> variable \<Rightarrow> 'w \<Rightarrow> 'w outcome" where
  "try_cands lua view [] v w = Exhausted v w"
| "try_cands lua view ((p, c, rest) # cs) v w =
     (case inst_call lua c MIB_REQ_GETNEXT rest v w of
        None \<Rightarrow> UB
      | Some (err, v', new, w') \<Rightarrow>
          let q = p @ (case new of None \<Rightarrow> rest | Some ids \<Rightarrow> ids) in
          if MIB_TAG_VALID (var_tag v') then
            if length q > MIB_OID_MAX_LEN then UB
            else if oid_cover view q = 0 then try_cands lua view cs v' w'
            else Found q v' err w'
          else try_cands lua view cs v' w')"

text \<open>All instances below a node with absolute path \<open>P\<close>, and those from an identifier \<open>t\<close> on.\<close>

definition all_cands :: "oid \<Rightarrow> (oid \<times> int) list \<Rightarrow> (oid \<times> int \<times> oid) list" where
  "all_cands P its = map (\<lambda>(p, c). (P @ p, c, [])) its"

definition from_cands :: "oid \<Rightarrow> oid \<Rightarrow> (oid \<times> int) list \<Rightarrow> (oid \<times> int \<times> oid) list" where
  "from_cands P t its =
     map (\<lambda>(p, c). (P @ p, c, if prefix p t then drop (length p) t else []))
       (filter (\<lambda>(p, c). prefix p t \<or> t < p) its)"

lemma try_cands_append:
  "try_cands lua view (xs @ ys) v w = (case try_cands lua view xs v w of
      UB \<Rightarrow> UB | Found q v' e w' \<Rightarrow> Found q v' e w' | Exhausted v' w' \<Rightarrow> try_cands lua view ys v' w')"
  by (induction lua view xs v w rule: try_cands.induct) (auto simp: Let_def split: option.splits)

lemma inst_call_new: "inst_call lua c rq rest v w = Some (err, v', Some ids, w') \<Longrightarrow> MIB_TAG_VALID (var_tag v')"
  by (auto simp: inst_call_def Let_def split: bind_splits option.splits prod.splits if_splits)


section \<open>Buffers\<close>

lemma put_ok:
  assumes "pos \<le> length buf" "length buf \<le> cap" "pos < cap"
  shows "\<exists>buf'. put cap buf pos x = Some buf' \<and> take (Suc pos) buf' = take pos buf @ [x] \<and>
    Suc pos \<le> length buf' \<and> length buf' \<le> cap \<and> drop (Suc pos) buf' = drop (Suc pos) buf"
  using assms by (auto simp: put_def take_Suc_conv_app_nth)

lemma put_ids_ok:
  assumes "pos \<le> length buf" "length buf \<le> 1024" "pos + length ids \<le> 1024"
  shows "\<exists>buf'. put_ids buf pos ids = Some buf' \<and> take (pos + length ids) buf' = take pos buf @ ids \<and>
    pos + length ids \<le> length buf' \<and> length buf' \<le> 1024"
  using assms
proof (induction ids arbitrary: buf pos)
  case (Cons x ids)
  obtain buf1 where b1: "put 1024 buf pos x = Some buf1" "take (Suc pos) buf1 = take pos buf @ [x]"
    "Suc pos \<le> length buf1" "length buf1 \<le> 1024"
    using put_ok [of pos buf 1024 x] Cons.prems by auto
  obtain buf2 where "put_ids buf1 (Suc pos) ids = Some buf2"
    "take (Suc pos + length ids) buf2 = take (Suc pos) buf1 @ ids" "Suc pos + length ids \<le> length buf2" "length buf2 \<le> 1024"
    using Cons.IH [of "Suc pos" buf1] b1(3,4) Cons.prems(3) by auto
  then show ?case
    using b1 by (auto simp: MIB_VALUE_MAX_LEN_def)
qed simp

lemma put_ids_mem:
  assumes "put_ids buf pos ids = Some buf'" "pos \<le> length buf" "length buf \<le> 1024"
  shows "pos + length ids \<le> 1024"
  using assms
proof (induction ids arbitrary: buf pos)
  case (Cons x ids)
  then obtain buf1 where b1: "put 1024 buf pos x = Some buf1" "put_ids buf1 (Suc pos) ids = Some buf'"
    by (auto simp: MIB_VALUE_MAX_LEN_def split: bind_splits)
  have "Suc pos \<le> length buf1" "length buf1 \<le> 1024"
    using b1(1) Cons.prems(2,3) by (auto simp: put_def split: if_splits)
  then show ?case
    using Cons.IH [OF b1(2)] by simp
qed simp


section \<open>The loop\<close>

lemma loop_eq:
  "search_next_loop lua view orig s = (case next_iter lua view orig s of
      None \<Rightarrow> None | Some (Return r w) \<Rightarrow> Some (r, w) | Some (Loop s') \<Rightarrow> search_next_loop lua view orig s')"
  by (rule search_next_loop.simps)

text \<open>What happens when a sub-tree is exhausted.\<close>

definition resume :: "'w lua \<Rightarrow> oid \<Rightarrow> oid \<Rightarrow> mib_node option backlog \<Rightarrow> nat \<Rightarrow> nat \<Rightarrow> oid_search_res \<Rightarrow> 'w \<Rightarrow>
    (oid_search_res \<times> 'w) option" where
  "resume lua view orig stk pos id_len r w = (case stk of
      [] \<Rightarrow> map_option (\<lambda>r. (r, w)) (end_of_mib_view orig r)
    | (n, n_idx) # stk' \<Rightarrow> search_next_loop lua view orig
        \<lparr>ns_node = n, ns_immediate = True, ns_p_nbl = Some n_idx, ns_pos = pos - 1, ns_id_len = id_len,
         ns_stk = stk', ns_res = r, ns_w = w\<rparr>)"

lemma next_backtrack_resume:
  "(case next_backtrack orig s of
      None \<Rightarrow> None | Some (Return r w) \<Rightarrow> Some (r, w) | Some (Loop s') \<Rightarrow> search_next_loop lua view orig s') =
   resume lua view orig (ns_stk s) (ns_pos s) (ns_id_len s) (ns_res s) (ns_w s)"
  by (cases s) (auto simp: next_backtrack_def resume_def split: list.splits option.splits)

definition good :: "oid \<Rightarrow> oid_search_res \<Rightarrow> bool" where
  "good P r \<longleftrightarrow> prefix P (sr_oid r) \<and> length (sr_oid r) \<le> 1024 \<and> sr_request r = MIB_REQ_GETNEXT"

definition follows :: "'w lua \<Rightarrow> oid \<Rightarrow> oid \<Rightarrow> oid \<Rightarrow> mib_node option backlog \<Rightarrow>
    (oid_search_res \<times> 'w) option \<Rightarrow> 'w outcome \<Rightarrow> bool" where
  "follows lua view orig P stk res out = (case out of
      UB \<Rightarrow> res = None
    | Found q v e w \<Rightarrow> \<exists>r. res = Some (r, w) \<and> sr_id_len r = length q \<and> prefix q (sr_oid r) \<and>
        sr_var r = v \<and> sr_err_stat r = e
    | Exhausted v w \<Rightarrow> \<exists>r id_len. res = resume lua view orig stk (length P) id_len r w \<and> good P r \<and> sr_var r = v)"

lemma good_prefix: "good (P @ xs) r \<Longrightarrow> good P r"
  by (auto simp: good_def dest: append_prefixD)

lemma put_good:
  assumes "good P r" "length P < 1024"
  shows "\<exists>buf. put MIB_VALUE_MAX_LEN (sr_oid r) (length P) x = Some buf \<and> good (P @ [x]) (r\<lparr>sr_oid := buf\<rparr>) \<and>
    (\<forall>t. prefix (P @ x # t) (sr_oid r) \<longrightarrow> prefix (P @ x # t) buf)"
proof -
  have len: "length P \<le> length (sr_oid r)" "length (sr_oid r) \<le> 1024" "take (length P) (sr_oid r) = P"
    using assms(1) by (auto simp: good_def prefix_def)
  obtain buf where b: "put 1024 (sr_oid r) (length P) x = Some buf" "take (Suc (length P)) buf = P @ [x]"
    "Suc (length P) \<le> length buf" "length buf \<le> 1024" "drop (Suc (length P)) buf = drop (Suc (length P)) (sr_oid r)"
    using put_ok [OF len(1,2) assms(2), of x] len(3) by auto
  have buf: "buf = P @ x # drop (Suc (length P)) (sr_oid r)"
    using append_take_drop_id [of "Suc (length P)" buf] b(2,5) by simp
  show ?thesis
    using b(1,4) assms(1) by (auto simp: MIB_VALUE_MAX_LEN_def good_def buf prefix_def)
qed

abbreviation at :: "mib_node option \<Rightarrow> bool \<Rightarrow> int option \<Rightarrow> nat \<Rightarrow> nat \<Rightarrow> mib_node option backlog \<Rightarrow>
    oid_search_res \<Rightarrow> 'w \<Rightarrow> 'w next_state" where
  "at n imm p pos id_len stk r w \<equiv>
     \<lparr>ns_node = n, ns_immediate = imm, ns_p_nbl = p, ns_pos = pos, ns_id_len = id_len, ns_stk = stk, ns_res = r, ns_w = w\<rparr>"

lemma loop_None:
  "search_next_loop lua view orig (at None imm p pos id_len stk r w) = resume lua view orig stk pos id_len r w"
  using next_backtrack_resume [of lua view orig "at None imm p pos id_len stk r w"]
  by (subst loop_eq) (simp add: next_iter_def)

text \<open>An instance is one candidate.\<close>

lemma loop_inst_search:
  fixes id_len :: nat and imm :: bool
  assumes l: "l = (if imm \<or> id_len = 0 then 0 else id_len)"
    and "mib_instance_search lua (r\<lparr>sr_inst_id_len := l, sr_inst_id := pos, sr_callback := c\<rparr>) w = Some (err, r1, w1)"
  defines "r2 \<equiv> r1\<lparr>sr_err_stat := err\<rparr>"
  defines "r3 \<equiv> r2\<lparr>sr_id_len := pos + sr_inst_id_len r2\<rparr>"
  shows "search_next_loop lua view orig (at (Some (Instance c)) imm p pos id_len stk r w) =
    (if MIB_TAG_VALID (var_tag (sr_var r2)) then
       if sr_id_len r3 > MIB_OID_MAX_LEN then None
       else do { q \<leftarrow> rdn (sr_oid r3) 0 (sr_id_len r3);
                 if oid_cover view q = 0 then resume lua view orig stk pos id_len r3 w1 else Some (r3, w1) }
     else resume lua view orig stk pos id_len r2 w1)"
proof -
  have bt: "(case next_backtrack orig (at (Some (Instance c)) imm p pos id_len stk r' w1) of
      None \<Rightarrow> None | Some (Return r w) \<Rightarrow> Some (r, w) | Some (Loop s') \<Rightarrow> search_next_loop lua view orig s') =
      resume lua view orig stk pos id_len r' w1" for r'
    using next_backtrack_resume [of lua view orig "at (Some (Instance c)) imm p pos id_len stk r' w1"] by simp
  have i: "next_instance lua view orig c (at (Some (Instance c)) imm p pos id_len stk r w) =
    (if MIB_TAG_VALID (var_tag (sr_var r2)) then
       if sr_id_len r3 > MIB_OID_MAX_LEN then None
       else do { q \<leftarrow> rdn (sr_oid r3) 0 (sr_id_len r3);
                 if oid_cover view q = 0 then next_backtrack orig (at (Some (Instance c)) imm p pos id_len stk r3 w1)
                 else Some (Return r3 w1) }
     else next_backtrack orig (at (Some (Instance c)) imm p pos id_len stk r2 w1))"
    unfolding next_instance_def using assms(2)
    by (cases "imm \<or> id_len = 0") (simp_all add: l r2_def r3_def Let_def cong: if_cong)
  show ?thesis
    by (subst loop_eq) (auto simp: next_iter_def i bt rdn_def)
qed

lemma loop_inst_stuck:
  fixes id_len :: nat and imm :: bool
  assumes l: "l = (if imm \<or> id_len = 0 then 0 else id_len)"
    and "mib_instance_search lua (r\<lparr>sr_inst_id_len := l, sr_inst_id := pos, sr_callback := c\<rparr>) w = None"
  shows "search_next_loop lua view orig (at (Some (Instance c)) imm p pos id_len stk r w) = None"
proof -
  have "next_instance lua view orig c (at (Some (Instance c)) imm p pos id_len stk r w) = None"
    unfolding next_instance_def using assms(2) by (cases "imm \<or> id_len = 0") (simp_all add: l)
  then show ?thesis
    by (subst loop_eq) (simp add: next_iter_def)
qed

text \<open>A handler that answers without new identifiers, and one that names the instance it answers for.\<close>

lemma loop_inst_same:
  fixes id_len :: nat and imm :: bool
  assumes g: "good P r" "prefix (P @ rest) (sr_oid r)" "length rest = (if imm \<or> id_len = 0 then 0 else id_len)"
    and call: "inst_call lua c MIB_REQ_GETNEXT rest (sr_var r) w = Some (err, v', None, w')"
  shows "follows lua view orig P stk
    (search_next_loop lua view orig (at (Some (Instance c)) imm p (length P) id_len stk r w))
    (try_cands lua view [(P, c, rest)] (sr_var r) w)"
proof -
  let ?r = "r\<lparr>sr_inst_id_len := length rest, sr_inst_id := length P, sr_callback := c\<rparr>"
  let ?r1 = "?r\<lparr>sr_var := v', sr_err_stat := err\<rparr>"
  have ids: "rdn (sr_oid r) (length P) (length rest) = Some rest"
    and q: "rdn (sr_oid r) 0 (length P + length rest) = Some (P @ rest)"
    using g(2) by (auto simp: rdn_def prefix_def)
  then have s: "mib_instance_search lua ?r w = Some (err, ?r1, w')"
    using g(1) call by (simp add: mib_instance_search_def good_def)
  have "good P ?r1" "good P (?r1\<lparr>sr_id_len := length P + length rest\<rparr>)"
    using g(1) by (auto simp: good_def)
  then show ?thesis
    using call q g(2) loop_inst_search [OF g(3) s, of view orig p stk] by (auto simp: follows_def Let_def)
qed

lemma loop_inst_named:
  fixes id_len :: nat and imm :: bool
  assumes g: "good P r" "prefix (P @ rest) (sr_oid r)" "length rest = (if imm \<or> id_len = 0 then 0 else id_len)"
    and call: "inst_call lua c MIB_REQ_GETNEXT rest (sr_var r) w = Some (err, v', Some ids', w')"
  shows "follows lua view orig P stk
    (search_next_loop lua view orig (at (Some (Instance c)) imm p (length P) id_len stk r w))
    (try_cands lua view [(P, c, rest)] (sr_var r) w)"
proof -
  let ?r = "r\<lparr>sr_inst_id_len := length rest, sr_inst_id := length P, sr_callback := c\<rparr>"
  have ids: "rdn (sr_oid r) (length P) (length rest) = Some rest"
    using g(2) by (auto simp: rdn_def prefix_def)
  have req: "sr_request r = MIB_REQ_GETNEXT" and len: "length P \<le> length (sr_oid r)" "length (sr_oid r) \<le> 1024"
    using g(1) by (auto simp: good_def prefix_def)
  have valid: "MIB_TAG_VALID (var_tag v')"
    using inst_call_new [OF call] by simp
  show ?thesis
  proof (cases "put_ids (sr_oid r) (length P) ids'")
    case None
    then have "length P + length ids' > 1024"
      using put_ids_ok [OF len] by (metis leI not_None_eq)
    moreover have "mib_instance_search lua ?r w = None"
      using None ids req call by (simp add: mib_instance_search_def)
    ultimately show ?thesis
      using call valid loop_inst_stuck [OF g(3)] by (simp add: follows_def MIB_OID_MAX_LEN_def)
  next
    case buf: (Some buf)
    let ?r1 = "?r\<lparr>sr_var := v', sr_err_stat := err, sr_oid := buf, sr_inst_id_len := length ids'\<rparr>"
    have s: "mib_instance_search lua ?r w = Some (err, ?r1, w')"
      using ids req call buf by (simp add: mib_instance_search_def)
    have b: "take (length P + length ids') buf = P @ ids'" "length P + length ids' \<le> length buf" "length buf \<le> 1024"
      using put_ids_ok [OF len put_ids_mem [OF buf len]] buf g(1) by (auto simp: good_def prefix_def)
    then have q: "rdn buf 0 (length P + length ids') = Some (P @ ids')" and pre: "prefix (P @ ids') buf"
      by (auto simp: rdn_def) (metis append_take_drop_id prefixI)
    then show ?thesis
      using call append_prefixD [OF pre] valid req b(3) loop_inst_search [OF g(3) s, of view orig p stk]
      by (force simp: follows_def Let_def good_def)
  qed
qed

lemma loop_Instance:
  fixes id_len :: nat and imm :: bool
  assumes g: "good P r" "prefix (P @ rest) (sr_oid r)" "length rest = (if imm \<or> id_len = 0 then 0 else id_len)"
  shows "follows lua view orig P stk
    (search_next_loop lua view orig (at (Some (Instance c)) imm p (length P) id_len stk r w))
    (try_cands lua view [(P, c, rest)] (sr_var r) w)"
proof (cases "inst_call lua c MIB_REQ_GETNEXT rest (sr_var r) w")
  case None
  have "rdn (sr_oid r) (length P) (length rest) = Some rest" "sr_request r = MIB_REQ_GETNEXT"
    using g(1,2) by (auto simp: rdn_def prefix_def good_def)
  then have "mib_instance_search lua (r\<lparr>sr_inst_id_len := length rest, sr_inst_id := length P, sr_callback := c\<rparr>) w = None"
    using None by (simp add: mib_instance_search_def)
  then show ?thesis
    using None loop_inst_stuck [OF g(3)] by (simp add: follows_def)
next
  case (Some a)
  obtain err v' new w' where "a = (err, v', new, w')"
    by (cases a)
  then show ?thesis
    using Some loop_inst_same [OF g] loop_inst_named [OF g] by (cases new) (simp_all only:)
qed

text \<open>Composition: a sub-tree, then what the stack holds.\<close>

lemma follows_append:
  assumes "follows lua view orig (P @ [x]) ((n, j) # stk) res (try_cands lua view xs v w)"
    and "\<And>r' id_len w'. good P r' \<Longrightarrow> follows lua view orig P stk
      (search_next_loop lua view orig (at n True (Some j) (length P) id_len stk r' w'))
      (try_cands lua view ys (sr_var r') w')"
  shows "follows lua view orig P stk res (try_cands lua view (xs @ ys) v w)"
proof (cases "try_cands lua view xs v w")
  case (Exhausted v' w')
  then obtain r' id_len where r': "good (P @ [x]) r'" "sr_var r' = v'"
    "res = search_next_loop lua view orig (at n True (Some j) (length P) id_len stk r' w')"
    using assms(1) by (auto simp: follows_def resume_def)
  show ?thesis
    using assms(2) [OF good_prefix [OF r'(1)], of id_len w'] Exhausted r'(2,3)
    by (simp add: try_cands_append)
qed (use assms(1) in \<open>auto simp: follows_def try_cands_append\<close>)

lemma all_cands_append: "all_cands P (xs @ ys) = all_cands P xs @ all_cands P ys"
  by (simp add: all_cands_def)

lemma all_cands_Cons: "all_cands (P @ [x]) its = all_cands P (map (\<lambda>(p, c). (x # p, c)) its)"
  by (simp add: all_cands_def comp_def case_prod_beta')

text \<open>One step into sub-node \<open>i\<close>.\<close>

definition entry :: "mib_node \<Rightarrow> nat \<Rightarrow> nat \<Rightarrow> mib_node option \<times> int" where
  "entry g cnt i = (if Suc i < cnt then (Some g, int (Suc i)) else (None, - 1))"

lemma next_entry_nat: "next_entry g cnt (int i) = entry g cnt i" "next_entry g cnt 0 = entry g cnt 0"
  by (auto simp: next_entry_def entry_def)

lemma loop_immediate_step:
  assumes "i < length ids" "i < length ptrs" "length stk < 64"
    and "put MIB_VALUE_MAX_LEN (sr_oid r) pos (ids ! i) = Some buf"
    and "p = Some (int i) \<or> p = None \<and> i = 0"
  shows "search_next_loop lua view orig (at (Some (Group cap cnt ids ptrs)) True p pos id_len stk r w) =
    search_next_loop lua view orig (at (ptrs ! i) True None (Suc pos) id_len
      (entry (Group cap cnt ids ptrs) cnt i # stk) (r\<lparr>sr_oid := buf\<rparr>) w)"
proof -
  have "next_immediate (Group cap cnt ids ptrs) (at (Some (Group cap cnt ids ptrs)) True p pos id_len stk r w) =
    Some (Loop (at (ptrs ! i) True None (Suc pos) id_len
      (entry (Group cap cnt ids ptrs) cnt i # stk) (r\<lparr>sr_oid := buf\<rparr>) w))"
    using assms by (auto simp: rd_def nbl_push_def MIB_OID_MAX_LEN_def next_entry_nat)
  then show ?thesis
    by (subst loop_eq) (simp add: next_iter_def del: next_immediate.simps)
qed

lemma loop_kids:
  assumes ok: "arrays_ok cap cnt ids ptrs" "length stk < 64" "length P < 1024"
  defines "ks \<equiv> kids (Group cap cnt ids ptrs)"
  assumes IH: "\<And>x m stk' id_len r w. (x, m) \<in> set ks \<Longrightarrow> length stk' = Suc (length stk) \<Longrightarrow> good (P @ [x]) r \<Longrightarrow>
      follows lua view orig (P @ [x]) stk'
        (search_next_loop lua view orig (at (Some m) True None (Suc (length P)) id_len stk' r w))
        (try_cands lua view (all_cands (P @ [x]) (insts m)) (sr_var r) w)"
    and i: "i < cnt" "p = Some (int i) \<or> p = None \<and> i = 0" "good P r"
  shows "follows lua view orig P stk
    (search_next_loop lua view orig (at (Some (Group cap cnt ids ptrs)) True p (length P) id_len stk r w))
    (try_cands lua view (all_cands P (insts_of (drop i ks))) (sr_var r) w)"
  using i
proof (induction "cnt - i" arbitrary: i p id_len r w rule: less_induct)
  case (less i)
  note kids = arrays_kids [OF ok(1), folded ks_def]
  have il: "i < length ids" "i < length ptrs" "i < length ks"
    using less.prems(1) ok(1) kids(1) by (auto simp: arrays_ok_def)
  obtain x m where xm: "ks ! i = (x, m)"
    by fastforce
  have kid: "ids ! i = x" "ptrs ! i = Some m" "(x, m) \<in> set ks"
    using kids(4,5) [OF less.prems(1)] il(3) xm nth_mem [OF il(3)] by auto
  obtain buf where buf: "put MIB_VALUE_MAX_LEN (sr_oid r) (length P) x = Some buf" "good (P @ [x]) (r\<lparr>sr_oid := buf\<rparr>)"
    using put_good [OF less.prems(3) ok(3), of x] by blast
  let ?e = "entry (Group cap cnt ids ptrs) cnt i"
  have "search_next_loop lua view orig (at (Some (Group cap cnt ids ptrs)) True p (length P) id_len stk r w) =
      search_next_loop lua view orig (at (Some m) True None (Suc (length P)) id_len (?e # stk) (r\<lparr>sr_oid := buf\<rparr>) w)"
    using loop_immediate_step [OF il(1,2) ok(2) _ less.prems(2)] buf(1) kid(1,2) by simp
  moreover have "follows lua view orig (P @ [x]) (?e # stk)
      (search_next_loop lua view orig (at (Some m) True None (Suc (length P)) id_len (?e # stk) (r\<lparr>sr_oid := buf\<rparr>) w))
      (try_cands lua view (all_cands (P @ [x]) (insts m)) (sr_var r) w)"
    using IH [OF kid(3) _ buf(2), of "?e # stk" id_len w] by simp
  moreover have "follows lua view orig P stk
      (search_next_loop lua view orig (at (fst ?e) True (Some (snd ?e)) (length P) id_len' stk r' w'))
      (try_cands lua view (all_cands P (insts_of (drop (Suc i) ks))) (sr_var r') w')" if "good P r'" for r' id_len' w'
  proof (cases "Suc i < cnt")
    case True
    then show ?thesis
      using less.hyps [of "Suc i" "Some (int (Suc i))" r' id_len' w'] that by (simp add: entry_def)
  next
    case False
    then have "drop (Suc i) ks = []"
      using kids(1) by simp
    then show ?thesis
      using False that by (auto simp: loop_None follows_def all_cands_def entry_def)
  qed
  moreover have "all_cands P (insts_of (drop i ks)) =
      all_cands (P @ [x]) (insts m) @ all_cands P (insts_of (drop (Suc i) ks))"
    using il(3) xm by (simp add: all_cands_Cons all_cands_append flip: Cons_nth_drop_Suc)
  ultimately show ?case
    using follows_append [of lua view orig P x "fst ?e" "snd ?e" stk] by simp
qed

text \<open>The immediate mode tries every instance of a sub-tree.\<close>

lemma loop_all:
  assumes "wf_node n" "height n + length stk \<le> 64" "length P + height n \<le> 1024" "good P r"
  shows "follows lua view orig P stk
    (search_next_loop lua view orig (at (Some n) True None (length P) id_len stk r w))
    (try_cands lua view (all_cands P (insts n)) (sr_var r) w)"
  using assms
proof (induction n arbitrary: P stk id_len r w rule: kids_induct)
  case (Node g)
  show ?case
  proof (cases g)
    case (Instance c)
    then show ?thesis
      using loop_Instance [OF Node.prems(4), of "[]" True id_len] Node.prems(4)
      by (simp add: all_cands_def good_def)
  next
    case g: (Group cap cnt ids ptrs)
    have h: "0 < height g"
      using height_Group_pos by (simp add: g)
    then have ok: "arrays_ok cap cnt ids ptrs" and stk: "length stk < 64" "length P < 1024"
      using Node.prems by (auto simp: g wf_Group)
    show ?thesis
    proof (cases "cnt = 0")
      case True
      then have raw: "0 < length ids" "0 < length ptrs" "ptrs ! 0 = None" "kids g = []"
        using ok arrays_kids(1) [OF ok] by (auto simp: arrays_ok_def g)
      obtain buf where buf: "put MIB_VALUE_MAX_LEN (sr_oid r) (length P) (ids ! 0) = Some buf"
        "good (P @ [ids ! 0]) (r\<lparr>sr_oid := buf\<rparr>)"
        using put_good [OF Node.prems(4) stk(2)] by blast
      have "search_next_loop lua view orig (at (Some g) True None (length P) id_len stk r w) =
          resume lua view orig stk (length P) id_len (r\<lparr>sr_oid := buf\<rparr>) w"
        using loop_immediate_step [OF raw(1,2) stk(1) buf(1), where p = None and cnt = cnt] raw(3) True
        by (simp add: g loop_None resume_def [of _ _ _ "_ # _"] entry_def)
      then show ?thesis
        using good_prefix [OF buf(2)] raw(4) by (auto simp: g insts_Group all_cands_def follows_def)
    next
      case False
      have "follows lua view orig (P @ [x]) stk'
          (search_next_loop lua view orig (at (Some m) True None (Suc (length P)) id_len stk' r w))
          (try_cands lua view (all_cands (P @ [x]) (insts m)) (sr_var r) w)"
        if "(x, m) \<in> set (kids g)" "length stk' = Suc (length stk)" "good (P @ [x]) r" for x m stk' id_len r w
        using Node.IH [OF that(1), of stk' "P @ [x]" r id_len w] Node.prems height_kid [OF that(1)] that
        by (auto simp: g wf_Group)
      then show ?thesis
        using loop_kids [OF ok stk, of lua view orig 0 None r id_len w] False Node.prems(4)
        by (simp add: g insts_Group)
    qed
  qed
qed

subsection \<open>The matching mode\<close>

text \<open>The candidates from an identifier on, by sub-nodes.\<close>

lemma from_cands_append: "from_cands P t (xs @ ys) = from_cands P t xs @ from_cands P t ys"
  by (simp add: from_cands_def)

lemma from_cands_Nil: "from_cands P [] its = all_cands P its"
  by (induction its) (auto simp: from_cands_def all_cands_def Nil_less_iff)

lemma from_cands_less:
  "\<forall>(x, n) \<in> set ks. x < y \<Longrightarrow> from_cands P (y # t) (insts_of ks) = []"
  by (fastforce simp: from_cands_def filter_empty_conv)

lemma from_cands_greater:
  assumes "\<forall>(x, n) \<in> set ks. y < x"
  shows "from_cands P (y # t) (insts_of ks) = all_cands P (insts_of ks)"
proof -
  have "\<forall>(p, c) \<in> set (insts_of ks). \<not> prefix p (y # t) \<and> y # t < p"
    using assms by auto
  then show ?thesis
    by (induction "insts_of ks") (auto simp: from_cands_def all_cands_def filter_id_conv)
qed

lemma from_cands_eq:
  "from_cands P (y # t) (map (\<lambda>(p, c). (y # p, c)) its) = from_cands (P @ [y]) t its"
  by (induction its) (auto simp: from_cands_def)

lemma sorted_split:
  assumes "sorted_wrt (<) (map fst ks)"
  shows "\<forall>(x, n) \<in> set (take (kid_pos ks y) ks). x < y"
    "\<not> has_kid ks y \<Longrightarrow> \<forall>(x, n) \<in> set (drop (kid_pos ks y) ks). y < x"
    "has_kid ks y \<Longrightarrow> \<forall>(x, n) \<in> set (drop (Suc (kid_pos ks y)) ks). y < x"
proof -
  let ?i = "kid_pos ks y"
  have tk: "takeWhile (\<lambda>x. x < y) (map fst ks) = map fst (take ?i ks)"
    by (metis kid_pos_def ins_pos_def takeWhile_eq_take take_map)
  show "\<forall>(x, n) \<in> set (take ?i ks). x < y"
    using set_takeWhileD [of _ "\<lambda>x. x < y" "map fst ks"] unfolding tk by force
  have hd: "\<not> fst (ks ! ?i) < y" if "?i < length ks"
    using nth_length_takeWhile [of "\<lambda>x. x < y" "map fst ks"] that
    by (simp add: kid_pos_def ins_pos_def)
  have lt: "fst (ks ! a) < fst (ks ! b)" if "a < b" "b < length ks" for a b
    using sorted_wrt_nth_less [OF assms, of a b] that by simp
  have gt: "fst (ks ! ?i) < x" if xn: "(x, n) \<in> set (drop (Suc ?i) ks)" for x n
  proof -
    obtain j where "j < length ks - Suc ?i" "ks ! (Suc ?i + j) = (x, n)"
      using xn by (auto simp: in_set_conv_nth)
    then show ?thesis
      using lt [of ?i "Suc ?i + j"] by simp
  qed
  show "\<forall>(x, n) \<in> set (drop (Suc ?i) ks). y < x" if "has_kid ks y"
    using gt that by (auto simp: has_kid_def)
  show "\<forall>(x, n) \<in> set (drop ?i ks). y < x" if nk: "\<not> has_kid ks y"
  proof (cases "?i < length ks")
    case True
    then have "y < fst (ks ! ?i)"
      using hd nk by (auto simp: has_kid_def neq_iff)
    moreover have "drop ?i ks = ks ! ?i # drop (Suc ?i) ks"
      using True by (simp add: Cons_nth_drop_Suc)
    moreover have "y < x" if "(x, n) \<in> set (drop (Suc ?i) ks)" for x n
      using gt [OF that] \<open>y < fst (ks ! ?i)\<close> by (rule order.strict_trans [rotated])
    ultimately show ?thesis
      by (cases "ks ! ?i") auto
  qed simp
qed

lemma from_cands_found:
  assumes "sorted_wrt (<) (map fst ks)" "has_kid ks y"
  shows "from_cands P (y # t) (insts_of ks) =
    from_cands (P @ [y]) t (insts (snd (ks ! kid_pos ks y))) @ all_cands P (insts_of (drop (Suc (kid_pos ks y)) ks))"
proof -
  have "insts_of ks = insts_of (take (kid_pos ks y) ks) @
      map (\<lambda>(p, c). (y # p, c)) (insts (snd (ks ! kid_pos ks y))) @ insts_of (drop (Suc (kid_pos ks y)) ks)"
    by (subst split_kid(1) [OF assms(2)]) simp
  then show ?thesis
    using from_cands_less [OF sorted_split(1) [OF assms(1), of y]]
      from_cands_greater [OF sorted_split(3) [OF assms]]
    by (simp add: from_cands_append from_cands_eq)
qed

lemma from_cands_not_found:
  assumes "sorted_wrt (<) (map fst ks)" "\<not> has_kid ks y"
  shows "from_cands P (y # t) (insts_of ks) = all_cands P (insts_of (drop (kid_pos ks y) ks))"
proof -
  have "insts_of ks = insts_of (take (kid_pos ks y) ks) @ insts_of (drop (kid_pos ks y) ks)"
    by (simp flip: concat_append map_append)
  then show ?thesis
    using from_cands_less [OF sorted_split(1) [OF assms(1), of y]]
      from_cands_greater [OF sorted_split(2) [OF assms]]
    by (simp only: from_cands_append) simp
qed

text \<open>What follows a sub-node of a group.\<close>

lemma after_kid:
  assumes g: "wf_node g" "g = Group cap cnt ids ptrs" "height g + length stk \<le> 64" "length P + height g \<le> 1024"
    and i: "i < cnt" "good P r"
  shows "follows lua view orig P stk
    (search_next_loop lua view orig (at (fst (entry g cnt i)) True (Some (snd (entry g cnt i))) (length P) id_len stk r w))
    (try_cands lua view (all_cands P (insts_of (drop (Suc i) (kids g)))) (sr_var r) w)"
proof (cases "Suc i < cnt")
  case True
  have ok: "arrays_ok cap cnt ids ptrs" "length stk < 64" "length P < 1024"
    using g height_Group_pos [of cap cnt ids ptrs] by (auto simp: wf_Group)
  have "follows lua view orig (P @ [x]) stk'
      (search_next_loop lua view orig (at (Some m) True None (Suc (length P)) id_len stk' r w))
      (try_cands lua view (all_cands (P @ [x]) (insts m)) (sr_var r) w)"
    if "(x, m) \<in> set (kids g)" "length stk' = Suc (length stk)" "good (P @ [x]) r" for x m stk' id_len r w
    using loop_all [of m stk' "P @ [x]" r] g that height_kid [OF that(1)] by (auto simp: wf_Group)
  then show ?thesis
    using loop_kids [OF ok, of lua view orig "Suc i" "Some (int (Suc i))" r id_len w] True i(2)
    by (simp add: g(2) entry_def)
next
  case False
  then have "drop (Suc i) (kids g) = []"
    using g arrays_kids(1) [of cap cnt ids ptrs] by (simp add: wf_Group)
  then show ?thesis
    using False i(2) by (auto simp: loop_None follows_def all_cands_def entry_def)
qed

lemma loop_match_step:
  assumes ok: "arrays_ok cap cnt ids ptrs" and g: "g = Group cap cnt ids ptrs" "length stk < 64"
    and y: "rd (sr_oid r) pos = Some y" and len: "0 < id_len" "id_len < 2 ^ 32"
    and i: "i = kid_pos (kids g) y" "i < cnt" "has_kid (kids g) y \<or> i \<noteq> 0"
    and buf: "put MIB_VALUE_MAX_LEN (sr_oid r) pos (fst (kids g ! i)) = Some buf"
  defines "m \<equiv> snd (kids g ! i)"
  shows "search_next_loop lua view orig (at (Some g) False None pos id_len stk r w) =
    search_next_loop lua view orig
      (at (Some m) (\<not> has_kid (kids g) y \<or> id_len = 1 \<and> (\<exists>cap cnt ids ptrs. m = Group cap cnt ids ptrs))
         None (Suc pos) (id_len - 1) (entry g cnt i # stk) (r\<lparr>sr_oid := buf\<rparr>) w)"
proof -
  note kids = arrays_kids(4,5) [OF ok i(2)]
  have il: "rd ids i = Some (fst (kids g ! i))" "rd ptrs i = Some (Some m)"
    using kids ok i(2) by (auto simp: arrays_ok_def rd_def g(1) m_def)
  have s: "oid_binary_search ids cnt y = Some (if has_kid (kids g) y then int i else - int i - 1)"
    using search_kids [OF ok] by (simp add: g(1) i(1))
  have u: "uint32 (int id_len - 1) = id_len - 1"
    using len by (simp add: uint32_def nat_diff_distrib)
  have grp: "(case m of Group _ _ _ _ \<Rightarrow> Some True | Instance _ \<Rightarrow> Some False) =
      Some (\<exists>cap cnt ids ptrs. m = Group cap cnt ids ptrs)"
    by (cases m) auto
  have "next_match orig g (at (Some g) False None pos id_len stk r w) = Some (Loop
      (at (Some m) (\<not> has_kid (kids g) y \<or> id_len = 1 \<and> (\<exists>cap cnt ids ptrs. m = Group cap cnt ids ptrs))
         None (Suc pos) (id_len - 1) (entry g cnt i # stk) (r\<lparr>sr_oid := buf\<rparr>) w))"
    using y s il buf g(2) i(2,3) len
    by (auto simp: g(1) nbl_push_def MIB_OID_MAX_LEN_def next_entry_nat u grp nat_diff_distrib)
  then show ?thesis
    by (subst loop_eq) (simp add: next_iter_def g(1) del: next_match.simps)
qed

lemma loop_match_miss:
  assumes ok: "arrays_ok cap cnt ids ptrs" and g: "g = Group cap cnt ids ptrs"
    and y: "rd (sr_oid r) pos = Some y" "\<not> has_kid (kids g) y"
  shows "kid_pos (kids g) y = cnt \<Longrightarrow>
      search_next_loop lua view orig (at (Some g) False None pos id_len stk r w) = resume lua view orig stk pos id_len r w"
    "kid_pos (kids g) y = 0 \<Longrightarrow> cnt \<noteq> 0 \<Longrightarrow>
      search_next_loop lua view orig (at (Some g) False None pos id_len stk r w) =
      search_next_loop lua view orig (at (Some g) True None pos id_len stk r w)"
proof -
  have s: "oid_binary_search ids cnt y = Some (- int (kid_pos (kids g) y) - 1)"
    using search_kids [OF ok] y(2) by (simp add: g)
  note bt = next_backtrack_resume [of lua view orig "at (Some g) True None pos id_len stk r w"]
  have "next_match orig g (at (Some g) False None pos id_len stk r w) =
      next_backtrack orig (at (Some g) True None pos id_len stk r w)" if "kid_pos (kids g) y = cnt"
    using y(1) s that by (simp add: g)
  then show "search_next_loop lua view orig (at (Some g) False None pos id_len stk r w) = resume lua view orig stk pos id_len r w"
    if "kid_pos (kids g) y = cnt"
    using that bt by (subst loop_eq) (simp add: next_iter_def g del: next_match.simps)
  have "next_match orig g (at (Some g) False None pos id_len stk r w) = Some (Loop (at (Some g) True None pos id_len stk r w))"
    if "kid_pos (kids g) y = 0" "cnt \<noteq> 0"
    using y(1) s that by (simp add: g)
  then show "search_next_loop lua view orig (at (Some g) False None pos id_len stk r w) =
      search_next_loop lua view orig (at (Some g) True None pos id_len stk r w)"
    if "kid_pos (kids g) y = 0" "cnt \<noteq> 0"
    using that by (subst loop_eq) (simp add: next_iter_def g del: next_match.simps)
qed

lemma loop_enter:
  assumes g: "wf_node g" "g = Group cap cnt ids ptrs" "height g + length stk \<le> 64" "length P + height g \<le> 1024"
    and y: "rd (sr_oid r) (length P) = Some y" and len: "0 < id_len" "id_len < 2 ^ 32"
    and i: "i = kid_pos (kids g) y" "i < cnt" "has_kid (kids g) y \<or> i \<noteq> 0" "kids g ! i = (x, m)"
    and buf: "put MIB_VALUE_MAX_LEN (sr_oid r) (length P) x = Some buf"
    and sub: "follows lua view orig (P @ [x]) (entry g cnt i # stk)
      (search_next_loop lua view orig
        (at (Some m) (\<not> has_kid (kids g) y \<or> id_len = 1 \<and> (\<exists>cap cnt ids ptrs. m = Group cap cnt ids ptrs))
           None (Suc (length P)) (id_len - 1) (entry g cnt i # stk) (r\<lparr>sr_oid := buf\<rparr>) w))
      (try_cands lua view cs (sr_var r) w)"
  shows "follows lua view orig P stk
    (search_next_loop lua view orig (at (Some g) False None (length P) id_len stk r w))
    (try_cands lua view (cs @ all_cands P (insts_of (drop (Suc i) (kids g)))) (sr_var r) w)"
proof -
  have ok: "arrays_ok cap cnt ids ptrs" "length stk < 64"
    using g height_Group_pos [of cap cnt ids ptrs] by (auto simp: wf_Group)
  have e: "entry g cnt i # stk = (fst (entry g cnt i), snd (entry g cnt i)) # stk"
    by simp
  note step = loop_match_step [OF ok(1) g(2) ok(2) y len i(1-3), unfolded i(4) fst_conv snd_conv, OF buf]
  show ?thesis
    unfolding step by (rule follows_append [OF sub [unfolded e] after_kid [OF g i(2)], unfolded prod.collapse])
qed

text \<open>The matching mode tries the instances from the identifier on.\<close>

text \<open>A group without the next sub-identifier: the search goes back if all its children are below it, and takes all its instances if all are above it.\<close>

lemma loop_from_miss:
  assumes "wf_node g" "g = Group cap cnt ids ptrs" "height g + length stk \<le> 64" "length P + height g \<le> 1024" "good P r"
    and "prefix (P @ y # t') (sr_oid r)" "\<not> has_kid (kids g) y" "kid_pos (kids g) y = 0 \<or> kid_pos (kids g) y = cnt"
  shows "follows lua view orig P stk
    (search_next_loop lua view orig (at (Some g) False None (length P) (length (y # t')) stk r w))
    (try_cands lua view (from_cands P (y # t') (insts g)) (sr_var r) w)"
proof -
  have ok: "arrays_ok cap cnt ids ptrs" and I: "insts g = insts_of (kids g)"
    using assms(1,2) by (simp_all add: wf_Group insts_Group)
  note kids = arrays_kids [OF ok, folded assms(2)]
  have rdy: "rd (sr_oid r) (length P) = Some y"
    using assms(6) by (auto simp: rd_def prefix_def nth_append)
  note c = from_cands_not_found [OF kids(3) assms(7), of P t', folded I]
  note miss = loop_match_miss [OF ok assms(2) rdy assms(7)]
  show ?thesis
  proof (cases "kid_pos (kids g) y = cnt")
    case True
    then show ?thesis
      using miss(1) c kids(1) assms(5)
      by (auto simp: follows_def all_cands_def intro!: exI [of _ r] exI [of _ "length (y # t')"])
  next
    case False
    then have "from_cands P (y # t') (insts g) = all_cands P (insts g)" "kid_pos (kids g) y = 0" "cnt \<noteq> 0"
      using c assms(8) by (auto simp: I)
    then show ?thesis
      by (simp add: miss(2) loop_all [OF assms(1,3-5)])
  qed
qed

text \<open>A group the search enters at a child: below the sub-identifier of the request, or above it, where all instances are taken.\<close>

lemma loop_from_enter:
  assumes "wf_node g" "g = Group cap cnt ids ptrs" "height g + length stk \<le> 64" "length P + height g \<le> 1024" "good P r"
    and "prefix (P @ y # t') (sr_oid r)" "has_kid (kids g) y \<or> 0 < kid_pos (kids g) y \<and> kid_pos (kids g) y < cnt"
    and IH: "\<And>x m P stk r. (x, m) \<in> set (kids g) \<Longrightarrow> wf_node m \<Longrightarrow> height m + length stk \<le> 64 \<Longrightarrow> length P + height m \<le> 1024 \<Longrightarrow> good P r \<Longrightarrow>
      prefix (P @ t') (sr_oid r) \<Longrightarrow> (\<And>cap cnt ids ptrs. m = Group cap cnt ids ptrs \<Longrightarrow> t' \<noteq> []) \<Longrightarrow>
      follows lua view orig P stk (search_next_loop lua view orig (at (Some m) False None (length P) (length t') stk r w))
        (try_cands lua view (from_cands P t' (insts m)) (sr_var r) w)"
  shows "follows lua view orig P stk
    (search_next_loop lua view orig (at (Some g) False None (length P) (length (y # t')) stk r w))
    (try_cands lua view (from_cands P (y # t') (insts g)) (sr_var r) w)"
proof -
  let ?i = "kid_pos (kids g) y" and ?t = "y # t'"
  have ok: "arrays_ok cap cnt ids ptrs" and stk: "length stk < 64" "length P < 1024" and I: "insts g = insts_of (kids g)"
    using assms(1,3,4) height_Group_pos [of cap cnt ids ptrs] by (auto simp: assms(2) wf_Group insts_Group)
  note kids = arrays_kids [OF ok, folded assms(2)]
  have rdy: "rd (sr_oid r) (length P) = Some y" and lt: "0 < length ?t" "length ?t < 2 ^ 32"
    using assms(5,6) by (auto simp: rd_def prefix_def good_def nth_append)
  have i: "?i < cnt" "has_kid (kids g) y \<or> ?i \<noteq> 0"
    using assms(7) kids(1) by (auto simp: has_kid_def)
  obtain x m where xm: "kids g ! ?i = (x, m)"
    by fastforce
  have mem: "(x, m) \<in> set (kids g)"
    using i(1) kids(1) xm nth_mem by metis
  obtain buf where buf: "put MIB_VALUE_MAX_LEN (sr_oid r) (length P) x = Some buf"
    "good (P @ [x]) (r\<lparr>sr_oid := buf\<rparr>)" "\<And>t. prefix (P @ x # t) (sr_oid r) \<Longrightarrow> prefix (P @ x # t) buf"
    using put_good [OF assms(5) stk(2), of x] by blast
  have m: "wf_node m" "height m < height g"
    using assms(1) mem height_kid by (auto simp: assms(2) wf_Group)
  note enter = loop_enter [OF assms(1-4) rdy lt refl i xm buf(1)]
  show ?thesis
  proof (cases "\<not> has_kid (kids g) y \<or> length ?t = 1 \<and> (\<exists>cap cnt ids ptrs. m = Group cap cnt ids ptrs)")
    case imm: True
    have "from_cands P ?t (insts g) = all_cands (P @ [x]) (insts m) @ all_cands P (insts_of (drop (Suc ?i) (kids g)))"
      using imm from_cands_found [OF kids(3), of y P t'] from_cands_not_found [OF kids(3), of y P t'] xm i(1) kids(1)
      by (cases "has_kid (kids g) y") (auto simp: I from_cands_Nil has_kid_def all_cands_Cons all_cands_append
          simp flip: Cons_nth_drop_Suc)
    moreover have "follows lua view orig (P @ [x]) (entry g cnt ?i # stk) (search_next_loop lua view orig
        (at (Some m) True None (Suc (length P)) (length ?t - 1) (entry g cnt ?i # stk) (r\<lparr>sr_oid := buf\<rparr>) w))
        (try_cands lua view (all_cands (P @ [x]) (insts m)) (sr_var r) w)"
      using loop_all [OF m(1) _ _ buf(2), of "entry g cnt ?i # stk"] assms(3,4) m(2) by simp
    ultimately show ?thesis
      using enter [of lua view orig w "all_cands (P @ [x]) (insts m)"] by (simp only: eqTrueI [OF imm])
  next
    case False
    then have xy: "has_kid (kids g) y" "x = y"
      using xm by (auto simp: has_kid_def)
    then have "from_cands P ?t (insts g) = from_cands (P @ [x]) t' (insts m) @ all_cands P (insts_of (drop (Suc ?i) (kids g)))"
      using from_cands_found [OF kids(3), of y P t'] xm by (simp add: I)
    then show ?thesis
      using enter [of lua view orig w "from_cands (P @ [x]) t' (insts m)"] False xy(2)
        IH [OF mem m(1) _ _ buf(2), of "entry g cnt ?i # stk"] buf(3) [of t'] assms(3,4,6) m(2)
      by auto
  qed
qed

lemma loop_from:
  assumes "wf_node n" "height n + length stk \<le> 64" "length P + height n \<le> 1024" "good P r"
    and "prefix (P @ t) (sr_oid r)" "\<And>cap cnt ids ptrs. n = Group cap cnt ids ptrs \<Longrightarrow> t \<noteq> []"
  shows "follows lua view orig P stk
    (search_next_loop lua view orig (at (Some n) False None (length P) (length t) stk r w))
    (try_cands lua view (from_cands P t (insts n)) (sr_var r) w)"
  using assms
proof (induction n arbitrary: P t stk r w rule: kids_induct)
  case (Node g)
  show ?case
  proof (cases g)
    case (Instance c)
    have "length t = (if False \<or> length t = 0 then 0 else length t)"
      by simp
    from loop_Instance [OF Node.prems(4,5) this] show ?thesis
      using Instance by (simp add: from_cands_def del: try_cands.simps)
  next
    case g: (Group cap cnt ids ptrs)
    then obtain y t' where t: "t = y # t'"
      using Node.prems(6) by (cases t) auto
    have "kid_pos (kids g) y \<le> cnt"
      using kid_pos_le [of "kids g" y] arrays_kids(1) [of cap cnt ids ptrs] Node.prems(1) by (simp add: g wf_Group)
    then consider "has_kid (kids g) y \<or> 0 < kid_pos (kids g) y \<and> kid_pos (kids g) y < cnt"
      | "\<not> has_kid (kids g) y" "kid_pos (kids g) y = 0 \<or> kid_pos (kids g) y = cnt"
      by linarith
    then show ?thesis
    proof cases
      case 1
      show ?thesis
        unfolding t by (rule loop_from_enter [OF Node.prems(1) g Node.prems(2-4) Node.prems(5) [unfolded t] 1 Node.IH])
    next
      case 2
      show ?thesis
        unfolding t by (rule loop_from_miss [OF Node.prems(1) g Node.prems(2-4) Node.prems(5) [unfolded t] 2])
    qed
  qed
qed


section \<open>The whole search\<close>

text \<open>The deepest node on the way to an identifier, and its depth.\<close>

fun deepest :: "mib_node \<Rightarrow> oid \<Rightarrow> mib_node \<times> nat" where
  "deepest n [] = (n, 0)"
| "deepest n (x # oid) = (case map_of (kids n) x of
      None \<Rightarrow> (n, 0)
    | Some m \<Rightarrow> (let (m', k) = deepest m oid in (m', Suc k)))"

lemma deepest_ok:
  assumes "wf_node n" "deepest n oid = (m, k)"
  shows "k \<le> length oid \<and> wf_node m \<and> height m + k \<le> height n \<and> node_of n (take k oid) = Some m"
  using assms
proof (induction oid arbitrary: n k)
  case (Cons x oid)
  show ?case
  proof (cases "map_of (kids n) x")
    case (Some m1)
    then have "(x, m1) \<in> set (kids n)"
      by (rule map_of_SomeD)
    moreover obtain k' where k': "k = Suc k'" "deepest m1 oid = (m, k')"
      using Cons.prems(2) Some by (auto split: prod.splits)
    moreover have "wf_node m1"
      using Cons.prems(1) calculation(1) by (cases n) (auto simp: wf_Group)
    ultimately show ?thesis
      using Cons.IH [of m1 k'] Some height_kid [of x m1 n] by auto
  qed (use Cons.prems in auto)
qed simp

lemma node_of_append: "node_of n (p @ q) = do { m \<leftarrow> node_of n p; node_of m q }"
  by (induction p arbitrary: n) auto

lemma deepest_max:
  "node_of n p \<noteq> None \<Longrightarrow> prefix p oid \<Longrightarrow> deepest n oid = (m, k) \<Longrightarrow> length p \<le> k"
proof (induction oid arbitrary: n p k)
  case (Cons x oid)
  show ?case
  proof (cases p)
    case (Cons y p')
    then obtain m1 where "y = x" "map_of (kids n) x = Some m1" "node_of m1 p' \<noteq> None" "prefix p' oid"
      using Cons.prems by (auto split: bind_splits)
    then show ?thesis
      using Cons.IH [of m1 p'] Cons.prems(3) Cons by (auto split: prod.splits)
  qed simp
qed simp

definition stop_at :: "mib_node \<Rightarrow> bool \<Rightarrow> stop" where
  "stop_at m at_end = (if at_end then End_Of_Oid (Some m)
     else case m of Instance c \<Rightarrow> At_Instance m | Group cap cnt ids ptrs \<Rightarrow> No_Sub m)"

lemma tree_search_loop_ok:
  assumes "wf_node n" "deepest n oid = (m, k)"
  shows "tree_search_loop n oid off = Some (stop_at m (k = length oid), off + k)"
  using assms
proof (induction oid arbitrary: n k off)
  case (Cons x oid)
  show ?case
  proof (cases n)
    case n: (Group cap cnt ids ptrs)
    have ok: "arrays_ok cap cnt ids ptrs"
      using Cons.prems(1) by (simp add: n wf_Group)
    note s = search_kids [OF ok, of x, folded n] and mo = map_of_kid [OF arrays_kids(3) [OF ok], of x, folded n]
    show ?thesis
    proof (cases "map_of (kids n) x")
      case None
      then show ?thesis
        using Cons.prems(2) s mo by (auto simp: n stop_at_def split: if_splits)
    next
      case (Some m1)
      note kid = kid_of [OF ok, folded n, OF Some]
      obtain k' where k': "k = Suc k'" "deepest m1 oid = (m, k')"
        using Cons.prems(2) Some by (auto split: prod.splits)
      have "wf_node m1"
        using Cons.prems(1) kid(6) by (auto simp: n wf_Group)
      then show ?thesis
        using Cons.IH [of m1 k' "Suc off"] k' kid s by (simp add: n rd_def)
    qed
  qed (use Cons.prems in \<open>auto simp: stop_at_def\<close>)
qed (simp add: stop_at_def)

text \<open>Looking up the identifier of the view itself, with which a GETNEXT starts: a handler is asked
  if an instance lies above it.\<close>

definition probe :: "'w lua \<Rightarrow> mib_node \<Rightarrow> oid \<Rightarrow> variable \<Rightarrow> 'w \<Rightarrow> (variable \<times> 'w) option" where
  "probe lua root view v w =
     (case deepest root view of
        (Instance c, k) \<Rightarrow>
          if k = length view then Some (v\<lparr>var_tag := ASN1_TAG_NO_SUCH_INST\<rparr>, w)
          else map_option (\<lambda>(e, v', _, w'). (v', w')) (inst_call lua c MIB_REQ_GET (drop k view) v w)
      | (Group _ _ _ _, k) \<Rightarrow> Some (v\<lparr>var_tag := ASN1_TAG_NO_SUCH_OBJ\<rparr>, w))"

lemma inst_call_get: "inst_call lua c MIB_REQ_GET ids v w = Some (e, v', new, w') \<Longrightarrow> new = None"
  by (auto simp: inst_call_def Let_def split: bind_splits option.splits prod.splits if_splits)

lemma search_view_ok:
  assumes "wf_node root" "length view \<le> 1024" "deepest root view = (m, k)" "sr_request r = MIB_REQ_GET"
  shows "case probe lua root view (sr_var r) w of
      None \<Rightarrow> mib_tree_search lua root view view r w = None
    | Some (v, w') \<Rightarrow> \<exists>r'. mib_tree_search lua root view view r w = Some (Some m, r', w') \<and>
        sr_oid r' = view \<and> sr_id_len r' = length view \<and> sr_inst_id r' = k \<and> sr_var r' = v"
proof -
  have k: "k \<le> length view"
    using deepest_ok [OF assms(1,3)] by simp
  have c: "oid_cover view view = 1" "oid_dup view = Some view"
    using assms(2) by (simp_all add: oid_cover_prefix oid_dup_def MIB_VALUE_MAX_LEN_def)
  note l = tree_search_loop_ok [OF assms(1,3), of 0]
  show ?thesis
  proof (cases m)
    case (Group cap cnt ids ptrs)
    then show ?thesis
      using assms(3) by (auto simp: mib_tree_search_def c l stop_at_def probe_def set_tag_def Let_def)
  next
    case m: (Instance cb)
    show ?thesis
    proof (cases "k = length view")
      case True
      then show ?thesis
        using assms(3) by (auto simp: mib_tree_search_def c l stop_at_def probe_def set_tag_def Let_def m)
    next
      case False
      have "rdn view k (length view - k) = Some (drop k view)"
        using k by (simp add: rdn_def)
      then show ?thesis
        using False assms(3,4) inst_call_get [of lua cb "drop k view" "sr_var r" w]
        by (cases "inst_call lua cb MIB_REQ_GET (drop k view) (sr_var r) w")
          (auto simp: mib_tree_search_def c l stop_at_def probe_def Let_def m mib_instance_search_def)
    qed
  qed
qed

text \<open>The specification of \<open>mib_tree_search_next\<close>: the candidates from the requested identifier on,
  if it is in the view, and all below the view, if it is ahead of the view.\<close>

definition next_cands :: "mib_node \<Rightarrow> oid \<Rightarrow> oid \<Rightarrow> (oid \<times> int \<times> oid) list" where
  "next_cands root view orig =
     (case deepest root view of (m, k) \<Rightarrow>
        if prefix view orig then from_cands (take k view) (drop k orig) (insts m)
        else case m of
            Group _ _ _ _ \<Rightarrow> all_cands (take k view) (insts m)
          | Instance c \<Rightarrow> [(take k view, c, drop k view)])"

definition next_spec :: "'w lua \<Rightarrow> mib_node \<Rightarrow> oid \<Rightarrow> oid \<Rightarrow> variable \<Rightarrow> 'w \<Rightarrow> 'w outcome" where
  "next_spec lua root view orig v w =
     (if prefix view orig \<or> oid_cmp orig view < 0 then
        case probe lua root view v w of
          None \<Rightarrow> UB
        | Some (v', w') \<Rightarrow> try_cands lua view (next_cands root view orig) v' w'
      else Exhausted v w)"

definition next_result :: "oid \<Rightarrow> 'w outcome \<Rightarrow> (oid_search_res \<times> 'w) option \<Rightarrow> bool" where
  "next_result orig out res = (case out of
      UB \<Rightarrow> res = None
    | Found q v e w \<Rightarrow> \<exists>r. res = Some (r, w) \<and> sr_id_len r = length q \<and> prefix q (sr_oid r) \<and>
        sr_var r = v \<and> sr_err_stat r = e
    | Exhausted v w \<Rightarrow> \<exists>r. res = Some (r, w) \<and> sr_id_len r = length orig \<and> prefix orig (sr_oid r) \<and>
        sr_var r = v\<lparr>var_tag := ASN1_TAG_END_OF_MIB_VIEW\<rparr> \<and> sr_err_stat r = 0)"

lemma follows_result:
  "follows lua view orig P [] res out \<Longrightarrow> length orig \<le> 1024 \<Longrightarrow> next_result orig out res"
  by (auto simp: follows_def next_result_def resume_def end_of_mib_view_def oid_cpy_def set_tag_def
      MIB_VALUE_MAX_LEN_def split: outcome.splits)

lemma uint32_diff: "k \<le> n \<Longrightarrow> n \<le> 1024 \<Longrightarrow> uint32 (int n - int k) = n - k"
  by (simp add: uint32_def nat_diff_distrib flip: of_nat_diff)

text \<open>The search from a node, in the mode \<open>immediate\<close> or from an identifier.\<close>

lemma loop_start:
  assumes "wf_node m" "height m \<le> 64" "length P \<le> 64" "good P r" "prefix (P @ t) (sr_oid r)" "length orig \<le> 1024"
    and "imm = (t = [])"
  shows "next_result orig (try_cands lua view (from_cands P t (insts m)) (sr_var r) w)
    (search_next_loop lua view orig (next_start (Some m) imm (length P) (length t) r w))"
proof (cases "t = []")
  case True
  then show ?thesis
    using loop_all [of m "[]" P r lua view orig "length t" w] assms
    by (auto simp: next_start_def from_cands_Nil intro: follows_result)
next
  case False
  then show ?thesis
    using loop_from [of m "[]" P r t lua view orig w] assms by (auto simp: next_start_def intro: follows_result)
qed

text \<open>The search of the view that fixes where the search begins.\<close>

lemma probe_None:
  assumes "wf_node root" "length view \<le> 1024" "probe lua root view (sr_var r) w = None"
  shows "mib_tree_search lua root view view (r\<lparr>sr_request := MIB_REQ_GET\<rparr>) w = None"
  using search_view_ok [OF assms(1,2), of _ _ "r\<lparr>sr_request := MIB_REQ_GET\<rparr>" lua w] assms(3)
  by (cases "deepest root view") simp

lemma probe_Some:
  assumes "wf_node root" "length view \<le> 1024" "deepest root view = (m, k)"
    and "probe lua root view (sr_var r) w = Some (v, w')"
  obtains r' where "mib_tree_search lua root view view (r\<lparr>sr_request := MIB_REQ_GET\<rparr>) w = Some (Some m, r', w')"
    "sr_oid r' = view" "sr_id_len r' = length view" "sr_inst_id r' = k" "sr_var r' = v"
  using search_view_ok [OF assms(1-3), of "r\<lparr>sr_request := MIB_REQ_GET\<rparr>" lua w] assms(4) by auto

lemma next_probe_None:
  assumes "wf_node root" "length view \<le> 1024" "prefix view orig \<or> oid_cmp orig view < 0"
    and "probe lua root view (sr_var r) w = None"
  shows "next_result orig (next_spec lua root view orig (sr_var r) w) (mib_tree_search_next lua root view orig r w)"
  using assms(3,4) probe_None [OF assms(1,2,4)]
  by (auto simp: next_spec_def next_result_def mib_tree_search_next_def oid_cover_pos)

lemma next_in_view:
  assumes root: "wf_node root" "height root \<le> 64" and len: "length view \<le> 1024" "length orig \<le> 1024"
    and pre: "prefix view orig" and probe: "probe lua root view (sr_var r) w = Some (v, w')"
  shows "next_result orig (next_spec lua root view orig (sr_var r) w) (mib_tree_search_next lua root view orig r w)"
proof -
  obtain m k where mk: "deepest root view = (m, k)"
    by fastforce
  note d = deepest_ok [OF root(1) mk]
  obtain r' where r': "mib_tree_search lua root view view (r\<lparr>sr_request := MIB_REQ_GET\<rparr>) w = Some (Some m, r', w')"
      "sr_oid r' = view" "sr_id_len r' = length view" "sr_inst_id r' = k" "sr_var r' = v"
    using probe_Some [OF root(1) len(1) mk probe] .
  have le: "length view \<le> length orig" "k \<le> length orig"
    using pre d prefix_length_le by fastforce+
  have tk: "take k view = take k orig"
    using pre d by (auto simp: prefix_def)
  let ?r2 = "r'\<lparr>sr_request := MIB_REQ_GETNEXT, sr_oid := orig, sr_id_len := length orig, sr_err_stat := 0\<rparr>"
  have "oid_cpy (sr_oid r') orig = Some orig"
    using len(2) le(1) by (simp add: oid_cpy_def r'(2) MIB_VALUE_MAX_LEN_def)
  then have L: "mib_tree_search_next lua root view orig r w =
      search_next_loop lua view orig (next_start (Some m) (length orig \<le> k) k (length orig - k) ?r2 w')"
    using pre r'(1,4) uint32_diff [OF le(2) len(2)] by (simp add: mib_tree_search_next_def oid_cover_pos)
  have S: "next_spec lua root view orig (sr_var r) w =
      try_cands lua view (from_cands (take k view) (drop k orig) (insts m)) v w'"
    using pre probe mk by (simp add: next_spec_def next_cands_def)
  have "good (take k view) ?r2"
    using len(2) by (simp add: good_def tk take_is_prefix)
  moreover have "prefix (take k view @ drop k orig) (sr_oid ?r2)" "length (take k view) = k"
    "length (take k view) \<le> 64" "height m \<le> 64" "wf_node m" "(length orig \<le> k) = (drop k orig = [])"
    using d root(2) le(2) by (simp_all add: tk min_absorb2)
  ultimately have "next_result orig (try_cands lua view (from_cands (take k view) (drop k orig) (insts m)) (sr_var ?r2) w')
      (search_next_loop lua view orig
        (next_start (Some m) (length orig \<le> k) (length (take k view)) (length (drop k orig)) ?r2 w'))"
    using len(2) by (intro loop_start)
  then show ?thesis
    using L S r'(5) \<open>length (take k view) = k\<close> by (simp only: length_drop) simp
qed

text \<open>The search that starts at a view ahead of the identifier: all of a group, or the instance from the rest of the view.\<close>

lemma loop_ahead:
  assumes m: "wf_node m" "height m \<le> 64" "length P \<le> 64" and g: "good P r" "prefix (P @ t) (sr_oid r)" "length orig \<le> 1024"
  shows "next_result orig
    (try_cands lua view (case m of Group _ _ _ _ \<Rightarrow> all_cands P (insts m) | Instance _ \<Rightarrow> from_cands P t (insts m)) (sr_var r) w)
    (search_next_loop lua view orig
      (next_start (Some m) (case m of Group _ _ _ _ \<Rightarrow> True | Instance _ \<Rightarrow> False) (length P) (length t) r w))"
proof (cases m)
  case (Group cap cnt ids ptrs)
  have "follows lua view orig P [] (search_next_loop lua view orig (at (Some m) True None (length P) (length t) [] r w))
      (try_cands lua view (all_cands P (insts m)) (sr_var r) w)"
    using loop_all [of m "[]" P r lua view orig "length t" w] m g(1) by simp
  then show ?thesis
    using follows_result g(3) Group by (simp add: next_start_def) blast
next
  case (Instance cb)
  have "follows lua view orig P [] (search_next_loop lua view orig (at (Some m) False None (length P) (length t) [] r w))
      (try_cands lua view (from_cands P t (insts m)) (sr_var r) w)"
    using loop_from [of m "[]" P r t lua view orig w] m g Instance by simp
  then show ?thesis
    using follows_result g(3) Instance by (simp add: next_start_def) blast
qed

lemma next_ahead:
  assumes root: "wf_node root" "height root \<le> 64" and len: "length view \<le> 1024" "length orig \<le> 1024"
    and ahead: "\<not> prefix view orig" "oid_cmp orig view < 0" and probe: "probe lua root view (sr_var r) w = Some (v, w')"
  shows "next_result orig (next_spec lua root view orig (sr_var r) w) (mib_tree_search_next lua root view orig r w)"
proof -
  obtain m k where mk: "deepest root view = (m, k)"
    by fastforce
  note d = deepest_ok [OF root(1) mk]
  obtain r' where r': "mib_tree_search lua root view view (r\<lparr>sr_request := MIB_REQ_GET\<rparr>) w = Some (Some m, r', w')"
      "sr_oid r' = view" "sr_id_len r' = length view" "sr_inst_id r' = k" "sr_var r' = v"
    using probe_Some [OF root(1) len(1) mk probe] .
  let ?r2 = "r'\<lparr>sr_request := MIB_REQ_GETNEXT, sr_err_stat := 0\<rparr>"
  have L: "mib_tree_search_next lua root view orig r w = search_next_loop lua view orig
      (next_start (Some m) (case m of Group _ _ _ _ \<Rightarrow> True | Instance _ \<Rightarrow> False) k (length view - k) ?r2 w')"
    using ahead r'(1,3,4) d len(1) by (simp add: mib_tree_search_next_def uint32_diff oid_cover_pos)
  have S: "next_spec lua root view orig (sr_var r) w = try_cands lua view
      (case m of Group _ _ _ _ \<Rightarrow> all_cands (take k view) (insts m)
       | Instance _ \<Rightarrow> from_cands (take k view) (drop k view) (insts m)) v w'"
    using ahead probe mk by (cases m) (simp_all add: next_spec_def next_cands_def from_cands_def)
  have g: "good (take k view) ?r2" "prefix (take k view @ drop k view) (sr_oid ?r2)" "length (take k view) = k"
    using len(1) d by (simp_all add: good_def take_is_prefix r'(2) min_absorb2)
  show ?thesis
    using loop_ahead [OF _ _ _ g(1,2) len(2), of m lua view w'] d root(2) g(3) r'(5) by (simp add: L S)
qed

lemma next_behind:
  assumes "length view \<le> 1024" "length orig \<le> 1024" "\<not> prefix view orig" "\<not> oid_cmp orig view < 0"
  shows "next_result orig (next_spec lua root view orig (sr_var r) w) (mib_tree_search_next lua root view orig r w)"
  using assms
  by (simp add: mib_tree_search_next_def oid_cover_pos next_start_def loop_None resume_def next_result_def next_spec_def
      end_of_mib_view_def oid_cpy_def oid_dup_def MIB_VALUE_MAX_LEN_def set_tag_def)

lemma search_next_ok:
  assumes "mib_ok n (Some root)" "length view \<le> 1024" "length orig \<le> 1024"
  shows "next_result orig (next_spec lua root view orig (sr_var r) w) (mib_tree_search_next lua root view orig r w)"
proof -
  have root: "wf_node root" "height root \<le> 64"
    using mib_okE [OF assms(1)] by auto
  consider "\<not> prefix view orig" "\<not> oid_cmp orig view < 0"
    | "prefix view orig \<or> oid_cmp orig view < 0" "probe lua root view (sr_var r) w = None"
    | v w' where "prefix view orig" "probe lua root view (sr_var r) w = Some (v, w')"
    | v w' where "\<not> prefix view orig" "oid_cmp orig view < 0" "probe lua root view (sr_var r) w = Some (v, w')"
    by fastforce
  then show ?thesis
  proof cases
    case 1
    then show ?thesis
      by (rule next_behind [OF assms(2,3)])
  next
    case 2
    then show ?thesis
      by (rule next_probe_None [OF root(1) assms(2)])
  next
    case 3
    then show ?thesis
      by (rule next_in_view [OF root assms(2,3)])
  next
    case 4
    then show ?thesis
      by (rule next_ahead [OF root assms(2,3)])
  qed
qed


section \<open>Properties\<close>

text \<open>C1: on every tree that registration can build, with any handlers, the stack-based GETNEXT
  search returns exactly what the specification says: the first candidate in order whose handler
  gives a value that is not apart from the view, else the end of the view with the identifier
  of the request. In particular the loop ends, the backlog stack never overflows and the buffer is
  not left, unless a handler makes one of the calls of the specification undefined.\<close>

theorem mib_tree_search_next_spec:
  assumes "mib_ok n (Some root)" "length view \<le> 1024" "length orig \<le> 1024"
  shows "next_result orig (next_spec lua root view orig (sr_var r) w) (mib_tree_search_next lua root view orig r w)"
  using search_next_ok [OF assms] .

definition echo_value :: "int \<Rightarrow> lua_value" where
  "echo_value x = \<lparr>lv_integer = x, lv_number = x, lv_objlen = 1, lv_string = [], lv_elem = (\<lambda>i. x)\<rparr>"

text \<open>A handler with one variable, \<open>0\<close>, of value 42.\<close>

definition scalar_handler :: "unit lua" where
  "scalar_handler cb args w =
     (if args ! 1 = LTable [] then
        (Some \<lparr>lr_err = echo_value 0, lr_oid = echo_value 0, lr_val = echo_value 42, lr_tag = echo_value 2\<rparr>, w)
      else (Some \<lparr>lr_err = echo_value 0, lr_oid = echo_value 0, lr_val = echo_value 0, lr_tag = echo_value 0x80\<rparr>, w))"

definition var0 :: variable where
  "var0 = \<lparr>var_tag = 5, var_len = 0, var_mem = replicate 1024 0\<rparr>"

definition res0 :: oid_search_res where
  "res0 = \<lparr>sr_oid = [], sr_id_len = 0, sr_inst_id = 0, sr_inst_id_len = 0, sr_callback = 0,
     sr_request = MIB_REQ_GETNEXT, sr_err_stat = 0, sr_var = var0\<rparr>"

theorem mib_tree_search_next_spec_witness:
  "next_result [1] (next_spec scalar_handler mib_dummy_node_init [1, 3] [1] var0 ())
     (mib_tree_search_next scalar_handler mib_dummy_node_init [1, 3] [1] res0 ())"
  using mib_tree_search_next_spec [of 0 mib_dummy_node_init "[1, 3]" "[1]" scalar_handler res0 "()"] mib_init_ok
  by (simp add: mib_init_def res0_def)

text \<open>What the specification finds.\<close>

lemma try_cands_Found:
  assumes "try_cands lua view cs v w = Found q v' e w'"
  shows "MIB_TAG_VALID (var_tag v') \<and> length q \<le> 64 \<and> oid_cover view q \<noteq> 0 \<and>
    (\<exists>p c rest v0 w0 new. (p, c, rest) \<in> set cs \<and>
       inst_call lua c MIB_REQ_GETNEXT rest v0 w0 = Some (e, v', new, w') \<and>
       q = p @ (case new of None \<Rightarrow> rest | Some ids \<Rightarrow> ids))"
  using assms
proof (induction cs arbitrary: v w)
  case (Cons a cs)
  obtain p c rest where a: "a = (p, c, rest)"
    by (cases a)
  obtain err v1 new w1 where call: "inst_call lua c MIB_REQ_GETNEXT rest v w = Some (err, v1, new, w1)"
    using Cons.prems by (auto simp: a split: option.splits)
  let ?q = "p @ (case new of None \<Rightarrow> rest | Some ids \<Rightarrow> ids)"
  show ?case
  proof (cases "MIB_TAG_VALID (var_tag v1) \<and> oid_cover view ?q \<noteq> 0")
    case True
    then have "q = ?q" "v1 = v'" "err = e" "w1 = w'" "length q \<le> 64"
      using Cons.prems call by (auto simp: a Let_def MIB_OID_MAX_LEN_def split: if_splits)
    moreover from this have "inst_call lua c MIB_REQ_GETNEXT rest v w = Some (e, v', new, w')"
      using call by simp
    ultimately show ?thesis
      using True by (intro conjI exI [of _ p] exI [of _ c] exI [of _ rest] exI [of _ v] exI [of _ w] exI [of _ new]) (simp_all add: a)
  next
    case False
    then have "try_cands lua view cs v1 w1 = Found q v' e w'"
      using Cons.prems call by (auto simp: a Let_def split: if_splits)
    from Cons.IH [OF this] show ?thesis
      by (metis list.set_intros(2))
  qed
qed simp

text \<open>A candidate is a registered instance; one above the view is asked for the rest of the view, if the request is ahead of it.\<close>

lemma next_cands_insts:
  assumes "wf_node root" "(p, c, rest) \<in> set (next_cands root view orig)"
  shows "(p, c) \<in> set (insts root)"
proof -
  obtain m k where mk: "deepest root view = (m, k)"
    by fastforce
  note d = deepest_ok [OF assms(1) mk]
  obtain p' where "p = take k view @ p'" "(p', c) \<in> set (insts m)"
    using assms(2) mk by (auto simp: next_cands_def from_cands_def all_cands_def split: if_splits mib_node.splits)
  then show ?thesis
    using d by (simp add: insts_node_of assms(1) node_of_append)
qed

lemma next_cands_above:
  assumes "wf_node root" "(p, c, rest) \<in> set (next_cands root view orig)" "prefix p view" "\<not> prefix view orig"
  shows "view = p @ rest"
proof -
  obtain m k where mk: "deepest root view = (m, k)"
    by fastforce
  have len: "length p \<le> k"
    using deepest_max [OF _ assms(3) mk] next_cands_insts [OF assms(1,2)] by (simp add: insts_node_of assms(1))
  show ?thesis
  proof (cases m)
    case (Group cap cnt ids ptrs)
    then obtain p' where "p = take k view @ p'" "(p', c) \<in> set (insts m)"
      using assms(2,4) mk by (auto simp: next_cands_def all_cands_def)
    moreover have "p' \<noteq> []" if "(p', c) \<in> set (insts m)"
      using that Group by (auto simp: insts_Group)
    ultimately show ?thesis
      using len deepest_ok [OF assms(1) mk] by (auto simp: min_absorb2)
  next
    case (Instance cb)
    then show ?thesis
      using assms(2,4) mk by (simp add: next_cands_def)
  qed
qed

text \<open>A result lies in the view, or between the view and an instance registered above it.\<close>

lemma search_next_within:
  assumes "mib_ok n (Some root)" "length view \<le> 1024" "length orig \<le> 1024"
    and "mib_tree_search_next lua root view orig r w = Some (r', w')"
    and "var_tag (sr_var r') \<noteq> ASN1_TAG_END_OF_MIB_VIEW"
  shows "\<exists>q. prefix q (sr_oid r') \<and> length q = sr_id_len r' \<and> length q \<le> 64 \<and> MIB_TAG_VALID (var_tag (sr_var r')) \<and>
    (prefix view q \<or> strict_prefix q view \<and> (\<exists>(p, c) \<in> set (insts root). prefix p q))"
proof -
  have "next_result orig (next_spec lua root view orig (sr_var r) w) (Some (r', w'))"
    using search_next_ok [OF assms(1-3), of lua r w] assms(4) by simp
  then obtain q v e where f: "next_spec lua root view orig (sr_var r) w = Found q v e w'"
    "sr_id_len r' = length q" "prefix q (sr_oid r')" "sr_var r' = v"
    using assms(5) by (auto simp: next_result_def split: outcome.splits)
  then obtain v1 w1 where t: "try_cands lua view (next_cands root view orig) v1 w1 = Found q v e w'"
    by (auto simp: next_spec_def split: if_splits option.splits)
  from try_cands_Found [OF t] obtain p c rest new where q: "MIB_TAG_VALID (var_tag v)" "length q \<le> 64" "oid_cover view q \<noteq> 0"
      "(p, c, rest) \<in> set (next_cands root view orig)" "q = p @ (case new of None \<Rightarrow> rest | Some ids \<Rightarrow> ids)"
    by blast
  have "wf_node root"
    using mib_okE [OF assms(1)] by blast
  then have "(p, c) \<in> set (insts root)" "prefix p q"
    using next_cands_insts q(4,5) by auto
  moreover have "prefix view q \<or> strict_prefix q view"
    using q(3) by (auto simp: oid_cover_prefix strict_prefix_def split: if_splits)
  ultimately have "prefix view q \<or> strict_prefix q view \<and> (\<exists>(p, c) \<in> set (insts root). prefix p q)"
    by auto
  then show ?thesis
    using f(2-4) q(1,2) by (intro exI [of _ q]) simp
qed

lemma search_next_found:
  assumes "mib_ok n (Some root)" "length view \<le> 1024" "length orig \<le> 1024"
    and "mib_tree_search_next lua root view orig r w = Some (r', w')"
    and "var_tag (sr_var r') \<noteq> ASN1_TAG_END_OF_MIB_VIEW"
  shows "\<exists>q. prefix q (sr_oid r') \<and> length q = sr_id_len r' \<and> length q \<le> 64 \<and>
    MIB_TAG_VALID (var_tag (sr_var r')) \<and> (prefix view q \<or> prefix q view)"
  using search_next_within [OF assms] prefix_order.less_imp_le by blast

text \<open>At the end of the view the identifier of the request comes back, without an error.\<close>

lemma search_next_end:
  assumes "mib_ok n (Some root)" "length view \<le> 1024" "length orig \<le> 1024"
    and "mib_tree_search_next lua root view orig r w = Some (r', w')"
    and "var_tag (sr_var r') = ASN1_TAG_END_OF_MIB_VIEW"
  shows "prefix orig (sr_oid r') \<and> sr_id_len r' = length orig \<and> sr_err_stat r' = 0"
proof -
  have nr: "next_result orig (next_spec lua root view orig (sr_var r) w) (Some (r', w'))"
    using search_next_ok [OF assms(1-3), of lua r w] assms(4) by simp
  have False if f: "next_spec lua root view orig (sr_var r) w = Found q v e w1" "sr_var r' = v" for q v e w1
  proof -
    obtain cs v1 w2 where "try_cands lua view cs v1 w2 = Found q v e w1"
      using f(1) by (auto simp: next_spec_def split: if_splits option.splits)
    from try_cands_Found [OF this] show False
      using f(2) assms(5) by (auto simp: MIB_TAG_VALID_def)
  qed
  then show ?thesis
    using nr by (auto simp: next_result_def split: outcome.splits)
qed

text \<open>C3: a GETNEXT search that returns something else than the end of the view returns a value with a
  valid tag for an identifier of at most 64 sub-identifiers that lies in the view or is a prefix of the view's
  identifier.\<close>

theorem search_next_in_view:
  assumes "mib_ok n (Some root)" "length view \<le> 1024" "length orig \<le> 1024"
    and "mib_tree_search_next lua root view orig r w = Some (r', w')"
    and "var_tag (sr_var r') \<noteq> ASN1_TAG_END_OF_MIB_VIEW"
  shows "\<exists>q. prefix q (sr_oid r') \<and> length q = sr_id_len r' \<and> length q \<le> 64 \<and>
    MIB_TAG_VALID (var_tag (sr_var r')) \<and> (prefix view q \<or> prefix q view)"
  using search_next_found [OF assms] .

text \<open>A tree with one instance, and the search below \<open>1\<close> on it.\<close>

abbreviation tree1 :: mib_node where
  "tree1 \<equiv> Group 1 1 [1] [Some (Group 1 1 [3] [Some (Instance 7)])]"

lemma tree1_ok: "mib_ok (Suc 0) (Some tree1)"
  using mib_node_reg_ok [OF mib_init_ok, of "[1, 3]" 7] reg_example by simp

lemma tree1_next:
  "next_spec scalar_handler tree1 [1] [1] var0 () =
     Found [1, 3, 0] \<lparr>var_tag = 2, var_len = 1, var_mem = le32 42 @ replicate 1020 0\<rparr> 0 ()"
proof -
  have k: "kids tree1 = [(1, Group 1 1 [3] [Some (Instance 7)])]" "kids (Group 1 1 [3] [Some (Instance 7)]) = [(3, Instance 7)]"
    by (simp_all add: kids.simps)
  then have i: "insts (Group 1 1 [3] [Some (Instance 7)]) = [([3], 7)]"
    by (simp add: insts_Group)
  have "wr (replicate 1024 0) (le32 42) = Some (le32 42 @ replicate 1020 0)"
    by (simp add: wr_def)
  moreover have "unat (1 :: u32) = 1"
    by simp
  ultimately show ?thesis
    using k by (simp add: next_spec_def probe_def next_cands_def from_cands_def i [unfolded One_nat_def] inst_call_def scalar_handler_def echo_value_def
        to_int_def MIB_TAG_VALID_def ret_val_def ret_oid_ids_def var0_def MIB_OID_MAX_LEN_def oid_cover_prefix Let_def)
qed

lemma tree1_search:
  "\<exists>r'. mib_tree_search_next scalar_handler tree1 [1] [1] res0 () = Some (r', ()) \<and> sr_id_len r' = 3 \<and>
     prefix [1, 3, 0] (sr_oid r') \<and> sr_var r' = \<lparr>var_tag = 2, var_len = 1, var_mem = le32 42 @ replicate 1020 0\<rparr> \<and>
     sr_err_stat r' = 0"
proof -
  have "next_result [1] (next_spec scalar_handler tree1 [1] [1] (sr_var res0) ())
      (mib_tree_search_next scalar_handler tree1 [1] [1] res0 ())"
    by (rule search_next_ok [OF tree1_ok]) simp_all
  then show ?thesis
    using tree1_next by (auto simp: next_result_def res0_def)
qed

theorem search_next_in_view_witness:
  "\<exists>r' w' q. mib_tree_search_next scalar_handler tree1 [1] [1] res0 () = Some (r', w') \<and>
     prefix q (sr_oid r') \<and> length q = sr_id_len r' \<and> (prefix [1] q \<or> prefix q [1])"
proof -
  obtain r' where r': "mib_tree_search_next scalar_handler tree1 [1] [1] res0 () = Some (r', ())" "var_tag (sr_var r') = 2"
    using tree1_search by auto
  then show ?thesis
    using search_next_in_view [OF tree1_ok _ _ r'(1)] by (simp add: r') blast
qed

text \<open>The contract of the handlers for GETNEXT: an instance identifier they return is greater than
  the one they were asked for.\<close>

definition handler_advances :: "'w lua \<Rightarrow> bool" where
  "handler_advances lua \<longleftrightarrow> (\<forall>c rest v w e v' ids w'.
     inst_call lua c MIB_REQ_GETNEXT rest v w = Some (e, v', Some ids, w') \<longrightarrow> rest < ids)"

lemma inst_call_next_ids:
  "inst_call lua c MIB_REQ_GETNEXT rest v w = Some (0, v', new, w') \<Longrightarrow> MIB_TAG_VALID (var_tag v') \<Longrightarrow> new \<noteq> None"
  by (auto simp: inst_call_def Let_def MIB_TAG_VALID_def split: bind_splits option.splits prod.splits if_splits)

lemma append_less_iff: "P @ a < P @ b \<longleftrightarrow> a < (b :: oid)"
  by (induction P) auto

lemma prefix_le: "prefix a b \<Longrightarrow> a \<le> (b :: oid)"
proof -
  have "a \<le> a @ c" for c :: oid
    by (induction a) auto
  then show "prefix a b \<Longrightarrow> a \<le> b"
    by (auto simp: prefix_def)
qed

lemma from_cands_advance:
  assumes "(p, c, rest) \<in> set (from_cands P t its)" "rest < ids"
  shows "P @ t < p @ ids"
proof -
  obtain p' where p': "p = P @ p'" "prefix p' t \<and> rest = drop (length p') t \<or> t < p'"
    using assms(1) by (auto simp: from_cands_def split: if_splits)
  from p'(2) have "t < p' @ ids"
  proof
    assume "prefix p' t \<and> rest = drop (length p') t"
    then have "t = p' @ rest"
      by (auto simp: prefix_def)
    then show ?thesis
      using assms(2) by (simp add: append_less_iff)
  next
    assume "t < p'"
    also have "p' \<le> p' @ ids"
      by (simp add: prefix_le)
    finally show ?thesis .
  qed
  then show ?thesis
    by (simp add: p'(1) append_less_iff)
qed

lemma search_next_greater:
  assumes "mib_ok n (Some root)" "small_oid view" "small_oid orig" "length view \<le> 1024" "length orig \<le> 1024"
    and "handler_advances lua"
    and "mib_tree_search_next lua root view orig r w = Some (r', w')"
    and "var_tag (sr_var r') \<noteq> ASN1_TAG_END_OF_MIB_VIEW" "sr_err_stat r' = 0"
  shows "\<exists>q. prefix q (sr_oid r') \<and> length q = sr_id_len r' \<and> orig < q \<and> prefix view q"
proof -
  have "next_result orig (next_spec lua root view orig (sr_var r) w) (Some (r', w'))"
    using search_next_ok [OF assms(1,4,5), of lua r w] assms(7) by simp
  then obtain q v where f: "next_spec lua root view orig (sr_var r) w = Found q v 0 w'"
    "sr_id_len r' = length q" "prefix q (sr_oid r')" "sr_var r' = v"
    using assms(8,9) by (auto simp: next_result_def split: outcome.splits)
  then obtain v1 w1 where t: "try_cands lua view (next_cands root view orig) v1 w1 = Found q v 0 w'"
    and in_or_ahead: "prefix view orig \<or> oid_cmp orig view < 0"
    by (auto simp: next_spec_def split: if_splits option.splits)
  obtain p c rest v0 w0 new where c: "(p, c, rest) \<in> set (next_cands root view orig)"
    "inst_call lua c MIB_REQ_GETNEXT rest v0 w0 = Some (0, v, new, w')" "MIB_TAG_VALID (var_tag v)"
    "q = p @ (case new of None \<Rightarrow> rest | Some ids \<Rightarrow> ids)" "oid_cover view q \<noteq> 0"
    using try_cands_Found [OF t] by blast
  obtain ids where ids: "new = Some ids"
    using inst_call_next_ids [OF c(2,3)] by blast
  then have adv: "rest < ids"
    using assms(6) c(2) unfolding handler_advances_def by blast
  have q: "q = p @ ids" and wf: "wf_node root" and cover: "prefix view q \<or> prefix q view"
    using c(4,5) ids mib_okE [OF assms(1)] by (auto simp: oid_cover_prefix split: if_splits)
  have "orig < q \<and> prefix view q"
  proof (cases "prefix view orig")
    case True
    obtain m k where mk: "deepest root view = (m, k)"
      by fastforce
    have "k \<le> length view"
      using deepest_ok [OF wf mk] by blast
    then have "orig = take k view @ drop k orig"
      using True by (auto simp: prefix_def)
    moreover have "(p, c, rest) \<in> set (from_cands (take k view) (drop k orig) (insts m))"
      using c(1) True mk by (simp add: next_cands_def)
    ultimately have "orig < q"
      using q from_cands_advance [OF _ adv] by metis
    moreover have "view \<le> orig"
      by (rule prefix_le [OF True])
    ultimately show ?thesis
      using cover prefix_le [of q view] by auto
  next
    case False
    have "orig < view"
      using False in_or_ahead assms(2,3) oid_cmp_less by blast
    moreover have "prefix view q"
    proof (rule ccontr)
      assume "\<not> prefix view q"
      then have above: "prefix q view"
        using cover by blast
      then have "view = p @ rest"
        using next_cands_above [OF wf c(1) _ False] q append_prefixD by blast
      then have "view < q"
        using adv q by (simp add: append_less_iff)
      then show False
        using prefix_le [OF above] by simp
    qed
    ultimately show ?thesis
      using prefix_le [of view q] by auto
  qed
  then show ?thesis
    using f by auto
qed

text \<open>C2: if every instance identifier that a handler returns for GETNEXT is greater than the one it was asked for, a GETNEXT search that
  finds a value without an error finds it for an identifier strictly greater than the one of the request and inside the view, so that repeating
  the request with the identifier of the answer, as a walk does, never comes back to an earlier identifier. The sub-identifiers of the request and the
  view are below \<open>2 ^ 31\<close>.\<close>

theorem search_next_advances:
  assumes "mib_ok n (Some root)" "small_oid view" "small_oid orig" "length view \<le> 1024" "length orig \<le> 1024"
    and "handler_advances lua"
    and "mib_tree_search_next lua root view orig r w = Some (r', w')"
    and "var_tag (sr_var r') \<noteq> ASN1_TAG_END_OF_MIB_VIEW" "sr_err_stat r' = 0"
  shows "\<exists>q. prefix q (sr_oid r') \<and> length q = sr_id_len r' \<and> orig < q \<and> prefix view q"
  using search_next_greater [OF assms] .

lemma scalar_handler_advances: "handler_advances scalar_handler"
  by (auto simp: handler_advances_def inst_call_def scalar_handler_def echo_value_def to_int_def ret_oid_ids_def
      MIB_TAG_VALID_def Let_def split: bind_splits option.splits if_splits)

theorem search_next_advances_witness:
  "\<exists>r' q. mib_tree_search_next scalar_handler tree1 [1] [1] res0 () = Some (r', ()) \<and>
     prefix q (sr_oid r') \<and> length q = sr_id_len r' \<and> [1] < q \<and> prefix [1] q"
proof -
  obtain r' where r': "mib_tree_search_next scalar_handler tree1 [1] [1] res0 () = Some (r', ())"
    "var_tag (sr_var r') = 2" "sr_err_stat r' = 0"
    using tree1_search by auto
  then show ?thesis
    using search_next_advances [OF tree1_ok _ _ _ _ scalar_handler_advances r'(1)]
    by (simp add: r' small_oid_def small_def)
qed

end
