(* ===== verification/Mib_Get.thy ===== *)
theory Mib_Get
  imports Mib_Next
begin

text \<open>
  The GET and SET search, \<open>mib_tree_search\<close>: it asks the one handler whose instance covers the
  identifier, with the rest of the identifier, and no handler at all if there is none.
\<close>

lemma covering_deepest:
  assumes "mib_ok n (Some root)" "deepest root oid = (m, k)"
  shows "covering (insts root) oid = (case m of Instance c \<Rightarrow> Some (take k oid, c) | _ \<Rightarrow> None)"
proof -
  have wf: "wf_node root"
    using mib_okE [OF assms(1)] by blast
  note d = deepest_ok [OF wf assms(2)]
  have cov: "covering (insts root) oid = Some (p, c) \<longleftrightarrow> node_of root p = Some (Instance c) \<and> prefix p oid" for p c
    using mib.covering_iff [OF assms(1), of oid p c] insts_node_of [OF wf, of p c] by (simp add: mib_insts_def)
  have top: "p = take k oid" if p: "node_of root p = Some (Instance c)" "prefix p oid" for p c
  proof -
    have "length p \<le> k"
      using deepest_max [OF _ p(2) assms(2)] p(1) by simp
    then obtain q where q: "take k oid = p @ q"
      using p(2) by (auto simp: prefix_def)
    then have "node_of (Instance c) q = Some m"
      using d p(1) by (simp add: node_of_append)
    then have "q = []"
      by (cases q) auto
    then show ?thesis
      using q by simp
  qed
  show ?thesis
  proof (cases m)
    case (Instance c)
    then show ?thesis
      using cov [of "take k oid" c] d by (simp add: take_is_prefix)
  next
    case (Group cap cnt ids ptrs)
    then have "covering (insts root) oid \<noteq> Some (p, c)" for p c
      using cov [of p c] top [of p c] d by auto
    then show ?thesis
      using Group by (cases "covering (insts root) oid") auto
  qed
qed

text \<open>The specification: the variable, the error status and the handlers' state after the search,
  and whether an instance answered.\<close>

definition get_spec :: "'w lua \<Rightarrow> mib_node \<Rightarrow> oid \<Rightarrow> oid \<Rightarrow> u8 \<Rightarrow> variable \<Rightarrow> 'w \<Rightarrow> (variable \<times> int \<times> 'w) option" where
  "get_spec lua root view oid rq v w =
     (if \<not> prefix view oid then Some (v\<lparr>var_tag := ASN1_TAG_NO_SUCH_OBJ\<rparr>, 0, w)
      else case covering (insts root) oid of
          None \<Rightarrow> Some (v\<lparr>var_tag := ASN1_TAG_NO_SUCH_OBJ\<rparr>, 0, w)
        | Some (p, c) \<Rightarrow>
            if p = oid then Some (v\<lparr>var_tag := ASN1_TAG_NO_SUCH_INST\<rparr>, 0, w)
            else map_option (\<lambda>(e, v', _, w'). (v', e, w')) (inst_call lua c rq (drop (length p) oid) v w))"

lemma inst_call_no_ids: "rq \<noteq> MIB_REQ_GETNEXT \<Longrightarrow> inst_call lua c rq ids v w = Some (e, v', new, w') \<Longrightarrow> new = None"
  by (auto simp: inst_call_def Let_def split: bind_splits option.splits prod.splits if_splits)

lemma get_result:
  assumes "mib_ok n (Some root)" "length oid \<le> 1024" "sr_request r \<noteq> MIB_REQ_GETNEXT"
  shows "case get_spec lua root view oid (sr_request r) (sr_var r) w of
      None \<Rightarrow> mib_tree_search lua root view oid r w = None
    | Some (v, e, w') \<Rightarrow> \<exists>node r'. mib_tree_search lua root view oid r w = Some (node, r', w') \<and>
        sr_oid r' = oid \<and> sr_id_len r' = length oid \<and> sr_var r' = v \<and> sr_err_stat r' = e"
proof (cases "prefix view oid")
  case False
  then show ?thesis
    using assms(2) by (auto simp: get_spec_def mib_tree_search_def oid_cover_prefix oid_dup_def MIB_VALUE_MAX_LEN_def set_tag_def Let_def)
next
  case True
  then have c: "oid_cover view oid = 1" "oid_dup oid = Some oid"
    using assms(2) by (simp_all add: oid_cover_prefix oid_dup_def MIB_VALUE_MAX_LEN_def)
  obtain m k where mk: "deepest root oid = (m, k)"
    by fastforce
  have wf: "wf_node root"
    using mib_okE [OF assms(1)] by blast
  have k: "k \<le> length oid"
    using deepest_ok [OF wf mk] by simp
  note l = tree_search_loop_ok [OF wf mk, of 0] and cov = covering_deepest [OF assms(1) mk]
  have ids: "rdn oid k (length oid - k) = Some (drop k oid)"
    using k by (simp add: rdn_def)
  show ?thesis
  proof (cases m)
    case (Group cap cnt ids ptrs)
    then show ?thesis
      using True cov by (auto simp: get_spec_def mib_tree_search_def c l stop_at_def set_tag_def Let_def)
  next
    case m: (Instance cb)
    have ends: "take k oid = oid \<longleftrightarrow> k = length oid" "min (length oid) k = k"
      using k by auto
    show ?thesis
    proof (cases "k = length oid")
      case True
      then show ?thesis
        using \<open>prefix view oid\<close> cov m
        by (auto simp: get_spec_def mib_tree_search_def c l stop_at_def set_tag_def Let_def)
    next
      case False
      then show ?thesis
        using \<open>prefix view oid\<close> cov m ids ends inst_call_no_ids [OF assms(3), of lua cb "drop k oid" "sr_var r" w]
        by (cases "inst_call lua cb (sr_request r) (drop k oid) (sr_var r) w")
          (auto simp: get_spec_def mib_tree_search_def c l stop_at_def set_tag_def Let_def mib_instance_search_def)
    qed
  qed
qed

text \<open>C4: a GET or SET search asks exactly the handler of the one instance whose identifier is a
  proper prefix of the requested one, with the remaining sub-identifiers, and returns what it says; an identifier
  outside the view, below no instance, or equal to an instance's identifier gets the matching
  exception tag without any handler being asked, and the identifier of the request comes back unchanged.\<close>

theorem mib_tree_search_spec:
  assumes "mib_ok n (Some root)" "length oid \<le> 1024" "sr_request r \<noteq> MIB_REQ_GETNEXT"
  shows "case get_spec lua root view oid (sr_request r) (sr_var r) w of
      None \<Rightarrow> mib_tree_search lua root view oid r w = None
    | Some (v, e, w') \<Rightarrow> \<exists>node r'. mib_tree_search lua root view oid r w = Some (node, r', w') \<and>
        sr_oid r' = oid \<and> sr_id_len r' = length oid \<and> sr_var r' = v \<and> sr_err_stat r' = e"
  using get_result [OF assms] .

lemma tree1_get:
  "get_spec scalar_handler tree1 [1] [1, 3, 0] MIB_REQ_GET var0 () = Some (var0\<lparr>var_tag := 0x80\<rparr>, 0, ())"
proof -
  have "insts tree1 = [([1, 3], 7)]"
    by (simp add: insts_Group kids.simps)
  then show ?thesis
    by (simp add: get_spec_def covering_def inst_call_def scalar_handler_def echo_value_def to_int_def MIB_TAG_VALID_def Let_def)
qed

theorem mib_tree_search_spec_witness:
  "\<exists>node r'. mib_tree_search scalar_handler tree1 [1] [1, 3, 0] (res0\<lparr>sr_request := MIB_REQ_GET\<rparr>) () = Some (node, r', ()) \<and>
     sr_oid r' = [1, 3, 0] \<and> sr_var r' = var0\<lparr>var_tag := 0x80\<rparr>"
proof -
  have "sr_request (res0\<lparr>sr_request := MIB_REQ_GET\<rparr>) = MIB_REQ_GET" "sr_var (res0\<lparr>sr_request := MIB_REQ_GET\<rparr>) = var0"
    by (simp_all add: res0_def)
  then show ?thesis
    using mib_tree_search_spec [OF tree1_ok, of "[1, 3, 0]" "res0\<lparr>sr_request := MIB_REQ_GET\<rparr>" scalar_handler "[1]" "()"]
      tree1_get by auto
qed

end
