(* ===== verification/Mib_View.thy ===== *)
theory Mib_View
  imports Oid
begin

text \<open>
  Views, communities and users (\<open>core/mib_view.c\<close>). A view is a sub-tree given by its identifier.
  A community or user has two lists of views, for reading and for writing; the source has the same
  code twice, for \<open>struct mib_community\<close> and \<open>struct mib_user\<close>, which differ in the names of their
  fields and in the list of the view (\<open>communities\<close> or \<open>users\<close>) that links back to them. The
  operations below take the back link as the argument \<open>lk\<close>, the update function of that field.

  A pointer to a view is its number in order of creation (views are never freed), an object
  \<open>community_view\<close> or \<open>user_view\<close> has a number of its own, and a view keeps the numbers of the
  objects linked to it. The identifier of a view is kept in the buffer of \<open>oid_dup\<close>, so that an identifier of more than
  \<open>MIB_VALUE_MAX_LEN\<close> sub-identifiers is written past its end: the operation then has no result. Names are byte strings without a
  terminating zero.
\<close>

section \<open>Definitions\<close>

record view =
  v_oid :: oid
  v_communities :: "nat list"
  v_users :: "nat list"

record pview =
  pv_id :: nat
  pv_view :: nat

record principal =
  p_name :: bytes
  ro_views :: "pview list"
  rw_views :: "pview list"

record mib_db =
  mib_views :: "view list"
  mib_communities :: "principal list"
  mib_users :: "principal list"
  next_pv :: nat

datatype aces = MIB_ACES_READ | MIB_ACES_WRITE

type_synonym vlink = "(nat list \<Rightarrow> nat list) \<Rightarrow> view \<Rightarrow> view"

text \<open>The list \<open>mib_views\<close> has the view created last at its head.\<close>

definition view_at :: "view list \<Rightarrow> nat \<Rightarrow> view option" where
  "view_at vs h = rd (rev vs) h"

definition view_upd :: "view list \<Rightarrow> nat \<Rightarrow> (view \<Rightarrow> view) \<Rightarrow> view list option" where
  "view_upd vs h f = do { v \<leftarrow> view_at vs h; Some (rev ((rev vs)[h := f v])) }"

fun mib_view_search :: "view list \<Rightarrow> oid \<Rightarrow> nat option" where
  "mib_view_search [] oid = None"
| "mib_view_search (v # vs) oid =
     (if oid_cmp (v_oid v) oid = 0 then Some (length vs) else mib_view_search vs oid)"

definition view_create :: "view list \<Rightarrow> oid \<Rightarrow> (view list \<times> nat) option" where
  "view_create vs oid = (case mib_view_search vs oid of
      Some h \<Rightarrow> Some (vs, h)
    | None \<Rightarrow> do { new_oid \<leftarrow> oid_dup oid;
                 Some (\<lparr>v_oid = new_oid, v_communities = [], v_users = []\<rparr> # vs, length vs) })"

fun view_filter :: "vlink \<Rightarrow> oid \<Rightarrow> view list \<Rightarrow> pview list \<Rightarrow> (bool \<times> view list \<times> pview list) option" where
  "view_filter lk oid vs [] = Some (False, vs, [])"
| "view_filter lk oid vs (pv # pvs) =
     do { v \<leftarrow> view_at vs (pv_view pv);
          let cover = oid_cover (v_oid v) oid in
          if cover > 0 then Some (True, vs, pv # pvs)
          else if cover < 0 then
            do { vs' \<leftarrow> view_upd vs (pv_view pv) (lk (remove1 (pv_id pv)));
                 view_filter lk oid vs' pvs }
          else do { (r, vs', pvs') \<leftarrow> view_filter lk oid vs pvs; Some (r, vs', pv # pvs') } }"

fun view_insert :: "view list \<Rightarrow> oid \<Rightarrow> pview \<Rightarrow> pview list \<Rightarrow> pview list option" where
  "view_insert vs oid pv [] = Some [pv]"
| "view_insert vs oid pv (pv1 # pvs) =
     do { v \<leftarrow> view_at vs (pv_view pv1);
          if oid_cmp (v_oid v) oid > 0 then Some (pv # pv1 # pvs)
          else do { pvs' \<leftarrow> view_insert vs oid pv pvs; Some (pv1 # pvs') } }"

definition view_add :: "vlink \<Rightarrow> oid \<Rightarrow> nat \<Rightarrow> nat \<Rightarrow> view list \<Rightarrow> pview list \<Rightarrow> (view list \<times> pview list) option" where
  "view_add lk oid pid h vs pvs =
     do { vs' \<leftarrow> view_upd vs h (lk (Cons pid));
          pvs' \<leftarrow> view_insert vs' oid \<lparr>pv_id = pid, pv_view = h\<rparr> pvs;
          Some (vs', pvs') }"

primrec view_remove :: "vlink \<Rightarrow> view list \<Rightarrow> pview list \<Rightarrow> view list option" where
  "view_remove lk vs [] = Some vs"
| "view_remove lk vs (pv # pvs) =
     do { vs' \<leftarrow> view_upd vs (pv_view pv) (lk (remove1 (pv_id pv))); view_remove lk vs' pvs }"

definition views_of :: "aces \<Rightarrow> principal \<Rightarrow> pview list" where
  "views_of attribute p = (if attribute = MIB_ACES_READ then ro_views p else rw_views p)"

definition set_views :: "aces \<Rightarrow> pview list \<Rightarrow> principal \<Rightarrow> principal" where
  "set_views attribute pvs p =
     (if attribute = MIB_ACES_READ then p\<lparr>ro_views := pvs\<rparr> else p\<lparr>rw_views := pvs\<rparr>)"

text \<open>\<open>view_bind\<close> works on the view list, the next free object number and the community or user.\<close>

definition view_bind :: "vlink \<Rightarrow> oid \<Rightarrow> aces \<Rightarrow> view list \<Rightarrow> nat \<Rightarrow> principal \<Rightarrow> (view list \<times> nat \<times> principal) option" where
  "view_bind lk oid attribute vs nxt p =
     do { (filtered, vs1, pvs) \<leftarrow> view_filter lk oid vs (views_of attribute p);
          if filtered then Some (vs1, nxt, set_views attribute pvs p)
          else
            do { (vs2, h) \<leftarrow> view_create vs1 oid;
                 (vs3, pvs') \<leftarrow> view_add lk oid nxt h vs2 pvs;
                 Some (vs3, Suc nxt, set_views attribute pvs' p) } }"

definition principal_search :: "principal list \<Rightarrow> bytes \<Rightarrow> principal option" where
  "principal_search ps name = find (\<lambda>p. p_name p = name) ps"

definition principal_create :: "principal list \<Rightarrow> bytes \<Rightarrow> principal list" where
  "principal_create ps name = (case principal_search ps name of
      Some p \<Rightarrow> ps
    | None \<Rightarrow> \<lparr>p_name = name, ro_views = [], rw_views = []\<rparr> # ps)"

fun principal_store :: "principal \<Rightarrow> principal list \<Rightarrow> principal list" where
  "principal_store p [] = []"
| "principal_store p (q # ps) = (if p_name q = p_name p then p # ps else q # principal_store p ps)"

definition principal_reg ::
  "vlink \<Rightarrow> oid \<Rightarrow> bytes \<Rightarrow> aces \<Rightarrow> view list \<Rightarrow> nat \<Rightarrow> principal list \<Rightarrow> (view list \<times> nat \<times> principal list) option" where
  "principal_reg lk oid name attribute vs nxt ps =
     (let ps1 = principal_create ps name in
      do { p \<leftarrow> principal_search ps1 name;
           (vs1, nxt1, p1) \<leftarrow> (if attribute = MIB_ACES_WRITE then view_bind lk oid MIB_ACES_WRITE vs nxt p
                               else Some (vs, nxt, p));
           (vs2, nxt2, p2) \<leftarrow> view_bind lk oid MIB_ACES_READ vs1 nxt1 p1;
           Some (vs2, nxt2, principal_store p2 ps1) })"

text \<open>The loop of \<open>mib_community_unreg\<close>: an element that is not removed is visited again.\<close>

partial_function (option) principal_unreg ::
  "vlink \<Rightarrow> bytes \<Rightarrow> aces \<Rightarrow> view list \<Rightarrow> principal list \<Rightarrow> (view list \<times> principal list) option" where
  "principal_unreg lk name attribute vs ps =
     (case ps of
        [] \<Rightarrow> Some (vs, [])
      | p # ps' \<Rightarrow>
          if p_name p = name then
            do { vs1 \<leftarrow> (if attribute = MIB_ACES_READ then view_remove lk vs (ro_views p) else Some vs);
                 vs2 \<leftarrow> view_remove lk vs1 (rw_views p);
                 (if (attribute = MIB_ACES_READ \<or> ro_views p = [])
                  then principal_unreg lk name attribute vs2 ps'
                  else principal_unreg lk name attribute vs2 (p\<lparr>rw_views := []\<rparr> # ps')) }
          else
            do { r \<leftarrow> principal_unreg lk name attribute vs ps'; Some (fst r, p # snd r) })"

fun cover_loop :: "view list \<Rightarrow> oid \<Rightarrow> pview list \<Rightarrow> bool option" where
  "cover_loop vs oid [] = Some False"
| "cover_loop vs oid (pv # pvs) =
     do { v \<leftarrow> view_at vs (pv_view pv);
          if oid_cover (v_oid v) oid > 0 then Some True else cover_loop vs oid pvs }"

definition view_cover :: "view list \<Rightarrow> principal option \<Rightarrow> aces \<Rightarrow> oid \<Rightarrow> bool option" where
  "view_cover vs p attribute oid =
     (case p of None \<Rightarrow> Some False | Some q \<Rightarrow> cover_loop vs oid (views_of attribute q))"

fun next_view_loop :: "pview list \<Rightarrow> nat option \<Rightarrow> nat option" where
  "next_view_loop [] v = None"
| "next_view_loop (pv # pvs) v =
     (case v of
        None \<Rightarrow> Some (pv_view pv)
      | Some h \<Rightarrow> if h = pv_view pv \<and> pvs \<noteq> [] then Some (pv_view (hd pvs)) else next_view_loop pvs v)"

definition next_view :: "principal option \<Rightarrow> aces \<Rightarrow> nat option \<Rightarrow> nat option" where
  "next_view p attribute v = (case p of None \<Rightarrow> None | Some q \<Rightarrow> next_view_loop (views_of attribute q) v)"

subsection \<open>Communities\<close>

definition mib_community_search :: "mib_db \<Rightarrow> bytes \<Rightarrow> principal option" where
  "mib_community_search db community = principal_search (mib_communities db) community"

definition mib_community_reg :: "mib_db \<Rightarrow> oid \<Rightarrow> bytes \<Rightarrow> aces \<Rightarrow> mib_db option" where
  "mib_community_reg db oid community attribute =
     do { (vs, nxt, ps) \<leftarrow> principal_reg v_communities_update oid community attribute
            (mib_views db) (next_pv db) (mib_communities db);
          Some (db\<lparr>mib_views := vs, next_pv := nxt, mib_communities := ps\<rparr>) }"

definition mib_community_unreg :: "mib_db \<Rightarrow> bytes \<Rightarrow> aces \<Rightarrow> mib_db option" where
  "mib_community_unreg db community attribute =
     do { (vs, ps) \<leftarrow> principal_unreg v_communities_update community attribute (mib_views db) (mib_communities db);
          Some (db\<lparr>mib_views := vs, mib_communities := ps\<rparr>) }"

definition mib_community_view_cover :: "mib_db \<Rightarrow> principal option \<Rightarrow> aces \<Rightarrow> oid \<Rightarrow> bool option" where
  "mib_community_view_cover db c attribute oid = view_cover (mib_views db) c attribute oid"

definition mib_community_next_view :: "principal option \<Rightarrow> aces \<Rightarrow> nat option \<Rightarrow> nat option" where
  "mib_community_next_view c attribute v = next_view c attribute v"

subsection \<open>Users\<close>

definition mib_user_search :: "mib_db \<Rightarrow> bytes \<Rightarrow> principal option" where
  "mib_user_search db user = principal_search (mib_users db) user"

definition user_create :: "principal list \<Rightarrow> bytes \<Rightarrow> principal list" where
  "user_create users user = principal_create users user"

definition user_view_filter :: "oid \<Rightarrow> view list \<Rightarrow> pview list \<Rightarrow> (bool \<times> view list \<times> pview list) option" where
  "user_view_filter = view_filter v_users_update"

definition user_view_add :: "oid \<Rightarrow> nat \<Rightarrow> nat \<Rightarrow> view list \<Rightarrow> pview list \<Rightarrow> (view list \<times> pview list) option" where
  "user_view_add = view_add v_users_update"

definition user_view_bind :: "oid \<Rightarrow> aces \<Rightarrow> view list \<Rightarrow> nat \<Rightarrow> principal \<Rightarrow> (view list \<times> nat \<times> principal) option" where
  "user_view_bind oid attribute vs nxt u =
     do { (filtered, vs1, uvs) \<leftarrow> user_view_filter oid vs (views_of attribute u);
          if filtered then Some (vs1, nxt, set_views attribute uvs u)
          else
            do { (vs2, h) \<leftarrow> view_create vs1 oid;
                 (vs3, uvs') \<leftarrow> user_view_add oid nxt h vs2 uvs;
                 Some (vs3, Suc nxt, set_views attribute uvs' u) } }"

definition mib_user_reg :: "mib_db \<Rightarrow> oid \<Rightarrow> bytes \<Rightarrow> aces \<Rightarrow> mib_db option" where
  "mib_user_reg db oid user attribute =
     (let users = user_create (mib_users db) user in
      do { u \<leftarrow> principal_search users user;
           (vs1, nxt1, u1) \<leftarrow> (if attribute = MIB_ACES_WRITE then user_view_bind oid MIB_ACES_WRITE (mib_views db) (next_pv db) u
                               else Some (mib_views db, next_pv db, u));
           (vs2, nxt2, u2) \<leftarrow> user_view_bind oid MIB_ACES_READ vs1 nxt1 u1;
           Some (db\<lparr>mib_views := vs2, next_pv := nxt2, mib_users := principal_store u2 users\<rparr>) })"

definition mib_user_unreg :: "mib_db \<Rightarrow> bytes \<Rightarrow> aces \<Rightarrow> mib_db option" where
  "mib_user_unreg db user attribute =
     do { (vs, ps) \<leftarrow> principal_unreg v_users_update user attribute (mib_views db) (mib_users db);
          Some (db\<lparr>mib_views := vs, mib_users := ps\<rparr>) }"

definition mib_user_view_cover :: "mib_db \<Rightarrow> principal option \<Rightarrow> aces \<Rightarrow> oid \<Rightarrow> bool option" where
  "mib_user_view_cover db u attribute oid = view_cover (mib_views db) u attribute oid"

definition mib_user_next_view :: "principal option \<Rightarrow> aces \<Rightarrow> nat option \<Rightarrow> nat option" where
  "mib_user_next_view u attribute v = next_view u attribute v"

text \<open>The code for users is that for communities with the other back link.\<close>

lemma user_view_bind_eq: "user_view_bind = view_bind v_users_update"
  unfolding fun_eq_iff user_view_bind_def view_bind_def user_view_filter_def user_view_add_def by (intro allI refl)

lemma mib_user_reg_eq:
  "mib_user_reg db oid user attribute =
     map_option (\<lambda>(vs, nxt, ps). db\<lparr>mib_views := vs, next_pv := nxt, mib_users := ps\<rparr>)
       (principal_reg v_users_update oid user attribute (mib_views db) (next_pv db) (mib_users db))"
  by (auto simp: mib_user_reg_def principal_reg_def user_create_def user_view_bind_eq Let_def split: bind_splits)


section \<open>The table of views and a list of views\<close>

text \<open>Identifiers of views: their sub-identifiers are below \<open>2 ^ 31\<close>, so that \<open>oid_cmp\<close> orders them, and they fit the buffer of
  \<open>oid_dup\<close>.\<close>

definition view_oid :: "oid \<Rightarrow> bool" where
  "view_oid v \<longleftrightarrow> list_all small v \<and> length v \<le> MIB_VALUE_MAX_LEN"

lemma view_oid_small: "view_oid v \<Longrightarrow> small_oid v"
  by (simp add: view_oid_def small_oid_def MIB_VALUE_MAX_LEN_def)

lemma view_oid_dup: "view_oid v \<Longrightarrow> oid_dup v = Some v"
  by (simp add: view_oid_def oid_dup_def)

text \<open>The identifiers of the views in order of creation, and those of a list of view objects.\<close>

definition tab :: "view list \<Rightarrow> oid list" where
  "tab vs = map v_oid (rev vs)"

definition oids :: "oid list \<Rightarrow> pview list \<Rightarrow> oid list" where
  "oids t pvs = map (\<lambda>pv. t ! pv_view pv) pvs"

definition valid :: "oid list \<Rightarrow> pview list \<Rightarrow> bool" where
  "valid t pvs \<longleftrightarrow> list_all (\<lambda>pv. pv_view pv < length t) pvs"

definition covers :: "oid list \<Rightarrow> pview list \<Rightarrow> oid \<Rightarrow> bool" where
  "covers t pvs q \<longleftrightarrow> list_ex (\<lambda>v. prefix v q) (oids t pvs)"

fun antichain :: "oid list \<Rightarrow> bool" where
  "antichain [] = True"
| "antichain (v # vs) = (list_all (\<lambda>w. \<not> prefix v w \<and> \<not> prefix w v) vs \<and> antichain vs)"

definition list_ok :: "oid list \<Rightarrow> pview list \<Rightarrow> bool" where
  "list_ok t pvs \<longleftrightarrow> valid t pvs \<and> sorted_wrt (<) (oids t pvs) \<and> antichain (oids t pvs)"

lemmas view_list_defs = oids_def valid_def covers_def list_ok_def

lemma length_tab [simp]: "length (tab vs) = length vs"
  by (simp add: tab_def)

lemma view_at_ok: "h < length vs \<Longrightarrow> \<exists>v. view_at vs h = Some v \<and> v_oid v = tab vs ! h"
  by (simp add: view_at_def rd_def tab_def)

lemma view_search_ok:
  assumes "list_all view_oid (tab vs)" "view_oid oid"
  shows "case mib_view_search vs oid of Some h \<Rightarrow> h < length vs \<and> tab vs ! h = oid | None \<Rightarrow> oid \<notin> set (tab vs)"
  using assms(1)
proof (induction vs)
  case (Cons v vs)
  then show ?case
    using assms(2) by (auto simp: tab_def nth_append oid_cmp_zero view_oid_small split: option.splits)
qed (simp add: tab_def)

lemma view_create_ok:
  assumes "list_all view_oid (tab vs)" "view_oid oid"
  shows "\<exists>vs' h. view_create vs oid = Some (vs', h) \<and> h < length vs' \<and> tab vs' ! h = oid \<and>
    list_all view_oid (tab vs') \<and> prefix (tab vs) (tab vs')"
  using view_search_ok [OF assms] assms
  by (auto simp: view_create_def tab_def nth_append view_oid_dup split: option.splits)

text \<open>A longer table does not change the lists.\<close>

lemma table_mono:
  assumes "prefix t t'" "valid t pvs"
  shows "valid t' pvs" "oids t' pvs = oids t pvs"
  using assms by (auto simp: view_list_defs list_all_iff prefix_def nth_append)

lemma list_ok_mono: "prefix t t' \<Longrightarrow> list_ok t pvs \<Longrightarrow> list_ok t' pvs \<and> covers t' pvs q = covers t pvs q"
  using table_mono [of t t' pvs] by (simp add: list_ok_def covers_def)

lemma antichain_mem: "antichain vs \<Longrightarrow> distinct vs \<Longrightarrow> v \<in> set vs \<Longrightarrow> w \<in> set vs \<Longrightarrow> prefix v w \<Longrightarrow> v = w"
  by (induction vs) (auto simp: list_all_iff)

lemma antichain_filter: "antichain vs \<Longrightarrow> antichain (filter P vs)"
  by (induction vs) (auto simp: list_all_iff)

lemma oids_filter: "oids t (filter (\<lambda>pv. P (t ! pv_view pv)) pvs) = filter P (oids t pvs)"
  by (simp add: oids_def filter_map comp_def)

text \<open>Insertion before the first greater identifier.\<close>

lemma view_insert_ok:
  assumes "valid (tab vs) (pv # pvs)" "tab vs ! pv_view pv = oid" "view_oid oid"
    "list_all view_oid (oids (tab vs) pvs)" "sorted_wrt (<) (oids (tab vs) pvs)" "oid \<notin> set (oids (tab vs) pvs)"
  shows "\<exists>pvs'. view_insert vs oid pv pvs = Some pvs' \<and> sorted_wrt (<) (oids (tab vs) pvs') \<and>
    set pvs' = insert pv (set pvs) \<and>
    (\<exists>ys zs. pvs = ys @ zs \<and> pvs' = ys @ pv # zs)"
  using assms
proof (induction pvs)
  case (Cons pv1 pvs)
  obtain v where v: "view_at vs (pv_view pv1) = Some v" "v_oid v = tab vs ! pv_view pv1"
    using view_at_ok [of "pv_view pv1" vs] Cons.prems(1) by (auto simp: valid_def)
  have sm: "small_oid (v_oid v)" "v_oid v \<noteq> oid"
    using Cons.prems(4,6) v(2) by (auto simp: oids_def view_oid_small)
  show ?case
  proof (cases "oid_cmp (v_oid v) oid > 0")
    case True
    then have "oid < tab vs ! pv_view pv1"
      using oid_cmp_greater [OF sm(1) view_oid_small [OF Cons.prems(3)]] v(2) by simp
    then show ?thesis
      using True v Cons.prems(2,5) by (auto simp: oids_def intro: order.strict_trans)
  next
    case False
    then have lt: "tab vs ! pv_view pv1 < oid"
      using oid_cmp_greater [OF sm(1) view_oid_small [OF Cons.prems(3)]] v(2) sm(2) by auto
    obtain pvs' where r: "view_insert vs oid pv pvs = Some pvs'" "sorted_wrt (<) (oids (tab vs) pvs')"
      "set pvs' = insert pv (set pvs)" "\<exists>ys zs. pvs = ys @ zs \<and> pvs' = ys @ pv # zs"
      using Cons by (auto simp: valid_def oids_def)
    have "\<exists>ys zs. pv1 # pvs = ys @ zs \<and> pv1 # pvs' = ys @ pv # zs"
      using r(4) by (metis append_Cons)
    moreover have "sorted_wrt (<) (oids (tab vs) (pv1 # pvs'))"
      using r(2,3) lt Cons.prems(2,5) by (auto simp: oids_def)
    ultimately show ?thesis
      using False v(1) r(1,3) by auto
  qed
qed (simp add: oids_def)


section \<open>Registration, for either kind of back link\<close>

definition list_after :: "oid \<Rightarrow> view list \<Rightarrow> pview list \<Rightarrow> view list \<Rightarrow> pview list \<Rightarrow> bool" where
  "list_after oid vs pvs vs' pvs' \<longleftrightarrow>
     prefix (tab vs) (tab vs') \<and> list_all view_oid (tab vs') \<and> list_ok (tab vs') pvs' \<and>
     (\<forall>q. covers (tab vs') pvs' q \<longleftrightarrow> prefix oid q \<or> covers (tab vs) pvs q)"

text \<open>Communities and users: their names are distinct, their lists are in order, and what they may
  write they may read.\<close>

definition p_ok :: "oid list \<Rightarrow> principal \<Rightarrow> bool" where
  "p_ok t p \<longleftrightarrow> list_ok t (ro_views p) \<and> list_ok t (rw_views p) \<and>
     (\<forall>q. covers t (rw_views p) q \<longrightarrow> covers t (ro_views p) q)"

definition ps_ok :: "oid list \<Rightarrow> principal list \<Rightarrow> bool" where
  "ps_ok t ps \<longleftrightarrow> distinct (map p_name ps) \<and> list_all (p_ok t) ps"

definition allowed :: "oid list \<Rightarrow> principal list \<Rightarrow> bytes \<Rightarrow> aces \<Rightarrow> oid \<Rightarrow> bool" where
  "allowed t ps name a q = (case principal_search ps name of None \<Rightarrow> False | Some p \<Rightarrow> covers t (views_of a p) q)"

lemma principal_search_Some:
  "principal_search ps name = Some p \<Longrightarrow> p \<in> set ps \<and> p_name p = name"
  by (auto simp: principal_search_def find_Some_iff)

lemma p_ok_mono:
  "prefix t t' \<Longrightarrow> p_ok t p \<Longrightarrow> p_ok t' p \<and> covers t' (views_of a p) q = covers t (views_of a p) q"
  by (auto simp: p_ok_def views_of_def list_ok_mono)

lemma ps_ok_mono:
  assumes "prefix t t'" "ps_ok t ps"
  shows "ps_ok t' ps" "allowed t' ps n a q = allowed t ps n a q"
proof -
  have ok: "p_ok t p" if "p \<in> set ps" for p
    using assms(2) that by (auto simp: ps_ok_def list_all_iff)
  then show "ps_ok t' ps"
    using assms p_ok_mono by (auto simp: ps_ok_def list_all_iff)
  show "allowed t' ps n a q = allowed t ps n a q"
  proof (cases "principal_search ps n")
    case (Some p)
    then have "p_ok t p"
      using ok principal_search_Some by blast
    with Some show ?thesis
      using p_ok_mono [OF assms(1), of p a q] by (simp add: allowed_def)
  qed (simp add: allowed_def)
qed

lemma principal_create_ok:
  assumes "ps_ok t ps"
  shows "ps_ok t (principal_create ps name)"
    "\<exists>p. principal_search (principal_create ps name) name = Some p \<and>
       p \<in> set (principal_create ps name) \<and> p_name p = name"
    "allowed t (principal_create ps name) n a q = allowed t ps n a q"
proof -
  have none: "name \<notin> p_name ` set ps" if "principal_search ps name = None"
    using that by (auto simp: principal_search_def find_None_iff)
  have new: "p_ok t \<lparr>p_name = name, ro_views = [], rw_views = []\<rparr>"
    by (simp add: p_ok_def view_list_defs)
  show "ps_ok t (principal_create ps name)"
    using assms new none by (auto simp: principal_create_def ps_ok_def split: option.splits)
  show "\<exists>p. principal_search (principal_create ps name) name = Some p \<and>
       p \<in> set (principal_create ps name) \<and> p_name p = name"
  proof (cases "principal_search ps name")
    case None
    then show ?thesis
      by (simp add: principal_create_def) (simp add: principal_search_def)
  next
    case (Some p)
    then show ?thesis
      using principal_search_Some [OF Some] by (simp add: principal_create_def)
  qed
  show "allowed t (principal_create ps name) n a q = allowed t ps n a q"
    by (auto simp: principal_create_def allowed_def principal_search_def views_of_def view_list_defs
        split: option.splits)
qed

lemma principal_store_ok:
  assumes "ps_ok t ps" "p_ok t p"
  shows "ps_ok t (principal_store p ps)"
    "allowed t (principal_store p ps) n a q =
       (if n = p_name p \<and> p_name p \<in> p_name ` set ps then covers t (views_of a p) q else allowed t ps n a q)"
proof -
  have names: "map p_name (principal_store p ps) = map p_name ps" for ps
    by (induction ps) auto
  have "list_all (p_ok t) (principal_store p ps)" if "list_all (p_ok t) ps" for ps
    using that assms(2) by (induction ps) auto
  then show "ps_ok t (principal_store p ps)"
    using assms(1) names by (simp add: ps_ok_def)
  show "allowed t (principal_store p ps) n a q =
       (if n = p_name p \<and> p_name p \<in> p_name ` set ps then covers t (views_of a p) q else allowed t ps n a q)"
    by (induction ps) (auto simp: allowed_def principal_search_def)
qed

text \<open>What the shared code needs of the back link: it does not change the identifier of the view.\<close>

locale view_links =
  fixes lk :: vlink
  assumes lk_oid: "v_oid (lk f v) = v_oid v"
begin

lemma view_upd_ok: "h < length vs \<Longrightarrow> \<exists>vs'. view_upd vs h (lk f) = Some vs' \<and> tab vs' = tab vs"
  by (auto simp: view_upd_def view_at_def rd_def tab_def map_update lk_oid
      intro!: nth_equalityI simp: nth_list_update)

lemma view_filter_ok:
  assumes "valid (tab vs) pvs" "antichain (oids (tab vs) pvs)"
  shows "\<exists>vs'. view_filter lk oid vs pvs =
      Some (covers (tab vs) pvs oid, vs',
        if covers (tab vs) pvs oid then pvs else filter (\<lambda>pv. \<not> prefix oid (tab vs ! pv_view pv)) pvs) \<and>
    tab vs' = tab vs"
  using assms
proof (induction pvs arbitrary: vs)
  case (Cons pv pvs)
  obtain v where v: "view_at vs (pv_view pv) = Some v" "v_oid v = tab vs ! pv_view pv"
    using view_at_ok [of "pv_view pv" vs] Cons.prems(1) by (auto simp: valid_def)
  have h: "pv_view pv < length vs"
    using Cons.prems(1) by (simp add: valid_def)
  have tl: "valid (tab vs) pvs" "antichain (oids (tab vs) pvs)"
    using Cons.prems by (auto simp: valid_def oids_def)
  have c: "covers (tab vs) (pv # pvs) oid \<longleftrightarrow> prefix (v_oid v) oid \<or> covers (tab vs) pvs oid"
    by (simp add: covers_def oids_def v(2))
  show ?case
  proof (cases "prefix (v_oid v) oid")
    case True
    then show ?thesis
      using c v(1) by (simp add: oid_cover_prefix)
  next
    case False
    show ?thesis
    proof (cases "prefix oid (v_oid v)")
      case True
      have "\<not> covers (tab vs) pvs oid"
        using Cons.prems(2) True v(2) by (auto simp: covers_def oids_def list_ex_iff list_all_iff dest: prefix_order.trans)
      moreover obtain vs' where vs': "view_upd vs (pv_view pv) (lk (remove1 (pv_id pv))) = Some vs'" "tab vs' = tab vs"
        using view_upd_ok [OF h] by blast
      moreover obtain vs'' where "view_filter lk oid vs' pvs = Some (covers (tab vs) pvs oid, vs'',
          if covers (tab vs) pvs oid then pvs else filter (\<lambda>pv. \<not> prefix oid (tab vs ! pv_view pv)) pvs)"
        "tab vs'' = tab vs"
        using Cons.IH [of vs'] tl vs'(2) by auto
      ultimately show ?thesis
        using True False c v by (simp add: oid_cover_prefix)
    next
      case nc: False
      obtain vs'' where "view_filter lk oid vs pvs = Some (covers (tab vs) pvs oid, vs'',
          if covers (tab vs) pvs oid then pvs else filter (\<lambda>pv. \<not> prefix oid (tab vs ! pv_view pv)) pvs)"
        "tab vs'' = tab vs"
        using Cons.IH [of vs] tl by auto
      then show ?thesis
        using False nc c v by (simp add: oid_cover_prefix)
    qed
  qed
qed (simp add: covers_def oids_def)

lemma view_remove_ok: "valid (tab vs) pvs \<Longrightarrow> \<exists>vs'. view_remove lk vs pvs = Some vs' \<and> tab vs' = tab vs"
proof (induction pvs arbitrary: vs)
  case (Cons pv pvs)
  then have h: "pv_view pv < length vs"
    by (simp add: valid_def)
  obtain vs' where vs': "view_upd vs (pv_view pv) (lk (remove1 (pv_id pv))) = Some vs'" "tab vs' = tab vs"
    using view_upd_ok [OF h] by blast
  then show ?case
    using Cons.IH [of vs'] Cons.prems by (auto simp: valid_def)
qed simp

text \<open>Adding a view that no view of the list covers, after removing those it covers.\<close>

lemma view_add_ok:
  assumes h: "h < length vs" "tab vs ! h = oid" "view_oid oid" "list_all view_oid (tab vs)"
    and ok: "list_ok (tab vs) pvs" "\<forall>v \<in> set (oids (tab vs) pvs). \<not> prefix v oid \<and> \<not> prefix oid v"
  shows "\<exists>vs' pvs'. view_add lk oid pid h vs pvs = Some (vs', pvs') \<and> tab vs' = tab vs \<and> list_ok (tab vs) pvs' \<and>
    (\<forall>q. covers (tab vs) pvs' q \<longleftrightarrow> prefix oid q \<or> covers (tab vs) pvs q)"
proof -
  obtain vs' where vs': "view_upd vs h (lk (Cons pid)) = Some vs'" "tab vs' = tab vs"
    using view_upd_ok [OF h(1)] by blast
  let ?pv = "\<lparr>pv_id = pid, pv_view = h\<rparr>"
  have "list_all view_oid (oids (tab vs) pvs)" "oid \<notin> set (oids (tab vs) pvs)"
    using h(4) ok by (auto simp: view_list_defs list_all_iff)
  moreover have "valid (tab vs) (?pv # pvs)"
    using h(1) ok(1) by (simp add: list_ok_def valid_def)
  ultimately obtain pvs' ys zs where p: "view_insert vs' oid ?pv pvs = Some pvs'"
    "sorted_wrt (<) (oids (tab vs) pvs')" "pvs = ys @ zs" "pvs' = ys @ ?pv # zs"
    using view_insert_ok [of vs' ?pv pvs oid] h(2,3) ok(1) vs'(2) by (auto simp: list_ok_def)
  have "antichain (oids (tab vs) (ys @ ?pv # zs))"
  proof -
    have "antichain (as @ w # bs)" if "antichain (as @ bs)" "\<forall>v \<in> set (as @ bs). \<not> prefix v w \<and> \<not> prefix w v" for as w bs
      using that by (induction as) (auto simp: list_all_iff)
    then show ?thesis
      using ok p(3) h(2) by (auto simp: list_ok_def oids_def)
  qed
  then have "list_ok (tab vs) pvs'"
    using p ok(1) h(1) by (simp add: list_ok_def valid_def)
  moreover have "\<forall>q. covers (tab vs) pvs' q \<longleftrightarrow> prefix oid q \<or> covers (tab vs) pvs q"
    using h(2) by (auto simp: p(3,4) covers_def oids_def)
  ultimately show ?thesis
    using vs' p(1) by (simp add: view_add_def)
qed

lemma view_bind_ok:
  assumes t: "list_all view_oid (tab vs)" "view_oid oid" and ok: "list_ok (tab vs) (views_of a p)"
  shows "\<exists>vs' nxt' pvs'. view_bind lk oid a vs nxt p = Some (vs', nxt', set_views a pvs' p) \<and>
    list_after oid vs (views_of a p) vs' pvs'"
proof -
  define pvs where "pvs = views_of a p"
  define rest where "rest = filter (\<lambda>pv. \<not> prefix oid (tab vs ! pv_view pv)) pvs"
  have lok: "valid (tab vs) pvs" "sorted_wrt (<) (oids (tab vs) pvs)" "antichain (oids (tab vs) pvs)"
    using ok by (auto simp: list_ok_def pvs_def)
  obtain vs1 where f: "view_filter lk oid vs pvs =
      Some (covers (tab vs) pvs oid, vs1, if covers (tab vs) pvs oid then pvs else rest)" "tab vs1 = tab vs"
    unfolding rest_def using view_filter_ok [OF lok(1,3)] by blast
  show ?thesis
  proof (cases "covers (tab vs) pvs oid")
    case True
    then have "\<forall>q. prefix oid q \<longrightarrow> covers (tab vs) pvs q"
      by (auto simp: covers_def list_ex_iff dest: prefix_order.trans)
    then have "list_after oid vs pvs vs1 pvs"
      using f(2) t(1) ok by (auto simp: list_after_def pvs_def)
    then show ?thesis
      using True f(1) by (auto simp: view_bind_def pvs_def)
  next
    case False
    obtain vs2 h where c: "view_create vs1 oid = Some (vs2, h)" "h < length vs2" "tab vs2 ! h = oid"
      "list_all view_oid (tab vs2)" "prefix (tab vs) (tab vs2)"
      using view_create_ok [of vs1 oid] t f(2) by auto
    have "oids (tab vs) rest = filter (\<lambda>v. \<not> prefix oid v) (oids (tab vs) pvs)"
      using oids_filter unfolding rest_def by fastforce
    moreover from this have "list_ok (tab vs) rest"
      using lok antichain_filter sorted_wrt_filter
      by (auto simp: list_ok_def valid_def rest_def list_all_iff)
    ultimately have r: "list_ok (tab vs2) rest" "\<forall>v \<in> set (oids (tab vs2) rest). \<not> prefix v oid \<and> \<not> prefix oid v"
      using list_ok_mono [OF c(5)] table_mono(2) [OF c(5)] False
      by (auto simp: list_ok_def covers_def list_ex_iff)
    obtain vs3 pvs' where a: "view_add lk oid nxt h vs2 rest = Some (vs3, pvs')" "tab vs3 = tab vs2"
      "list_ok (tab vs2) pvs'" "\<And>q. covers (tab vs2) pvs' q \<longleftrightarrow> prefix oid q \<or> covers (tab vs2) rest q"
      using view_add_ok [OF c(2,3) t(2) c(4) r] by blast
    have "prefix oid q \<or> covers (tab vs2) rest q \<longleftrightarrow> prefix oid q \<or> covers (tab vs) pvs q" for q
      using table_mono(2) [OF c(5), of rest] r(1) \<open>list_ok (tab vs) rest\<close>
        \<open>oids (tab vs) rest = filter (\<lambda>v. \<not> prefix oid v) (oids (tab vs) pvs)\<close>
      by (auto simp: covers_def list_ok_def list_ex_iff dest: prefix_order.trans)
    then have "list_after oid vs pvs vs3 pvs'"
      using a c(4,5) by (auto simp: list_after_def)
    then show ?thesis
      using False f(1) c(1) a(1) by (auto simp: view_bind_def pvs_def)
  qed
qed

text \<open>An identifier longer than the buffer of \<open>oid_dup\<close> that no view of the list covers has no result.\<close>

lemma view_bind_overflow:
  assumes "list_all view_oid (tab vs)" "small_oid oid" "MIB_VALUE_MAX_LEN < length oid"
    and "list_ok (tab vs) (views_of a p)" "\<not> covers (tab vs) (views_of a p) oid"
  shows "view_bind lk oid a vs nxt p = None"
proof -
  obtain vs1 pvs where f: "view_filter lk oid vs (views_of a p) = Some (False, vs1, pvs)" "tab vs1 = tab vs"
    using view_filter_ok [of vs "views_of a p" oid] assms(4,5) by (auto simp: list_ok_def)
  have "mib_view_search us oid = None" if "list_all view_oid (tab us)" for us
    using that assms(2,3)
    by (induction us) (auto simp: tab_def oid_cmp_zero view_oid_small view_oid_def)
  then show ?thesis
    using f assms(1,3) by (simp add: view_bind_def view_create_def oid_dup_def)
qed

lemma principal_reg_overflow:
  assumes "list_all view_oid (tab vs)" "small_oid oid" "MIB_VALUE_MAX_LEN < length oid"
    and ok: "ps_ok (tab vs) ps" and "\<not> allowed (tab vs) ps name MIB_ACES_READ oid"
  shows "principal_reg lk oid name a vs nxt ps = None"
proof -
  note c = principal_create_ok [OF ok, of name]
  obtain p where p: "principal_search (principal_create ps name) name = Some p" "p_ok (tab vs) p"
    using c(1,2) by (auto simp: ps_ok_def list_all_iff)
  then have no: "\<not> covers (tab vs) (views_of b p) oid" "list_ok (tab vs) (views_of b p)" for b
    using c(3) [of name MIB_ACES_READ oid] assms(5) by (auto simp: allowed_def p_ok_def views_of_def)
  show ?thesis
    using p(1) view_bind_overflow [OF assms(1-3) no(2) no(1)] by (simp add: principal_reg_def)
qed

lemma principal_bind_ok:
  assumes t: "list_all view_oid (tab vs)" "view_oid oid" and ok: "p_ok (tab vs) p"
  shows "\<exists>vs' nxt' p'. do { (vs1, nxt1, p1) \<leftarrow> (if a = MIB_ACES_WRITE then view_bind lk oid MIB_ACES_WRITE vs nxt p
                                else Some (vs, nxt, p)); view_bind lk oid MIB_ACES_READ vs1 nxt1 p1 } = Some (vs', nxt', p') \<and>
    p_name p' = p_name p \<and> prefix (tab vs) (tab vs') \<and> list_all view_oid (tab vs') \<and> p_ok (tab vs') p' \<and>
    (\<forall>b q. covers (tab vs') (views_of b p') q \<longleftrightarrow>
       covers (tab vs) (views_of b p) q \<or> prefix oid q \<and> (b = MIB_ACES_READ \<or> a = MIB_ACES_WRITE))"
proof -
  have lok: "list_ok (tab vs) (ro_views p)" "list_ok (tab vs) (rw_views p)"
    using ok by (auto simp: p_ok_def)
  obtain vs1 nxt1 pvs1 where w: "(if a = MIB_ACES_WRITE then view_bind lk oid MIB_ACES_WRITE vs nxt p
      else Some (vs, nxt, p)) = Some (vs1, nxt1, p\<lparr>rw_views := pvs1\<rparr>)"
    "prefix (tab vs) (tab vs1)" "list_all view_oid (tab vs1)" "list_ok (tab vs1) pvs1"
    "\<And>q. covers (tab vs1) pvs1 q \<longleftrightarrow> covers (tab vs) (rw_views p) q \<or> prefix oid q \<and> a = MIB_ACES_WRITE"
  proof (cases "a = MIB_ACES_WRITE")
    case True
    then show ?thesis
      using view_bind_ok [OF t, of MIB_ACES_WRITE p nxt] lok(2) that
      by (auto simp: views_of_def set_views_def list_after_def)
  next
    case False
    then show ?thesis
      using t lok that [of vs nxt "rw_views p"] by simp
  qed
  have ro: "list_ok (tab vs1) (ro_views p)" "\<And>q. covers (tab vs1) (ro_views p) q = covers (tab vs) (ro_views p) q"
    using list_ok_mono [OF w(2) lok(1)] by auto
  obtain vs2 nxt2 pvs2 where r: "view_bind lk oid MIB_ACES_READ vs1 nxt1 (p\<lparr>rw_views := pvs1\<rparr>) =
      Some (vs2, nxt2, p\<lparr>rw_views := pvs1, ro_views := pvs2\<rparr>)" "list_after oid vs1 (ro_views p) vs2 pvs2"
    using view_bind_ok [OF w(3) t(2), of MIB_ACES_READ "p\<lparr>rw_views := pvs1\<rparr>" nxt1] ro(1)
    by (auto simp: views_of_def set_views_def)
  have rw: "list_ok (tab vs2) pvs1" "\<And>q. covers (tab vs2) pvs1 q = covers (tab vs1) pvs1 q"
    using list_ok_mono [OF _ w(4), of "tab vs2"] r(2) by (auto simp: list_after_def)
  have "p_ok (tab vs2) (p\<lparr>rw_views := pvs1, ro_views := pvs2\<rparr>)"
    using ok r(2) rw w(5) ro(2) by (auto simp: p_ok_def list_after_def)
  then show ?thesis
    using w(1,2) r rw(2) w(5) ro(2) by (auto simp: list_after_def views_of_def intro: prefix_order.trans)
qed

lemma principal_reg_ok:
  assumes t: "list_all view_oid (tab vs)" "view_oid oid" and ok: "ps_ok (tab vs) ps"
  shows "\<exists>vs' nxt' ps'. principal_reg lk oid name a vs nxt ps = Some (vs', nxt', ps') \<and>
    prefix (tab vs) (tab vs') \<and> list_all view_oid (tab vs') \<and> ps_ok (tab vs') ps' \<and>
    (\<forall>n b q. allowed (tab vs') ps' n b q \<longleftrightarrow>
       allowed (tab vs) ps n b q \<or> n = name \<and> prefix oid q \<and> (b = MIB_ACES_READ \<or> a = MIB_ACES_WRITE))"
proof -
  let ?ps1 = "principal_create ps name"
  note c = principal_create_ok [OF ok, of name]
  obtain p where p: "principal_search ?ps1 name = Some p" "p \<in> set ?ps1" "p_name p = name"
    using c(2) by blast
  have pok: "p_ok (tab vs) p"
    using c(1) p(2) by (simp add: ps_ok_def list_all_iff)
  obtain vs' nxt' p' where b: "do { (vs1, nxt1, p1) \<leftarrow> (if a = MIB_ACES_WRITE then view_bind lk oid MIB_ACES_WRITE vs nxt p
      else Some (vs, nxt, p)); view_bind lk oid MIB_ACES_READ vs1 nxt1 p1 } = Some (vs', nxt', p')"
    "p_name p' = name" "prefix (tab vs) (tab vs')" "list_all view_oid (tab vs')" "p_ok (tab vs') p'"
    "\<And>b q. covers (tab vs') (views_of b p') q \<longleftrightarrow>
       covers (tab vs) (views_of b p) q \<or> prefix oid q \<and> (b = MIB_ACES_READ \<or> a = MIB_ACES_WRITE)"
    using principal_bind_ok [OF t pok, of a nxt] p(3) by blast
  have reg: "principal_reg lk oid name a vs nxt ps = Some (vs', nxt', principal_store p' ?ps1)"
    using b(1) p(1) by (auto simp: principal_reg_def split: bind_splits prod.splits if_splits)
  have ok1: "ps_ok (tab vs') ?ps1" "\<And>n b q. allowed (tab vs') ?ps1 n b q = allowed (tab vs) ps n b q"
    using ps_ok_mono [OF b(3) c(1)] c(3) by auto
  note s = principal_store_ok [OF ok1(1) b(5)]
  have "allowed (tab vs) ps name b q = covers (tab vs) (views_of b p) q" for b q
    using c(3) [of name b q] p(1) by (simp add: allowed_def)
  then have "allowed (tab vs') (principal_store p' ?ps1) n b q \<longleftrightarrow>
      allowed (tab vs) ps n b q \<or> n = name \<and> prefix oid q \<and> (b = MIB_ACES_READ \<or> a = MIB_ACES_WRITE)" for n b q
    using s(2) [of n b q] p b(2,6) ok1(2) by (cases "n = name") auto
  then show ?thesis
    using reg b(3,4) s(1) by blast
qed

text \<open>Deletion with read access: the loop ends, and the name is gone.\<close>

lemma principal_unreg_read:
  assumes "ps_ok (tab vs) ps"
  shows "\<exists>vs'. principal_unreg lk name MIB_ACES_READ vs ps = Some (vs', filter (\<lambda>p. p_name p \<noteq> name) ps) \<and>
    tab vs' = tab vs"
  using assms
proof (induction ps arbitrary: vs)
  case Nil
  then show ?case
    by (subst principal_unreg.simps) simp
next
  case (Cons p ps)
  have p: "valid (tab vs) (ro_views p)" "valid (tab vs) (rw_views p)" and ps: "ps_ok (tab vs) ps"
    using Cons.prems by (auto simp: ps_ok_def p_ok_def list_ok_def)
  obtain vs1 where vs1: "view_remove lk vs (ro_views p) = Some vs1" "tab vs1 = tab vs"
    using view_remove_ok [OF p(1)] by blast
  obtain vs2 where vs2: "view_remove lk vs1 (rw_views p) = Some vs2" "tab vs2 = tab vs"
    using view_remove_ok [of vs1 "rw_views p"] p(2) vs1(2) by auto
  show ?case
    using Cons.IH [of vs2] Cons.IH [OF ps] vs1 vs2 ps by (subst principal_unreg.simps) auto
qed

text \<open>Deletion with write access only: if the community can still be read, the loop never ends.\<close>

lemma principal_unreg_write:
  assumes "principal_search ps name = Some p" "ro_views p \<noteq> []"
  shows "principal_unreg lk name MIB_ACES_WRITE vs ps = None"
proof (rule ccontr)
  assume "principal_unreg lk name MIB_ACES_WRITE vs ps \<noteq> None"
  then obtain r where r: "principal_unreg lk name MIB_ACES_WRITE vs ps = Some r"
    by blast
  have "MIB_ACES_WRITE = MIB_ACES_WRITE \<longrightarrow> (\<forall>p. principal_search ps name = Some p \<longrightarrow> ro_views p = [])"
    by (rule principal_unreg.raw_induct [OF _ r, where P = "\<lambda>lk name a vs ps r. a = MIB_ACES_WRITE \<longrightarrow>
          (\<forall>p. principal_search ps name = Some p \<longrightarrow> ro_views p = [])"])
      (force simp: principal_search_def split: list.splits bind_splits if_splits)
  then show False
    using assms by simp
qed

end

interpretation community_links: view_links v_communities_update
  by unfold_locales simp

interpretation user_links: view_links v_users_update
  by unfold_locales simp


section \<open>Properties\<close>

text \<open>The invariant of the whole data base.\<close>

definition db_ok :: "mib_db \<Rightarrow> bool" where
  "db_ok db \<longleftrightarrow> list_all view_oid (tab (mib_views db)) \<and>
     ps_ok (tab (mib_views db)) (mib_communities db) \<and> ps_ok (tab (mib_views db)) (mib_users db)"

definition db_init :: mib_db where
  "db_init = \<lparr>mib_views = [], mib_communities = [], mib_users = [], next_pv = 0\<rparr>"

text \<open>What a community or user may do, by the functions the agent asks.\<close>

definition community_may :: "mib_db \<Rightarrow> bytes \<Rightarrow> aces \<Rightarrow> oid \<Rightarrow> bool option" where
  "community_may db name a q = mib_community_view_cover db (mib_community_search db name) a q"

definition user_may :: "mib_db \<Rightarrow> bytes \<Rightarrow> aces \<Rightarrow> oid \<Rightarrow> bool option" where
  "user_may db name a q = mib_user_view_cover db (mib_user_search db name) a q"

lemma cover_loop_ok: "valid (tab vs) pvs \<Longrightarrow> cover_loop vs q pvs = Some (covers (tab vs) pvs q)"
proof (induction pvs)
  case (Cons pv pvs)
  obtain v where "view_at vs (pv_view pv) = Some v" "v_oid v = tab vs ! pv_view pv"
    using view_at_ok [of "pv_view pv" vs] Cons.prems by (auto simp: valid_def)
  then show ?case
    using Cons by (simp add: oid_cover_pos covers_def oids_def valid_def)
qed (simp add: covers_def oids_def)

lemma view_cover_ok:
  assumes "ps_ok (tab vs) ps"
  shows "view_cover vs (principal_search ps name) a q = Some (allowed (tab vs) ps name a q)"
proof (cases "principal_search ps name")
  case (Some p)
  then have "p_ok (tab vs) p"
    using assms principal_search_Some by (auto simp: ps_ok_def list_all_iff)
  then have "valid (tab vs) (views_of a p)"
    by (simp add: p_ok_def list_ok_def views_of_def)
  then show ?thesis
    using Some by (simp add: view_cover_def allowed_def cover_loop_ok)
qed (simp add: view_cover_def allowed_def)

lemma community_may_ok:
  "db_ok db \<Longrightarrow> community_may db name a q = Some (allowed (tab (mib_views db)) (mib_communities db) name a q)"
  by (simp add: community_may_def mib_community_view_cover_def mib_community_search_def view_cover_ok db_ok_def)

lemma user_may_ok:
  "db_ok db \<Longrightarrow> user_may db name a q = Some (allowed (tab (mib_views db)) (mib_users db) name a q)"
  by (simp add: user_may_def mib_user_view_cover_def mib_user_search_def view_cover_ok db_ok_def)

lemma db_init_ok: "db_ok db_init"
  by (simp add: db_ok_def db_init_def tab_def ps_ok_def)

lemma mib_community_reg_effect:
  assumes "db_ok db" "view_oid oid"
  shows "\<exists>db'. mib_community_reg db oid name attr = Some db' \<and> db_ok db' \<and>
    (\<forall>n a q. community_may db' n a q = Some (community_may db n a q = Some True \<or>
       n = name \<and> prefix oid q \<and> (a = MIB_ACES_READ \<or> attr = MIB_ACES_WRITE))) \<and>
    (\<forall>n a q. user_may db' n a q = user_may db n a q)"
proof -
  have ok: "list_all view_oid (tab (mib_views db))" "ps_ok (tab (mib_views db)) (mib_communities db)"
    "ps_ok (tab (mib_views db)) (mib_users db)"
    using assms(1) by (auto simp: db_ok_def)
  obtain vs nxt ps where r:
    "principal_reg v_communities_update oid name attr (mib_views db) (next_pv db) (mib_communities db) = Some (vs, nxt, ps)"
    "prefix (tab (mib_views db)) (tab vs)" "list_all view_oid (tab vs)" "ps_ok (tab vs) ps"
    "\<And>n b q. allowed (tab vs) ps n b q \<longleftrightarrow> allowed (tab (mib_views db)) (mib_communities db) n b q \<or>
       n = name \<and> prefix oid q \<and> (b = MIB_ACES_READ \<or> attr = MIB_ACES_WRITE)"
    using community_links.principal_reg_ok [OF ok(1) assms(2) ok(2), of name attr "next_pv db"] by blast
  let ?db' = "db\<lparr>mib_views := vs, next_pv := nxt, mib_communities := ps\<rparr>"
  have ok': "db_ok ?db'"
    using r(3,4) ps_ok_mono(1) [OF r(2) ok(3)] by (simp add: db_ok_def)
  moreover have "user_may ?db' n a q = user_may db n a q" for n a q
    using user_may_ok [OF ok'] user_may_ok [OF assms(1)] ps_ok_mono(2) [OF r(2) ok(3)] by simp
  moreover have "community_may ?db' n a q = Some (community_may db n a q = Some True \<or>
      n = name \<and> prefix oid q \<and> (a = MIB_ACES_READ \<or> attr = MIB_ACES_WRITE))" for n a q
    using community_may_ok [OF ok'] community_may_ok [OF assms(1)] r(5) by simp
  ultimately show ?thesis
    using r(1) by (simp add: mib_community_reg_def)
qed

text \<open>C35: registering a view for a community, with an identifier of at most 1024 sub-identifiers below \<open>2 ^ 31\<close>, keeps the data base in
  order (lists sorted, no view of a list covering another, write access within read access), lets exactly that community read below
  the identifier, and write below it if registered for writing, and changes no other access of any
  community or user.\<close>

theorem mib_community_reg_spec:
  assumes "db_ok db" "view_oid oid"
  shows "\<exists>db'. mib_community_reg db oid name attr = Some db' \<and> db_ok db' \<and>
    (\<forall>n a q. community_may db' n a q = Some (community_may db n a q = Some True \<or>
       n = name \<and> prefix oid q \<and> (a = MIB_ACES_READ \<or> attr = MIB_ACES_WRITE))) \<and>
    (\<forall>n a q. user_may db' n a q = user_may db n a q)"
  by (rule mib_community_reg_effect [OF assms])

theorem mib_community_reg_spec_witness:
  "\<exists>db'. mib_community_reg db_init [1, 3] [0x70] MIB_ACES_READ = Some db' \<and> db_ok db' \<and>
     community_may db' [0x70] MIB_ACES_READ [1, 3, 6] = Some True \<and>
     community_may db' [0x70] MIB_ACES_WRITE [1, 3, 6] = Some False"
  using mib_community_reg_spec [OF db_init_ok, of "[1, 3]" "[0x70]" MIB_ACES_READ]
  by (auto simp: view_oid_def MIB_VALUE_MAX_LEN_def small_def community_may_def mib_community_view_cover_def
      mib_community_search_def principal_search_def view_cover_def db_init_def)

text \<open>There is no check of the length: an identifier of more than 1024 sub-identifiers that the community cannot read yet is written past the
  buffer of its copy, so the registration has no result.\<close>

lemma mib_community_reg_overflow:
  assumes "db_ok db" "small_oid oid" "MIB_VALUE_MAX_LEN < length oid" "community_may db name MIB_ACES_READ oid = Some False"
  shows "mib_community_reg db oid name attr = None"
  using community_links.principal_reg_overflow [of "mib_views db" oid "mib_communities db" name attr "next_pv db"] assms community_may_ok [OF assms(1)]
  by (simp add: mib_community_reg_def db_ok_def)

text \<open>The same for users: registering a view for a user gives that user exactly the named access
  below the identifier and changes no other access of any user or community.\<close>

theorem mib_user_reg_spec:
  assumes "db_ok db" "view_oid oid"
  shows "\<exists>db'. mib_user_reg db oid name attr = Some db' \<and> db_ok db' \<and>
    (\<forall>n a q. user_may db' n a q = Some (user_may db n a q = Some True \<or>
       n = name \<and> prefix oid q \<and> (a = MIB_ACES_READ \<or> attr = MIB_ACES_WRITE))) \<and>
    (\<forall>n a q. community_may db' n a q = community_may db n a q)"
proof -
  have ok: "list_all view_oid (tab (mib_views db))" "ps_ok (tab (mib_views db)) (mib_communities db)"
    "ps_ok (tab (mib_views db)) (mib_users db)"
    using assms(1) by (auto simp: db_ok_def)
  obtain vs nxt ps where r:
    "principal_reg v_users_update oid name attr (mib_views db) (next_pv db) (mib_users db) = Some (vs, nxt, ps)"
    "prefix (tab (mib_views db)) (tab vs)" "list_all view_oid (tab vs)" "ps_ok (tab vs) ps"
    "\<And>n b q. allowed (tab vs) ps n b q \<longleftrightarrow> allowed (tab (mib_views db)) (mib_users db) n b q \<or>
       n = name \<and> prefix oid q \<and> (b = MIB_ACES_READ \<or> attr = MIB_ACES_WRITE)"
    using user_links.principal_reg_ok [OF ok(1) assms(2) ok(3), of name attr "next_pv db"] by blast
  let ?db' = "db\<lparr>mib_views := vs, next_pv := nxt, mib_users := ps\<rparr>"
  have ok': "db_ok ?db'"
    using r(3,4) ps_ok_mono(1) [OF r(2) ok(2)] by (simp add: db_ok_def)
  moreover have "community_may ?db' n a q = community_may db n a q" for n a q
    using community_may_ok [OF ok'] community_may_ok [OF assms(1)] ps_ok_mono(2) [OF r(2) ok(2)] by simp
  moreover have "user_may ?db' n a q = Some (user_may db n a q = Some True \<or>
      n = name \<and> prefix oid q \<and> (a = MIB_ACES_READ \<or> attr = MIB_ACES_WRITE))" for n a q
    using user_may_ok [OF ok'] user_may_ok [OF assms(1)] r(5) by simp
  ultimately show ?thesis
    using r(1) by (simp add: mib_user_reg_eq)
qed

theorem mib_user_reg_spec_witness:
  "\<exists>db'. mib_user_reg db_init [1, 3] [0x70] MIB_ACES_WRITE = Some db' \<and> db_ok db' \<and>
     user_may db' [0x70] MIB_ACES_READ [1, 3, 6] = Some True \<and>
     user_may db' [0x70] MIB_ACES_WRITE [1, 3, 6] = Some True"
  using mib_user_reg_spec [OF db_init_ok, of "[1, 3]" "[0x70]" MIB_ACES_WRITE]
  by (auto simp: view_oid_def MIB_VALUE_MAX_LEN_def small_def)

lemma allowed_filter:
  "allowed t (filter (\<lambda>p. p_name p \<noteq> name) ps) n a q = (n \<noteq> name \<and> allowed t ps n a q)"
  by (induction ps) (auto simp: allowed_def principal_search_def)

lemma ps_ok_filter: "ps_ok t ps \<Longrightarrow> ps_ok t (filter P ps)"
  by (auto simp: ps_ok_def list_all_iff distinct_map_filter)

text \<open>unregistering a community for reading ends, takes every access of that community away and
  changes no other access.\<close>

theorem mib_community_unreg_read:
  assumes "db_ok db"
  shows "\<exists>db'. mib_community_unreg db name MIB_ACES_READ = Some db' \<and> db_ok db' \<and>
    (\<forall>n a q. community_may db' n a q = Some (n \<noteq> name \<and> community_may db n a q = Some True)) \<and>
    (\<forall>n a q. user_may db' n a q = user_may db n a q)"
proof -
  obtain vs where r: "principal_unreg v_communities_update name MIB_ACES_READ (mib_views db) (mib_communities db) =
      Some (vs, filter (\<lambda>p. p_name p \<noteq> name) (mib_communities db))" "tab vs = tab (mib_views db)"
    using community_links.principal_unreg_read [of "mib_views db" "mib_communities db" name] assms
    by (auto simp: db_ok_def)
  let ?db' = "db\<lparr>mib_views := vs, mib_communities := filter (\<lambda>p. p_name p \<noteq> name) (mib_communities db)\<rparr>"
  have ok': "db_ok ?db'"
    using assms r(2) by (simp add: db_ok_def ps_ok_filter)
  moreover have "community_may ?db' n a q = Some (n \<noteq> name \<and> community_may db n a q = Some True)"
    "user_may ?db' n a q = user_may db n a q" for n a q
    using community_may_ok [OF ok'] community_may_ok [OF assms] user_may_ok [OF ok'] user_may_ok [OF assms]
    by (simp_all add: r(2) allowed_filter)
  ultimately show ?thesis
    using r(1) by (simp add: mib_community_unreg_def)
qed

theorem mib_community_unreg_read_witness:
  "\<exists>db'. mib_community_unreg db_init [0x70] MIB_ACES_READ = Some db' \<and> db_ok db'"
  using mib_community_unreg_read [OF db_init_ok, of "[0x70]"] by auto

lemma mib_user_unreg_read:
  assumes "db_ok db"
  shows "\<exists>db'. mib_user_unreg db name MIB_ACES_READ = Some db' \<and> db_ok db' \<and>
    (\<forall>n a q. user_may db' n a q = Some (n \<noteq> name \<and> user_may db n a q = Some True)) \<and>
    (\<forall>n a q. community_may db' n a q = community_may db n a q)"
proof -
  obtain vs where r: "principal_unreg v_users_update name MIB_ACES_READ (mib_views db) (mib_users db) =
      Some (vs, filter (\<lambda>p. p_name p \<noteq> name) (mib_users db))" "tab vs = tab (mib_views db)"
    using user_links.principal_unreg_read [of "mib_views db" "mib_users db" name] assms
    by (auto simp: db_ok_def)
  let ?db' = "db\<lparr>mib_views := vs, mib_users := filter (\<lambda>p. p_name p \<noteq> name) (mib_users db)\<rparr>"
  have ok': "db_ok ?db'"
    using assms r(2) by (simp add: db_ok_def ps_ok_filter)
  moreover have "user_may ?db' n a q = Some (n \<noteq> name \<and> user_may db n a q = Some True)"
    "community_may ?db' n a q = community_may db n a q" for n a q
    using community_may_ok [OF ok'] community_may_ok [OF assms] user_may_ok [OF ok'] user_may_ok [OF assms]
    by (simp_all add: r(2) allowed_filter)
  ultimately show ?thesis
    using r(1) by (simp add: mib_user_unreg_def)
qed

text \<open>C36: unregistering a community for writing only never ends if the community can still read
  something: the loop visits the same list element again and again. The same holds for users.\<close>

theorem mib_community_unreg_write_diverges:
  assumes "mib_community_search db name = Some c" "ro_views c \<noteq> []"
  shows "mib_community_unreg db name MIB_ACES_WRITE = None"
  using community_links.principal_unreg_write [of "mib_communities db" name c] assms
  by (simp add: mib_community_unreg_def mib_community_search_def)

theorem mib_community_unreg_write_diverges_witness:
  "mib_community_unreg
     \<lparr>mib_views = [\<lparr>v_oid = [1], v_communities = [0], v_users = []\<rparr>],
      mib_communities = [\<lparr>p_name = [0x70], ro_views = [\<lparr>pv_id = 0, pv_view = 0\<rparr>], rw_views = []\<rparr>],
      mib_users = [], next_pv = 1\<rparr> [0x70] MIB_ACES_WRITE = None"
  by (rule mib_community_unreg_write_diverges [where c = "\<lparr>p_name = [0x70], ro_views = [\<lparr>pv_id = 0, pv_view = 0\<rparr>], rw_views = []\<rparr>"])
    (simp_all add: mib_community_search_def principal_search_def)

text \<open>The views of a community or user, as the GETNEXT loop asks for them.\<close>

primrec view_walk :: "nat \<Rightarrow> (nat option \<Rightarrow> nat option) \<Rightarrow> nat option \<Rightarrow> nat list" where
  "view_walk 0 nxt v = []"
| "view_walk (Suc n) nxt v = (case nxt v of None \<Rightarrow> [] | Some h \<Rightarrow> h # view_walk n nxt (Some h))"

lemma next_view_loop_nth:
  assumes "distinct (map pv_view pvs)" "i < length pvs"
  shows "next_view_loop pvs (Some (pv_view (pvs ! i))) =
    (if Suc i < length pvs then Some (pv_view (pvs ! Suc i)) else None)"
  using assms
proof (induction pvs arbitrary: i)
  case (Cons pv pvs)
  have last: "next_view_loop pvs (Some h) = None" if "h \<notin> pv_view ` set pvs" for h pvs
    using that by (induction pvs) auto
  show ?case
  proof (cases i)
    case 0
    then show ?thesis
      using Cons.prems last [of "pv_view pv" pvs] by (auto simp: hd_conv_nth)
  next
    case (Suc j)
    then have "pv_view (pvs ! j) \<noteq> pv_view pv"
      using Cons.prems by auto (metis image_eqI nth_mem)
    then show ?thesis
      using Cons Suc by auto
  qed
qed simp

lemma view_walk_from:
  assumes "distinct (map pv_view pvs)" "i < length pvs" "length pvs \<le> i + n"
  shows "view_walk n (next_view_loop pvs) (Some (pv_view (pvs ! i))) = map pv_view (drop (Suc i) pvs)"
  using assms(2,3)
proof (induction n arbitrary: i)
  case (Suc n)
  then show ?case
    using next_view_loop_nth [OF assms(1) Suc.prems(1)]
    by (auto simp: Suc_lessI Cons_nth_drop_Suc [of "Suc i" pvs, symmetric])
qed simp

lemma view_walk_all:
  assumes "distinct (map pv_view pvs)"
  shows "view_walk (Suc (length pvs)) (next_view_loop pvs) None = map pv_view pvs"
  using view_walk_from [OF assms, of 0 "length pvs"] by (cases pvs) auto

lemma handles_distinct: "list_ok t pvs \<Longrightarrow> distinct (map pv_view pvs)"
proof -
  assume "list_ok t pvs"
  then have "distinct (oids t pvs)"
    using strict_sorted_iff by (auto simp: list_ok_def)
  then show ?thesis
    unfolding oids_def using distinct_map [of "\<lambda>h. t ! h" "map pv_view pvs"] by (simp add: comp_def)
qed

text \<open>asking for the next view again and again, from the start, lists the views of a community
  exactly once each, in the strict lexicographic order of their identifiers, and then ends.\<close>

theorem mib_community_views_walk:
  assumes "db_ok db" "mib_community_search db name = Some c"
  shows "view_walk (Suc (length (views_of a c))) (mib_community_next_view (Some c) a) None =
      map pv_view (views_of a c) \<and>
    sorted_wrt (<) (map (\<lambda>h. tab (mib_views db) ! h) (map pv_view (views_of a c)))"
proof -
  have "p_ok (tab (mib_views db)) c"
    using assms principal_search_Some
    by (fastforce simp: db_ok_def ps_ok_def list_all_iff mib_community_search_def)
  then have ok: "list_ok (tab (mib_views db)) (views_of a c)"
    by (simp add: p_ok_def views_of_def)
  have "mib_community_next_view (Some c) a = next_view_loop (views_of a c)"
    by (simp add: fun_eq_iff mib_community_next_view_def next_view_def)
  then show ?thesis
    using view_walk_all [OF handles_distinct [OF ok]] ok by (simp add: list_ok_def oids_def comp_def)
qed

definition db_example :: mib_db where
  "db_example = \<lparr>mib_views = [\<lparr>v_oid = [1, 4], v_communities = [1], v_users = []\<rparr>,
       \<lparr>v_oid = [1, 3], v_communities = [0], v_users = []\<rparr>],
     mib_communities = [\<lparr>p_name = [0x70], ro_views = [\<lparr>pv_id = 0, pv_view = 0\<rparr>, \<lparr>pv_id = 1, pv_view = 1\<rparr>], rw_views = []\<rparr>],
     mib_users = [], next_pv = 2\<rparr>"

lemma db_example_ok: "db_ok db_example"
  by (simp add: db_example_def db_ok_def tab_def ps_ok_def p_ok_def view_list_defs view_oid_def MIB_VALUE_MAX_LEN_def small_def)

theorem mib_community_views_walk_witness:
  "view_walk 3 (mib_community_next_view (mib_community_search db_example [0x70]) MIB_ACES_READ) None = [0, 1]"
  using mib_community_views_walk [OF db_example_ok, of "[0x70]"
      "\<lparr>p_name = [0x70], ro_views = [\<lparr>pv_id = 0, pv_view = 0\<rparr>, \<lparr>pv_id = 1, pv_view = 1\<rparr>], rw_views = []\<rparr>" MIB_ACES_READ]
  by (simp add: db_example_def mib_community_search_def principal_search_def views_of_def
      eval_nat_numeral del: view_walk.simps)

end
