(* ===== verification/Answer_Loop.thy ===== *)
theory Answer_Loop
  imports Prelude
begin

text \<open>
  The loop that both agents use to answer a request (\<open>list_for_each_safe\<close> with a counter, in
  \<open>core/snmp_msg_proc.c\<close> and \<open>core/agentx_msg_proc.c\<close>): every element of the request is
  processed in order with its position, counted from 1. The locale states what one iteration promises:
  it makes one search, adds the answer made from its result, and marks its error unless one is marked. It
  derives what the whole loop does: the searches are made one after the other, every one is answered, in order, and the two error fields
  are those of the first search that failed.
\<close>

primrec each_vb :: "(nat \<Rightarrow> 'vb \<Rightarrow> 'st \<Rightarrow> 'st option) \<Rightarrow> nat \<Rightarrow> 'vb list \<Rightarrow> 'st \<Rightarrow> 'st option" where
  "each_vb step cnt [] st = Some st"
| "each_vb step cnt (vb # vbs) st = do { st' \<leftarrow> step (Suc cnt) vb st; each_vb step (Suc cnt) vbs st' }"

text \<open>The specification: the results of the searches, each of which starts from the result of the one before, and the error of the first result
  that has one, with its position.\<close>

primrec asks :: "('vb \<Rightarrow> 's \<Rightarrow> 's option) \<Rightarrow> 'vb list \<Rightarrow> 's \<Rightarrow> 's list option" where
  "asks ask [] s = Some []"
| "asks ask (vb # vbs) s = do { s1 \<leftarrow> ask vb s; ss \<leftarrow> asks ask vbs s1; Some (s1 # ss) }"

definition first_error :: "('s \<Rightarrow> 'e::zero) \<Rightarrow> (nat \<Rightarrow> 'i) \<Rightarrow> 's list \<Rightarrow> 'i \<Rightarrow> 'e \<times> 'i" where
  "first_error code num ss i =
     (let n = length (takeWhile (\<lambda>s. code s = 0) ss) in if n = length ss then (0, i) else (code (ss ! n), num (Suc n)))"

lemma first_error_Nil [simp]: "first_error code num [] i = (0, i)"
  by (simp add: first_error_def)

lemma first_error_Cons:
  "first_error code num (s # ss) i =
     (if code s = 0 then first_error code (\<lambda>n. num (Suc n)) ss i else (code s, num (Suc 0)))"
  by (simp add: first_error_def Let_def)

text \<open>The state of a loop is the answer \<open>d\<close> and the result of the last search, \<open>s\<close>. An answer has variable bindings (\<open>outs\<close>), an error
  status and an error index. \<open>ask\<close> is the search of an iteration, for the request that \<open>d\<close> answers; \<open>failed\<close>
  tells if a result reports an error, and \<open>code\<close> is that error in the type of the status field.\<close>

locale answer_loop =
  fixes step :: "nat \<Rightarrow> 'vb \<Rightarrow> 'd \<times> 's \<Rightarrow> ('d \<times> 's) option"
    and ask :: "'d \<Rightarrow> 'vb \<Rightarrow> 's \<Rightarrow> 's option" and answer :: "'vb \<Rightarrow> 's \<Rightarrow> 'o option"
    and outs :: "'d \<Rightarrow> 'o list" and status :: "'d \<Rightarrow> 'e::zero" and idx :: "'d \<Rightarrow> 'i" and num :: "nat \<Rightarrow> 'i"
    and failed :: "'s \<Rightarrow> bool" and code :: "'s \<Rightarrow> 'e"
  assumes step_asks: "step cnt vb (d, s) = Some (d', s') \<Longrightarrow> ask d vb s = Some s' \<and> ask d' = ask d"
    and step_answers: "step cnt vb (d, s) = Some (d', s') \<Longrightarrow> \<exists>out. answer vb s' = Some out \<and> outs d' = outs d @ [out]"
    and step_keeps: "step cnt vb (d, s) = Some (d', s') \<Longrightarrow> status d \<noteq> 0 \<or> \<not> failed s' \<Longrightarrow>
      status d' = status d \<and> idx d' = idx d"
    and step_marks: "step cnt vb (d, s) = Some (d', s') \<Longrightarrow> status d = 0 \<Longrightarrow> failed s' \<Longrightarrow>
      status d' = code s' \<and> idx d' = num cnt"
    and code_0: "\<not> failed s \<Longrightarrow> code s = 0"
begin

lemma loop_Cons:
  assumes "each_vb step cnt (vb # vbs) (d, s) = Some (d', s')"
  obtains d1 s1 where "step (Suc cnt) vb (d, s) = Some (d1, s1)" "each_vb step (Suc cnt) vbs (d1, s1) = Some (d', s')"
  using assms by (auto simp: Option.bind_eq_Some_conv)

lemma loop_answers:
  assumes "each_vb step cnt vbs (d, s) = Some (d', s')"
  shows "\<exists>ss os. asks (ask d) vbs s = Some ss \<and> last (s # ss) = s' \<and> map2 answer vbs ss = map Some os \<and> outs d' = outs d @ os"
  using assms
proof (induction vbs arbitrary: cnt d s)
  case (Cons vb vbs)
  obtain d1 s1 where s: "step (Suc cnt) vb (d, s) = Some (d1, s1)" "each_vb step (Suc cnt) vbs (d1, s1) = Some (d', s')"
    using Cons.prems by (rule loop_Cons)
  note a = step_asks [OF s(1)]
  obtain out where "answer vb s1 = Some out" "outs d1 = outs d @ [out]"
    using step_answers [OF s(1)] by blast
  moreover obtain ss os where "asks (ask d1) vbs s1 = Some ss" "last (s1 # ss) = s'" "map2 answer vbs ss = map Some os" "outs d' = outs d1 @ os"
    using Cons.IH [OF s(2)] by blast
  ultimately show ?case
    using a by (intro exI [of _ "s1 # ss"] exI [of _ "out # os"]) simp
qed simp

lemma loop_marked:
  "each_vb step cnt vbs (d, s) = Some (d', s') \<Longrightarrow> status d \<noteq> 0 \<Longrightarrow> status d' = status d \<and> idx d' = idx d"
proof (induction vbs arbitrary: cnt d s)
  case (Cons vb vbs)
  then show ?case
    by (elim loop_Cons) (fastforce dest: step_keeps)
qed simp

text \<open>A loop that starts without an error ends with the first error of its searches, if every error fits the status field.\<close>

lemma loop_errors:
  assumes "each_vb step cnt vbs (d, s) = Some (d', s')" "status d = 0" "asks (ask d) vbs s = Some ss" "\<forall>s \<in> set ss. failed s \<longrightarrow> code s \<noteq> 0"
  shows "(status d', idx d') = first_error code (\<lambda>n. num (cnt + n)) ss (idx d)"
  using assms
proof (induction vbs arbitrary: cnt d s ss)
  case (Cons vb vbs)
  obtain d1 s1 where s: "step (Suc cnt) vb (d, s) = Some (d1, s1)" "each_vb step (Suc cnt) vbs (d1, s1) = Some (d', s')"
    using Cons.prems(1) by (rule loop_Cons)
  obtain ss1 where ss: "ss = s1 # ss1" "asks (ask d1) vbs s1 = Some ss1"
    using Cons.prems(3) step_asks [OF s(1)] by (auto simp: Option.bind_eq_Some_conv)
  show ?case
  proof (cases "failed s1")
    case False
    then have k: "status d1 = 0" "idx d1 = idx d" "code s1 = 0"
      using step_keeps [OF s(1)] Cons.prems(2) code_0 by simp_all
    then show ?thesis
      using Cons.IH [OF s(2) k(1) ss(2)] Cons.prems(4) ss(1) by (simp add: first_error_Cons)
  next
    case True
    then have "code s1 \<noteq> 0" "status d1 = code s1" "idx d1 = num (Suc cnt)"
      using step_marks [OF s(1) Cons.prems(2)] Cons.prems(4) ss(1) by simp_all
    then show ?thesis
      using loop_marked [OF s(2)] ss(1) by (simp add: first_error_Cons)
  qed
qed simp

end

end
