(* ===== verification/Snmp_Msg_Proc.thy ===== *)
theory Snmp_Msg_Proc
  imports Snmp_Msg_Codec Mib_Get Mib_View Answer_Loop
begin

text \<open>
  Processing a request (\<open>core/snmp_msg_proc.c\<close>) and the entry point of the agent (\<open>snmpd_recv\<close> and
  \<open>snmp_request_dispatch\<close> in \<open>core/snmp_msg_in.c\<close>). The tree \<open>root\<close>, the access data base \<open>db\<close> and
  the handlers \<open>lua\<close> are fixed while a request is processed; the state \<open>w\<close> of the handlers is passed
  through every call, in the order of the calls. What is sent is a value: the bytes written to the
  send buffer and the size handed to the transport.
\<close>

section \<open>Definitions\<close>

abbreviation SNMP_ERR_STAT_NO_ACCESS :: int where
  "SNMP_ERR_STAT_NO_ACCESS \<equiv> 6"

abbreviation SNMP_ERR_STAT_NOT_WRITABLE :: int where
  "SNMP_ERR_STAT_NOT_WRITABLE \<equiv> 17"

text \<open>A name in a character array, for the comparison with \<open>strcmp\<close>.\<close>

definition c_str :: "bytes \<Rightarrow> bytes option" where
  "c_str arr = (if 0 \<in> set arr then Some (takeWhile (\<lambda>b. b \<noteq> 0) arr) else None)"

subsection \<open>Access control and the loop over the views\<close>

text \<open>The community or user of a request.\<close>

definition requester :: "mib_db \<Rightarrow> snmp_datagram \<Rightarrow> principal option option" where
  "requester db sdg =
     (if sint (version sdg) \<ge> 3 then map_option (mib_user_search db) (c_str (user_name (security sdg)))
      else map_option (mib_community_search db) (c_str (context_name sdg)))"

definition requester_next_view :: "snmp_datagram \<Rightarrow> principal option \<Rightarrow> aces \<Rightarrow> nat option \<Rightarrow> nat option" where
  "requester_next_view sdg pr a v =
     (if sint (version sdg) \<ge> 3 then mib_user_next_view pr a v else mib_community_next_view pr a v)"

definition requester_view_cover :: "mib_db \<Rightarrow> snmp_datagram \<Rightarrow> principal option \<Rightarrow> aces \<Rightarrow> oid \<Rightarrow> bool option" where
  "requester_view_cover db sdg pr a oid =
     (if sint (version sdg) \<ge> 3 then mib_user_view_cover db pr a oid else mib_community_view_cover db pr a oid)"

definition no_access :: "oid_search_res \<Rightarrow> oid_search_res" where
  "no_access r = r\<lparr>sr_err_stat := SNMP_ERR_STAT_NO_ACCESS\<rparr>"

text \<open>The end of the views: the identifier of the request is copied into the result.\<close>

definition views_end :: "oid \<Rightarrow> oid_search_res \<Rightarrow> oid_search_res option" where
  "views_end oid r = do { buf \<leftarrow> oid_dup oid; Some (r\<lparr>sr_oid := buf, sr_id_len := length oid\<rparr>) }"

partial_function (option) views_search ::
  "'w lua \<Rightarrow> mib_node \<Rightarrow> view list \<Rightarrow> (nat option \<Rightarrow> nat option) \<Rightarrow> oid \<Rightarrow> nat option \<Rightarrow> oid_search_res \<Rightarrow> 'w \<Rightarrow>
   (oid_search_res \<times> 'w) option" where
  "views_search lua root vs nxt oid view r w =
     (case nxt view of
        None \<Rightarrow> do { r' \<leftarrow> views_end oid r; Some (r', w) }
      | Some h \<Rightarrow>
          do { v \<leftarrow> view_at vs h;
               (_, r', w') \<leftarrow> mib_tree_search lua root (v_oid v) oid r w;
               if (sr_err_stat r' = 0 \<and> MIB_TAG_VALID (var_tag (sr_var r'))) \<or> oid_cmp oid (v_oid v) < 0
               then Some (r', w')
               else views_search lua root vs nxt oid (Some h) r' w' })"

partial_function (option) views_search_next ::
  "'w lua \<Rightarrow> mib_node \<Rightarrow> view list \<Rightarrow> (nat option \<Rightarrow> nat option) \<Rightarrow> oid \<Rightarrow> nat option \<Rightarrow> oid_search_res \<Rightarrow> 'w \<Rightarrow>
   (oid_search_res \<times> 'w) option" where
  "views_search_next lua root vs nxt oid view r w =
     (case nxt view of
        None \<Rightarrow> do { r' \<leftarrow> views_end oid r; Some (r', w) }
      | Some h \<Rightarrow>
          do { v \<leftarrow> view_at vs h;
               (r', w') \<leftarrow> mib_tree_search_next lua root (v_oid v) oid r w;
               if var_tag (sr_var r') \<noteq> ASN1_TAG_END_OF_MIB_VIEW then Some (r', w')
               else views_search_next lua root vs nxt oid (Some h) r' w' })"

definition mib_get ::
  "'w lua \<Rightarrow> mib_node \<Rightarrow> mib_db \<Rightarrow> snmp_datagram \<Rightarrow> var_bind \<Rightarrow> oid_search_res \<Rightarrow> 'w \<Rightarrow> (oid_search_res \<times> 'w) option" where
  "mib_get lua root db sdg vb r w =
     do { pr \<leftarrow> requester db sdg;
          let r1 = (if pr = None then no_access r else r);
          views_search lua root (mib_views db) (requester_next_view sdg pr MIB_ACES_READ) (vb_oid vb) None r1 w }"

definition mib_getnext ::
  "'w lua \<Rightarrow> mib_node \<Rightarrow> mib_db \<Rightarrow> snmp_datagram \<Rightarrow> var_bind \<Rightarrow> oid_search_res \<Rightarrow> 'w \<Rightarrow> (oid_search_res \<times> 'w) option" where
  "mib_getnext lua root db sdg vb r w =
     do { pr \<leftarrow> requester db sdg;
          let r1 = (if pr = None then no_access r else r);
          views_search_next lua root (mib_views db) (requester_next_view sdg pr MIB_ACES_READ) (vb_oid vb) None r1 w }"

definition mib_set ::
  "'w lua \<Rightarrow> mib_node \<Rightarrow> mib_db \<Rightarrow> snmp_datagram \<Rightarrow> var_bind \<Rightarrow> oid_search_res \<Rightarrow> 'w \<Rightarrow> (oid_search_res \<times> 'w) option" where
  "mib_set lua root db sdg vb r w =
     do { pr \<leftarrow> requester db sdg;
          (pr1, r1) \<leftarrow> (if pr \<noteq> None then
              do { c \<leftarrow> requester_view_cover db sdg pr MIB_ACES_WRITE (vb_oid vb);
                   Some (if c then (pr, r) else (None, no_access r)) }
            else Some (pr, no_access r));
          views_search lua root (mib_views db) (requester_next_view sdg pr1 MIB_ACES_WRITE) (vb_oid vb) None r1 w }"

subsection \<open>Variable bindings of the answer\<close>

text \<open>The value of the request is decoded into the variable of the result.\<close>

definition vb_in_value :: "var_bind \<Rightarrow> oid_search_res \<Rightarrow> oid_search_res option" where
  "vb_in_value vb r =
     do { bs \<leftarrow> rdn (vb_value vb) 0 (unat (value_len vb));
          (n, img) \<leftarrow> ber_value_dec bs (value_type vb);
          mem \<leftarrow> wr (var_mem (sr_var r)) img;
          Some (r\<lparr>sr_var := \<lparr>var_tag = value_type vb, var_len = ucast n, var_mem = mem\<rparr>\<rparr>) }"

text \<open>The first error is recorded with the position of its variable binding. The status is a C \<open>int\<close>, so it is
  tested in 32 bits.\<close>

definition mark_error :: "int \<Rightarrow> nat \<Rightarrow> snmp_datagram \<Rightarrow> snmp_datagram" where
  "mark_error e cnt sdg =
     (if (word_of_int e :: u32) \<noteq> 0 \<and> err_stat (hdr sdg) = 0
      then sdg\<lparr>hdr := (hdr sdg)\<lparr>err_stat := word_of_int e, err_idx := word_of_nat cnt\<rparr>\<rparr> else sdg)"

text \<open>The new variable binding: \<open>n\<close> is the number of elements the encoder is given. A value longer than
  the \<open>val_len\<close> bytes allocated for it overruns the heap object.\<close>

definition vb_out_value :: "oid_search_res \<Rightarrow> (u32 \<Rightarrow> u32) \<Rightarrow> bytes option" where
  "vb_out_value r n =
     (let var = sr_var r in
      do { val_len \<leftarrow> ber_value_enc_try (var_mem var) (ucast (var_len var)) (var_tag var);
           bs \<leftarrow> ber_value_enc (var_mem var) (n val_len) (var_tag var);
           if length bs \<le> unat val_len then Some bs else None })"

definition vb_out_make :: "oid_search_res \<Rightarrow> u8 \<Rightarrow> bytes \<Rightarrow> var_bind option" where
  "vb_out_make r type val =
     do { oid \<leftarrow> rdn (sr_oid r) 0 (sr_id_len r);
          oid_len \<leftarrow> ber_value_enc_try (oid_img oid) (word_of_nat (length oid)) ASN1_TAG_OBJID;
          let vlen = word_of_nat (length val);
          Some \<lparr>vb_oid = oid, vb_len = tlv_size oid_len + tlv_size vlen, value_len = vlen, value_type = type, vb_value = val\<rparr> }"

definition vb_out_add :: "var_bind \<Rightarrow> snmp_datagram \<Rightarrow> snmp_datagram" where
  "vb_out_add vb sdg = sdg\<lparr>vb_list_len := vb_list_len sdg + tlv_size (vb_len vb),
     vb_out_list := vb_out_list sdg @ [vb], vb_out_cnt := vb_out_cnt sdg + 1\<rparr>"

text \<open>The state of the loops: the datagram, the search result that all iterations share, the state of the handlers.\<close>

type_synonym 'w proc = "snmp_datagram \<times> oid_search_res \<times> 'w"

type_synonym 'w search = "snmp_datagram \<Rightarrow> var_bind \<Rightarrow> oid_search_res \<Rightarrow> 'w \<Rightarrow> (oid_search_res \<times> 'w) option"

text \<open>One iteration of \<open>snmp_get\<close> and \<open>snmp_getnext\<close>, and of \<open>snmp_set\<close>; \<open>cnt\<close> is \<open>vb_in_cnt\<close>.\<close>

definition read_step :: "'w search \<Rightarrow> nat \<Rightarrow> var_bind \<Rightarrow> 'w proc \<Rightarrow> 'w proc option" where
  "read_step search cnt vb = (\<lambda>(sdg, r, w).
     do { r0 \<leftarrow> vb_in_value vb r;
          (r1, w') \<leftarrow> search sdg vb r0 w;
          val \<leftarrow> vb_out_value r1 (\<lambda>_. ucast (var_len (sr_var r1)));
          vb_out \<leftarrow> vb_out_make r1 (var_tag (sr_var r1)) val;
          Some (vb_out_add vb_out (mark_error (sr_err_stat r1) cnt sdg), r1, w') })"

definition set_step :: "'w search \<Rightarrow> nat \<Rightarrow> var_bind \<Rightarrow> 'w proc \<Rightarrow> 'w proc option" where
  "set_step search cnt vb = (\<lambda>(sdg, r, w).
     do { r0 \<leftarrow> vb_in_value vb r;
          (r1, w') \<leftarrow> search sdg vb r0 w;
          val \<leftarrow> vb_out_value r1 (\<lambda>val_len. val_len);
          vb_out \<leftarrow> vb_out_make r1 (value_type vb) val;
          let r2 = (if sr_err_stat r1 = 0 \<and> \<not> MIB_TAG_VALID (var_tag (sr_var r1))
                    then r1\<lparr>sr_err_stat := SNMP_ERR_STAT_NOT_WRITABLE\<rparr> else r1);
          Some (vb_out_add vb_out (mark_error (sr_err_stat r2) cnt sdg), r2, w') })"

subsection \<open>Requests\<close>

type_synonym 'w reply = "snmp_datagram \<times> 'w \<times> (bytes \<times> u32) option"

definition respond :: "'w proc \<Rightarrow> 'w reply option" where
  "respond = (\<lambda>(sdg, r, w). do { (sdg', bs, total) \<leftarrow> snmp_response sdg; Some (sdg', w, Some (bs, total)) })"

definition snmp_get :: "'w lua \<Rightarrow> mib_node \<Rightarrow> mib_db \<Rightarrow> snmp_datagram \<Rightarrow> 'w \<Rightarrow> 'w reply option" where
  "snmp_get lua root db sdg w =
     do { st \<leftarrow> each_vb (read_step (mib_get lua root db)) 0 (vb_in_list sdg) (sdg, res_zero MIB_REQ_GET, w);
          respond st }"

definition snmp_getnext :: "'w lua \<Rightarrow> mib_node \<Rightarrow> mib_db \<Rightarrow> snmp_datagram \<Rightarrow> 'w \<Rightarrow> 'w reply option" where
  "snmp_getnext lua root db sdg w =
     do { st \<leftarrow> each_vb (read_step (mib_getnext lua root db)) 0 (vb_in_list sdg) (sdg, res_zero MIB_REQ_GETNEXT, w);
          respond st }"

definition snmp_set :: "'w lua \<Rightarrow> mib_node \<Rightarrow> mib_db \<Rightarrow> snmp_datagram \<Rightarrow> 'w \<Rightarrow> 'w reply option" where
  "snmp_set lua root db sdg w =
     do { st \<leftarrow> each_vb (set_step (mib_set lua root db)) 0 (vb_in_list sdg) (sdg, res_zero MIB_REQ_SET, w);
          respond st }"

text \<open>GETBULK: an iteration also stores the identifier it found in the variable binding of the request. The
  counter \<open>cnt\<close> goes on through the repetitions.\<close>

primrec bulk_list :: "'w search \<Rightarrow> nat \<Rightarrow> var_bind list \<Rightarrow> 'w proc \<Rightarrow> (var_bind list \<times> 'w proc) option" where
  "bulk_list search cnt [] st = Some ([], st)"
| "bulk_list search cnt (vb # vbs) st =
     do { st' \<leftarrow> read_step search (Suc cnt) vb st;
          oid \<leftarrow> rdn (sr_oid (fst (snd st'))) 0 (sr_id_len (fst (snd st')));
          oid' \<leftarrow> oid_dup oid;
          (vbs', st'') \<leftarrow> bulk_list search (Suc cnt) vbs st';
          Some (vb\<lparr>vb_oid := oid'\<rparr> # vbs', st'') }"

primrec bulk_loop :: "'w search \<Rightarrow> nat \<Rightarrow> nat \<Rightarrow> var_bind list \<Rightarrow> 'w proc \<Rightarrow> (var_bind list \<times> 'w proc) option" where
  "bulk_loop search 0 cnt vbs st = Some (vbs, st)"
| "bulk_loop search (Suc repeat) cnt vbs st =
     do { (vbs', st') \<leftarrow> bulk_list search cnt vbs st;
          bulk_loop search repeat (cnt + length vbs) vbs' st' }"

definition snmp_bulkget :: "'w lua \<Rightarrow> mib_node \<Rightarrow> mib_db \<Rightarrow> snmp_datagram \<Rightarrow> 'w \<Rightarrow> 'w reply option" where
  "snmp_bulkget lua root db sdg w =
     (let repeat = err_idx (hdr sdg); sdg1 = sdg\<lparr>hdr := (hdr sdg)\<lparr>err_idx := 0\<rparr>\<rparr> in
      do { (vbs, sdg2, r, w') \<leftarrow> bulk_loop (mib_getnext lua root db) (unat repeat) 0 (vb_in_list sdg1)
             (sdg1, res_zero MIB_REQ_GETNEXT, w);
           respond (sdg2\<lparr>vb_in_list := vbs\<rparr>, r, w') })"

subsection \<open>Dispatch and entry point\<close>

definition resp_type :: "snmp_datagram \<Rightarrow> snmp_datagram" where
  "resp_type sdg = sdg\<lparr>hdr := (hdr sdg)\<lparr>pdu_type := (if vb_in_cnt sdg = 0 then MIB_REPO else MIB_RESP)\<rparr>\<rparr>"

definition snmp_request_dispatch :: "'w lua \<Rightarrow> mib_node \<Rightarrow> mib_db \<Rightarrow> snmp_datagram \<Rightarrow> 'w \<Rightarrow> 'w reply option" where
  "snmp_request_dispatch lua root db sdg w =
     (let t = pdu_type (hdr sdg) in
      if t = MIB_REQ_GET then snmp_get lua root db (resp_type sdg) w
      else if t = MIB_REQ_GETNEXT then snmp_getnext lua root db (resp_type sdg) w
      else if t = MIB_REQ_SET then snmp_set lua root db (resp_type sdg) w
      else if t = MIB_REQ_BULKGET then snmp_bulkget lua root db (resp_type sdg) w
      else Some (sdg, w, None))"

definition snmpd_recv ::
  "'w lua \<Rightarrow> mib_node \<Rightarrow> mib_db \<Rightarrow> snmp_datagram \<Rightarrow> bytes \<Rightarrow> 'w \<Rightarrow> 'w reply option" where
  "snmpd_recv lua root db sdg buffer w =
     do { t \<leftarrow> rd buffer 0;
          if t \<noteq> ASN1_TAG_SEQ then Some (sdg, w, None)
          else
            do { (len_len, len) \<leftarrow> ber_length_dec buffer 1;
                 if 1 + word_of_nat len_len + len \<noteq> word_of_nat (length buffer)
                 then Some (sdg\<lparr>data_len := len\<rparr>, w, None)
                 else do { sdg1 \<leftarrow> snmp_decode buffer snmp_datagram_clear;
                           snmp_request_dispatch lua root db sdg1 w } } }"

end
