(* ===== verification/Snmp_Access.thy ===== *)
theory Snmp_Access
  imports Snmp_Msg_Proc
begin

text \<open>
  Access control of requests: the loop over the views of a community or user is a walk through its
  sorted list of views, so a GET or SET asks the handler of the one view that covers the identifier,
  a request without access asks no handler at all, and a GETNEXT stays within the views.
\<close>

section \<open>Views as a list\<close>

text \<open>What the loops rely on: asking for the next view walks through the list of a community or user.\<close>

locale view_cursor =
  fixes nxt :: "principal option \<Rightarrow> aces \<Rightarrow> nat option \<Rightarrow> nat option"
  assumes nxt_none: "nxt None a v = None"
    and nxt_first: "nxt (Some p) a None = (if views_of a p = [] then None else Some (pv_view (hd (views_of a p))))"
    and nxt_step: "distinct (map pv_view (views_of a p)) \<Longrightarrow> i < length (views_of a p) \<Longrightarrow>
      nxt (Some p) a (Some (pv_view (views_of a p ! i))) =
        (if Suc i < length (views_of a p) then Some (pv_view (views_of a p ! Suc i)) else None)"

text \<open>The two loops on a list of view identifiers.\<close>

primrec list_search :: "'w lua \<Rightarrow> mib_node \<Rightarrow> oid \<Rightarrow> oid list \<Rightarrow> oid_search_res \<Rightarrow> 'w \<Rightarrow> (oid_search_res \<times> 'w) option" where
  "list_search lua root oid [] r w = do { r' \<leftarrow> views_end oid r; Some (r', w) }"
| "list_search lua root oid (v # vs) r w =
     do { (_, r', w') \<leftarrow> mib_tree_search lua root v oid r w;
          if (sr_err_stat r' = 0 \<and> MIB_TAG_VALID (var_tag (sr_var r'))) \<or> oid_cmp oid v < 0 then Some (r', w')
          else list_search lua root oid vs r' w' }"

primrec list_search_next :: "'w lua \<Rightarrow> mib_node \<Rightarrow> oid \<Rightarrow> oid list \<Rightarrow> oid_search_res \<Rightarrow> 'w \<Rightarrow> (oid_search_res \<times> 'w) option" where
  "list_search_next lua root oid [] r w = do { r' \<leftarrow> views_end oid r; Some (r', w) }"
| "list_search_next lua root oid (v # vs) r w =
     do { (r', w') \<leftarrow> mib_tree_search_next lua root v oid r w;
          if var_tag (sr_var r') \<noteq> ASN1_TAG_END_OF_MIB_VIEW then Some (r', w')
          else list_search_next lua root oid vs r' w' }"

context view_cursor
begin

text \<open>The cursor before the view number \<open>i\<close> of a list.\<close>

definition cursor :: "pview list \<Rightarrow> nat \<Rightarrow> nat option" where
  "cursor pvs i = (if i = 0 then None else Some (pv_view (pvs ! (i - 1))))"

lemma nxt_cursor:
  assumes "distinct (map pv_view (views_of a p))" "i \<le> length (views_of a p)"
  shows "nxt (Some p) a (cursor (views_of a p) i) =
    (if i < length (views_of a p) then Some (pv_view (views_of a p ! i)) else None)"
  using assms nxt_step [OF assms(1), of "i - 1"]
  by (auto simp: cursor_def nxt_first hd_conv_nth)

lemma search_from:
  assumes "list_ok (tab vs) (views_of a p)" "i \<le> length (views_of a p)"
  shows "views_search lua root vs (nxt (Some p) a) oid (cursor (views_of a p) i) r w
      = list_search lua root oid (oids (tab vs) (drop i (views_of a p))) r w"
    "views_search_next lua root vs (nxt (Some p) a) oid (cursor (views_of a p) i) r w
      = list_search_next lua root oid (oids (tab vs) (drop i (views_of a p))) r w"
  using assms(2)
proof (induction "length (views_of a p) - i" arbitrary: i r w)
  case 0
  note fin = nxt_cursor [OF handles_distinct [OF assms(1)], of i]
  case 1
  show ?case
    using 0 1 fin by (simp add: views_search.simps oids_def)
  case 2
  show ?case
    using 0 2 fin by (simp add: views_search_next.simps oids_def)
next
  case (Suc n)
  let ?pvs = "views_of a p"
  have i: "i < length ?pvs" "n = length ?pvs - Suc i" "Suc i \<le> length ?pvs"
    using Suc.hyps(3) by auto
  then have nx: "nxt (Some p) a (cursor ?pvs i) = Some (pv_view (?pvs ! i))"
    using nxt_cursor [OF handles_distinct [OF assms(1)], of i] by simp
  have "pv_view (?pvs ! i) < length vs"
    using assms(1) i(1) by (auto simp: list_ok_def valid_def list_all_length tab_def)
  then obtain v where v: "view_at vs (pv_view (?pvs ! i)) = Some v" "v_oid v = tab vs ! pv_view (?pvs ! i)"
    using view_at_ok by blast
  have c: "cursor ?pvs (Suc i) = Some (pv_view (?pvs ! i))"
    by (simp add: cursor_def)
  have d: "oids (tab vs) (drop i ?pvs) = tab vs ! pv_view (?pvs ! i) # oids (tab vs) (drop (Suc i) ?pvs)"
    using i(1) by (simp add: oids_def flip: Cons_nth_drop_Suc)
  note IH = Suc.hyps(1,2) [OF i(2) i(3), unfolded c]
  case 1
  show ?case
    by (subst views_search.simps) (simp add: nx v d IH cong: if_cong)
  case 2
  show ?case
    by (subst views_search_next.simps) (simp add: nx v d IH cong: if_cong)
qed

lemma search_all:
  assumes "list_ok (tab vs) (views_of a p)"
  shows "views_search lua root vs (nxt (Some p) a) oid None r w
      = list_search lua root oid (oids (tab vs) (views_of a p)) r w"
    "views_search_next lua root vs (nxt (Some p) a) oid None r w
      = list_search_next lua root oid (oids (tab vs) (views_of a p)) r w"
  using search_from [OF assms, of 0] by (simp_all add: cursor_def)

lemma search_none:
  "views_search lua root vs (nxt None a) oid v r w = do { r' \<leftarrow> views_end oid r; Some (r', w) }"
  "views_search_next lua root vs (nxt None a) oid v r w = do { r' \<leftarrow> views_end oid r; Some (r', w) }"
  by (simp_all add: views_search.simps views_search_next.simps nxt_none)

end

lemma next_view_cursor: "view_cursor next_view"
proof
  fix a p i
  assume "distinct (map pv_view (views_of a p))" "i < length (views_of a p)"
  then show "next_view (Some p) a (Some (pv_view (views_of a p ! i))) =
      (if Suc i < length (views_of a p) then Some (pv_view (views_of a p ! Suc i)) else None)"
    by (simp add: next_view_def next_view_loop_nth)
next
  fix a p
  show "next_view (Some p) a None = (if views_of a p = [] then None else Some (pv_view (hd (views_of a p))))"
    by (cases "views_of a p") (simp_all add: next_view_def)
qed (simp add: next_view_def)

interpretation community_cursor: view_cursor mib_community_next_view
  unfolding mib_community_next_view_def [abs_def] by (rule next_view_cursor)

interpretation user_cursor: view_cursor mib_user_next_view
  unfolding mib_user_next_view_def [abs_def] by (rule next_view_cursor)

lemma requester_next_view_eq: "requester_next_view sdg = next_view"
  by (simp add: fun_eq_iff requester_next_view_def mib_community_next_view_def mib_user_next_view_def)

interpretation requester_cursor: view_cursor "requester_next_view sdg" for sdg
  unfolding requester_next_view_eq by (rule next_view_cursor)

section \<open>GET and SET\<close>

text \<open>What a search through a list of views returns: the variable, the error status and the state of
  the handlers. Only the view that covers the identifier is asked. Its answer counts if it is a value or if the view
  is the last one; otherwise the search in the view after it replaces the answer. If the covering view is not the first, the
  search in the views before it has overwritten the tag of the variable.\<close>

definition no_object :: "variable \<Rightarrow> variable" where
  "no_object v = v\<lparr>var_tag := ASN1_TAG_NO_SUCH_OBJ\<rparr>"

definition views_spec ::
  "'w lua \<Rightarrow> mib_node \<Rightarrow> oid list \<Rightarrow> oid \<Rightarrow> u8 \<Rightarrow> variable \<Rightarrow> int \<Rightarrow> 'w \<Rightarrow> (variable \<times> int \<times> 'w) option" where
  "views_spec lua root views oid rq var err w =
     (if views = [] then Some (var, err, w)
      else case find (\<lambda>v. prefix v oid) views of
          None \<Rightarrow> Some (no_object var, 0, w)
        | Some v \<Rightarrow>
            do { (var', e, w') \<leftarrow> get_spec lua root v oid rq (if v = hd views then var else no_object var) w;
                 Some (if e = 0 \<and> MIB_TAG_VALID (var_tag var') \<or> v = last views then (var', e, w')
                       else (no_object var', 0, w')) })"

text \<open>A result of the code that agrees with the specification.\<close>

definition agrees :: "oid \<Rightarrow> (variable \<times> int \<times> 'w) option \<Rightarrow> (oid_search_res \<times> 'w) option \<Rightarrow> bool" where
  "agrees oid out res = (case out of
      None \<Rightarrow> res = None
    | Some (v, e, w) \<Rightarrow> \<exists>r. res = Some (r, w) \<and> sr_oid r = oid \<and> sr_id_len r = length oid \<and> sr_var r = v \<and> sr_err_stat r = e)"

lemma prefix_both: "prefix u q \<Longrightarrow> prefix v q \<Longrightarrow> prefix u v \<or> prefix v u"
  using prefix_same_cases by blast

lemma apart_less:
  assumes "u < v" "\<not> prefix u v" "prefix v q"
  shows "u < (q :: oid)"
  using assms by (meson less_le_trans prefix_le)

lemma apart_greater:
  assumes "v < u" "\<not> prefix v u" "prefix v q"
  shows "q < (u :: oid)"
  using assms
proof (induction v arbitrary: u q)
  case (Cons x v)
  then show ?case
    by (cases u; cases q) (auto simp: prefix_Cons)
qed simp

lemma mib_tree_search_request:
  assumes "mib_tree_search lua root v oid r w = Some (node, r', w')"
  shows "sr_request r' = sr_request r"
proof -
  have inst: "mib_instance_search lua r1 w1 = Some (e, r2, w2) \<Longrightarrow> sr_request r2 = sr_request r1" for r1 w1 e r2 w2
    by (auto simp: mib_instance_search_def Option.bind_eq_Some_conv split: option.splits)
  obtain buf where buf: "oid_dup oid = Some buf"
    using assms by (cases "oid_dup oid") (simp_all add: mib_tree_search_def)
  show ?thesis
  proof (cases "oid_cover v oid \<le> 0")
    case True
    then show ?thesis
      using assms buf by (auto simp: mib_tree_search_def set_tag_def)
  next
    case False
    then obtain st off where st: "tree_search_loop root oid 0 = Some (st, off)"
      using assms buf by (cases "tree_search_loop root oid 0") (auto simp: mib_tree_search_def)
    note eq = assms [unfolded mib_tree_search_def buf st Let_def]
    show ?thesis
    proof (cases st)
      case (At_Instance m)
      then show ?thesis
        using eq False inst by (auto simp: Option.bind_eq_Some_conv)
    next
      case (End_Of_Oid m)
      then show ?thesis
        using eq False by (cases m; cases "the m") (auto simp: set_tag_def)
    qed (use eq False in \<open>auto simp: set_tag_def\<close>)
  qed
qed

lemma tree_search_agrees:
  assumes "mib_ok n (Some root)" "length oid \<le> 1024" "sr_request r \<noteq> MIB_REQ_GETNEXT"
  shows "case get_spec lua root v oid (sr_request r) (sr_var r) w of
      None \<Rightarrow> mib_tree_search lua root v oid r w = None
    | Some (var, e, w') \<Rightarrow> \<exists>node r'. mib_tree_search lua root v oid r w = Some (node, r', w') \<and> sr_request r' = sr_request r \<and>
        sr_oid r' = oid \<and> sr_id_len r' = length oid \<and> sr_var r' = var \<and> sr_err_stat r' = e"
  using get_result [OF assms, of lua v w] mib_tree_search_request
  by (fastforce split: option.splits)

lemma tree_search_outside:
  assumes "mib_ok n (Some root)" "length oid \<le> 1024" "sr_request r \<noteq> MIB_REQ_GETNEXT" "\<not> prefix v oid"
  obtains node r' where "mib_tree_search lua root v oid r w = Some (node, r', w)" "sr_request r' = sr_request r"
    "sr_oid r' = oid" "sr_id_len r' = length oid" "sr_var r' = no_object (sr_var r)" "sr_err_stat r' = 0"
  using tree_search_agrees [OF assms(1-3), of lua v w] assms(4) that
  by (auto simp: get_spec_def no_object_def)

lemma no_object_simps [simp]:
  "no_object (no_object v) = no_object v" "var_tag (no_object v) = ASN1_TAG_NO_SUCH_OBJ" "\<not> MIB_TAG_VALID ASN1_TAG_NO_SUCH_OBJ"
  by (simp_all add: no_object_def MIB_TAG_VALID_def)

lemma find_later:
  assumes "oid < (v :: oid)" "sorted_wrt (<) (v # vs)"
  shows "find (\<lambda>v. prefix v oid) vs = None"
proof -
  have "\<not> prefix u oid" if "u \<in> set vs" for u
    using assms that prefix_le [of u oid] by fastforce
  then show ?thesis
    by (simp add: find_None_iff)
qed

text \<open>The rest of the views after the one that covers the identifier.\<close>

lemma list_search_after:
  assumes "mib_ok n (Some root)" "length oid \<le> 1024" "sr_request r \<noteq> MIB_REQ_GETNEXT"
    and "sorted_wrt (<) (v # vs)" "antichain (v # vs)" "list_all small_oid vs" "small_oid oid" "prefix v oid"
  shows "agrees oid (Some (if vs = [] then (sr_var r, sr_err_stat r, w) else (no_object (sr_var r), 0, w)))
    (list_search lua root oid vs r w)"
proof (cases vs)
  case Nil
  then show ?thesis
    using assms(2) by (simp add: agrees_def views_end_def oid_dup_def MIB_VALUE_MAX_LEN_def)
next
  case (Cons u us)
  then have u: "v < u" "\<not> prefix v u" "\<not> prefix u v" "small_oid u"
    using assms(4-6) by auto
  have "\<not> prefix u oid"
    using prefix_both [OF assms(8)] u by blast
  then obtain node r' where "mib_tree_search lua root u oid r w = Some (node, r', w)"
      "sr_oid r' = oid" "sr_id_len r' = length oid" "sr_var r' = no_object (sr_var r)" "sr_err_stat r' = 0"
    using tree_search_outside [OF assms(1-3)] by metis
  moreover have "oid_cmp oid u < 0"
    using apart_greater [OF u(1,2) assms(8)] oid_cmp_less [OF assms(7) u(4)] by blast
  ultimately show ?thesis
    using Cons by (simp add: agrees_def)
qed

lemma views_spec_skip:
  assumes "\<not> prefix v oid" "sorted_wrt (<) (v # vs)"
  shows "views_spec lua root (v # vs) oid rq var err w = views_spec lua root vs oid rq (no_object var) 0 w"
proof (cases "find (\<lambda>v. prefix v oid) vs")
  case (Some u)
  then have "u \<in> set vs"
    by (auto simp: find_Some_iff)
  then have "u \<noteq> v" "vs \<noteq> []"
    using assms(2) by auto
  then show ?thesis
    using assms(1) Some by (simp add: views_spec_def)
qed (use assms(1) in \<open>simp add: views_spec_def\<close>)

text \<open>The view that covers the identifier.\<close>

lemma list_search_covered:
  assumes "mib_ok n (Some root)" "length oid \<le> 1024" "sr_request r \<noteq> MIB_REQ_GETNEXT"
    and "sorted_wrt (<) (v # vs)" "antichain (v # vs)" "list_all small_oid (v # vs)" "small_oid oid" "prefix v oid"
  shows "agrees oid (views_spec lua root (v # vs) oid (sr_request r) (sr_var r) (sr_err_stat r) w)
    (list_search lua root oid (v # vs) r w)"
proof -
  have nless: "\<not> oid_cmp oid v < 0"
    using oid_cmp_less [OF assms(7), of v] prefix_le [OF assms(8)] assms(6) by auto
  have last: "v = last (v # vs) \<longleftrightarrow> vs = []"
    using assms(4) last_in_set [of vs] by auto
  note tree = tree_search_agrees [OF assms(1-3), of lua v w]
  show ?thesis
  proof (cases "get_spec lua root v oid (sr_request r) (sr_var r) w")
    case None
    then show ?thesis
      using tree assms(8) by (simp add: views_spec_def agrees_def)
  next
    case (Some out)
    obtain var e w' where out: "out = (var, e, w')"
      by (cases out)
    then obtain node r' where r': "mib_tree_search lua root v oid r w = Some (node, r', w')" "sr_request r' = sr_request r"
        "sr_oid r' = oid" "sr_id_len r' = length oid" "sr_var r' = var" "sr_err_stat r' = e"
      using tree Some by auto
    have "agrees oid (Some (if vs = [] then (var, e, w') else (no_object var, 0, w'))) (list_search lua root oid vs r' w')"
      using list_search_after [OF assms(1,2) _ assms(4,5) _ assms(7,8), of r' w' lua] assms(3,6) r'
      by (cases "vs = []") auto
    then show ?thesis
      using r' Some out nless last assms(8) by (cases "vs = []") (auto simp: views_spec_def agrees_def)
  qed
qed

lemma list_search_spec:
  assumes "mib_ok n (Some root)" "length oid \<le> 1024" "sr_request r \<noteq> MIB_REQ_GETNEXT"
    and "sorted_wrt (<) views" "antichain views" "list_all small_oid views" "small_oid oid"
  shows "agrees oid (views_spec lua root views oid (sr_request r) (sr_var r) (sr_err_stat r) w)
    (list_search lua root oid views r w)"
  using assms(3-6)
proof (induction views arbitrary: r)
  case Nil
  then show ?case
    using assms(2) by (simp add: agrees_def views_spec_def views_end_def oid_dup_def MIB_VALUE_MAX_LEN_def)
next
  case (Cons v vs)
  have v: "small_oid v" "list_all small_oid vs"
    using Cons.prems by auto
  note cmp = oid_cmp_less [OF assms(7) v(1)]
  show ?case
  proof (cases "prefix v oid")
    case True
    show ?thesis
      by (rule list_search_covered [OF assms(1,2) Cons.prems assms(7) True])
  next
    case False
    then obtain node r' where r': "mib_tree_search lua root v oid r w = Some (node, r', w)" "sr_request r' = sr_request r"
        "sr_oid r' = oid" "sr_id_len r' = length oid" "sr_var r' = no_object (sr_var r)" "sr_err_stat r' = 0"
      using tree_search_outside [OF assms(1,2) Cons.prems(1)] by metis
    show ?thesis
    proof (cases "oid < v")
      case True
      then show ?thesis
        using r' cmp False find_later [OF True Cons.prems(2)] by (simp add: views_spec_def agrees_def)
    next
      case nless: False
      have "agrees oid (views_spec lua root vs oid (sr_request r) (no_object (sr_var r)) 0 w) (list_search lua root oid vs r' w)"
        using Cons.IH [of r'] Cons.prems v r' by simp
      then show ?thesis
        using r' cmp nless by (simp add: views_spec_skip [OF False Cons.prems(2)])
    qed
  qed
qed

text \<open>The identifiers of the views of a requester.\<close>

definition requester_views :: "mib_db \<Rightarrow> principal option \<Rightarrow> aces \<Rightarrow> oid list" where
  "requester_views db pr a = (case pr of None \<Rightarrow> [] | Some p \<Rightarrow> oids (tab (mib_views db)) (views_of a p))"

lemma requester_ok:
  assumes "db_ok db" "requester db sdg = Some (Some p)"
  shows "p_ok (tab (mib_views db)) p"
proof -
  have "p \<in> set (mib_communities db) \<or> p \<in> set (mib_users db)"
    using assms(2) principal_search_Some
    by (fastforce simp: requester_def mib_user_search_def mib_community_search_def split: if_splits)
  then show ?thesis
    using assms(1) by (auto simp: db_ok_def ps_ok_def list_all_iff)
qed

lemma requester_list_ok:
  assumes "db_ok db" "requester db sdg = Some (Some p)"
  shows "list_ok (tab (mib_views db)) (views_of a p)"
  using requester_ok [OF assms] by (simp add: p_ok_def views_of_def)

lemma requester_views_ok:
  assumes "db_ok db" "requester db sdg = Some pr"
  shows "sorted_wrt (<) (requester_views db pr a)" "antichain (requester_views db pr a)"
    "list_all small_oid (requester_views db pr a)" "list_all (\<lambda>v. length v \<le> 1024) (requester_views db pr a)"
proof -
  have v: "list_all view_oid (oids (tab (mib_views db)) (views_of a p))" if "pr = Some p" for p
    using requester_list_ok [OF assms(1), of sdg p a] assms that
    by (auto simp: list_ok_def valid_def oids_def db_ok_def list_all_iff)
  show "sorted_wrt (<) (requester_views db pr a)" "antichain (requester_views db pr a)"
    using requester_list_ok [OF assms(1), of sdg _ a] assms(2)
    by (auto simp: requester_views_def list_ok_def split: option.splits)
  show "list_all small_oid (requester_views db pr a)" "list_all (\<lambda>v. length v \<le> 1024) (requester_views db pr a)"
    using v by (auto simp: requester_views_def list_all_iff view_oid_small view_oid_def MIB_VALUE_MAX_LEN_def split: option.splits)
qed

lemma requester_search:
  assumes "db_ok db" "requester db sdg = Some pr"
  shows "views_search lua root (mib_views db) (requester_next_view sdg pr a) oid None r w
      = list_search lua root oid (requester_views db pr a) r w"
    "views_search_next lua root (mib_views db) (requester_next_view sdg pr a) oid None r w
      = list_search_next lua root oid (requester_views db pr a) r w"
  using assms
  by (cases pr; simp add: requester_views_def requester_cursor.search_none requester_cursor.search_all requester_list_ok)+

lemma mib_get_eq:
  assumes "mib_ok n (Some root)" "db_ok db" "small_oid (vb_oid vb)" "length (vb_oid vb) \<le> 1024"
    and "sr_request r \<noteq> MIB_REQ_GETNEXT" "requester db sdg = Some pr"
  shows "agrees (vb_oid vb)
    (views_spec lua root (requester_views db pr MIB_ACES_READ) (vb_oid vb) (sr_request r) (sr_var r)
      (if pr = None then SNMP_ERR_STAT_NO_ACCESS else sr_err_stat r) w)
    (mib_get lua root db sdg vb r w)"
proof -
  define r1 where "r1 = (if pr = None then no_access r else r)"
  have r1: "sr_request r1 = sr_request r" "sr_var r1 = sr_var r"
      "sr_err_stat r1 = (if pr = None then SNMP_ERR_STAT_NO_ACCESS else sr_err_stat r)"
    by (simp_all add: r1_def no_access_def)
  have "mib_get lua root db sdg vb r w = list_search lua root (vb_oid vb) (requester_views db pr MIB_ACES_READ) r1 w"
    unfolding mib_get_def assms(6) by (simp add: requester_search(1) [OF assms(2,6)] r1_def)
  then show ?thesis
    using list_search_spec [OF assms(1,4) _ requester_views_ok(1-3) [OF assms(2,6)] assms(3), of r1 lua MIB_ACES_READ w] assms(5)
    unfolding r1 by simp
qed

text \<open>C14: A GET of one identifier asks the handler below it exactly if one of the requester's read views
  covers the identifier, and no handler otherwise; an unknown community or user gets the error
  \<open>noAccess\<close> and no handler is asked. The answer of the handler is returned if it is a value; an error or
  exception it reports is returned only if the covering view is the requester's last one, and is
  replaced by \<open>noSuchObject\<close> without an error otherwise.\<close>

theorem mib_get_spec:
  assumes "mib_ok n (Some root)" "db_ok db" "small_oid (vb_oid vb)" "length (vb_oid vb) \<le> 1024"
    and "sr_request r \<noteq> MIB_REQ_GETNEXT" "requester db sdg = Some pr"
  shows "agrees (vb_oid vb)
    (views_spec lua root (requester_views db pr MIB_ACES_READ) (vb_oid vb) (sr_request r) (sr_var r)
      (if pr = None then SNMP_ERR_STAT_NO_ACCESS else sr_err_stat r) w)
    (mib_get lua root db sdg vb r w)"
  by (rule mib_get_eq [OF assms])

lemma requester_cover:
  assumes "db_ok db" "requester db sdg = Some (Some p)"
  shows "requester_view_cover db sdg (Some p) a oid = Some (list_ex (\<lambda>v. prefix v oid) (requester_views db (Some p) a))"
  using requester_list_ok [OF assms, of a]
  by (simp add: requester_view_cover_def mib_user_view_cover_def mib_community_view_cover_def view_cover_def
      cover_loop_ok list_ok_def covers_def requester_views_def)

lemma mib_set_eq:
  assumes "mib_ok n (Some root)" "db_ok db" "small_oid (vb_oid vb)" "length (vb_oid vb) \<le> 1024"
    and "sr_request r \<noteq> MIB_REQ_GETNEXT" "requester db sdg = Some pr"
  shows "agrees (vb_oid vb)
    (if list_ex (\<lambda>v. prefix v (vb_oid vb)) (requester_views db pr MIB_ACES_WRITE)
     then views_spec lua root (requester_views db pr MIB_ACES_WRITE) (vb_oid vb) (sr_request r) (sr_var r) (sr_err_stat r) w
     else Some (sr_var r, SNMP_ERR_STAT_NO_ACCESS, w))
    (mib_set lua root db sdg vb r w)"
proof -
  let ?views = "requester_views db pr MIB_ACES_WRITE"
  have denied: "agrees (vb_oid vb) (Some (sr_var r, SNMP_ERR_STAT_NO_ACCESS, w))
      (views_search lua root (mib_views db) (requester_next_view sdg None MIB_ACES_WRITE) (vb_oid vb) None (no_access r) w)"
    using assms(4) by (simp add: requester_cursor.search_none agrees_def views_end_def no_access_def oid_dup_def MIB_VALUE_MAX_LEN_def)
  show ?thesis
  proof (cases "list_ex (\<lambda>v. prefix v (vb_oid vb)) ?views")
    case True
    then obtain p where p: "pr = Some p"
      by (cases pr) (simp_all add: requester_views_def)
    then show ?thesis
      using True requester_cover [OF assms(2), of sdg p] assms(6)
        list_search_spec [OF assms(1,4,5) requester_views_ok(1-3) [OF assms(2,6)] assms(3), of lua MIB_ACES_WRITE w]
      by (simp add: mib_set_def requester_search(1) [OF assms(2)])
  next
    case False
    then show ?thesis
      using denied requester_cover [OF assms(2), of sdg] assms(6) by (cases pr) (simp_all add: mib_set_def)
  qed
qed

text \<open>C5: A SET reaches a handler only if one of the requester's write views covers the identifier. In
  every other case, unknown community or user included, the error is \<open>noAccess\<close>, no handler is asked and
  the state of the handlers is unchanged.\<close>

theorem mib_set_spec:
  assumes "mib_ok n (Some root)" "db_ok db" "small_oid (vb_oid vb)" "length (vb_oid vb) \<le> 1024"
    and "sr_request r \<noteq> MIB_REQ_GETNEXT" "requester db sdg = Some pr"
  shows "agrees (vb_oid vb)
    (if list_ex (\<lambda>v. prefix v (vb_oid vb)) (requester_views db pr MIB_ACES_WRITE)
     then views_spec lua root (requester_views db pr MIB_ACES_WRITE) (vb_oid vb) (sr_request r) (sr_var r) (sr_err_stat r) w
     else Some (sr_var r, SNMP_ERR_STAT_NO_ACCESS, w))
    (mib_set lua root db sdg vb r w)"
  by (rule mib_set_eq [OF assms])

text \<open>A requester with the community \<open>p\<close>, and a data base in which it may read and write two views.\<close>

definition sdg_p :: snmp_datagram where
  "sdg_p = snmp_datagram_clear\<lparr>version := 1, context_name := 0x70 # replicate 40 0\<rparr>"

definition db_write :: mib_db where
  "db_write = \<lparr>mib_views = [\<lparr>v_oid = [1, 3], v_communities = [1, 3], v_users = []\<rparr>,
       \<lparr>v_oid = [1, 2], v_communities = [0, 2], v_users = []\<rparr>],
     mib_communities = [\<lparr>p_name = [0x70], ro_views = [\<lparr>pv_id = 0, pv_view = 0\<rparr>, \<lparr>pv_id = 1, pv_view = 1\<rparr>],
       rw_views = [\<lparr>pv_id = 2, pv_view = 0\<rparr>, \<lparr>pv_id = 3, pv_view = 1\<rparr>]\<rparr>],
     mib_users = [], next_pv = 4\<rparr>"

definition vb_130 :: var_bind where
  "vb_130 = \<lparr>vb_oid = [1, 3, 0], vb_len = 0, value_len = 0, value_type = 5, vb_value = []\<rparr>"

lemma db_write_ok: "db_ok db_write"
  by (simp add: db_write_def db_ok_def tab_def ps_ok_def p_ok_def view_list_defs view_oid_def MIB_VALUE_MAX_LEN_def small_def)

lemma requester_p:
  "requester db_write sdg_p = Some (Some (hd (mib_communities db_write)))"
  "requester_views db_write (Some (hd (mib_communities db_write))) a = [[1, 2], [1, 3]]"
proof -
  have "c_str (0x70 # replicate 40 0) = Some [0x70]"
    by (simp add: c_str_def takeWhile_replicate)
  then show "requester db_write sdg_p = Some (Some (hd (mib_communities db_write)))"
    by (simp add: requester_def sdg_p_def snmp_datagram_clear_def mib_community_search_def db_write_def principal_search_def)
  show "requester_views db_write (Some (hd (mib_communities db_write))) a = [[1, 2], [1, 3]]"
    by (cases a) (simp_all add: requester_views_def db_write_def oids_def tab_def views_of_def)
qed

lemma vb_130_small: "small_oid (vb_oid vb_130)" "length (vb_oid vb_130) \<le> 1024"
  by (simp_all add: vb_130_def small_oid_def small_def)

theorem mib_get_spec_witness:
  "agrees [1, 3, 0] (views_spec scalar_handler tree1 [[1, 2], [1, 3]] [1, 3, 0] MIB_REQ_GET var0 0 ())
     (mib_get scalar_handler tree1 db_write sdg_p vb_130 (res0\<lparr>sr_request := MIB_REQ_GET\<rparr>) ())"
  using mib_get_spec [OF tree1_ok db_write_ok vb_130_small _ requester_p(1), of "res0\<lparr>sr_request := MIB_REQ_GET\<rparr>" scalar_handler "()"]
  by (simp add: requester_p(2) vb_130_def res0_def)

theorem mib_set_spec_witness:
  "agrees [1, 3, 0] (views_spec scalar_handler tree1 [[1, 2], [1, 3]] [1, 3, 0] MIB_REQ_SET var0 0 ())
     (mib_set scalar_handler tree1 db_write sdg_p vb_130 (res0\<lparr>sr_request := MIB_REQ_SET\<rparr>) ())"
  using mib_set_spec [OF tree1_ok db_write_ok vb_130_small _ requester_p(1), of "res0\<lparr>sr_request := MIB_REQ_SET\<rparr>" scalar_handler "()"]
  by (simp add: requester_p(2) vb_130_def res0_def)

section \<open>The value of a SET\<close>

lemma inst_call_set_no_object:
  "inst_call lua c MIB_REQ_SET ids (no_object v) w =
     (case lua c [LInteger 163, LTable ids, LNil, LInteger 128] w of
        (None, w') \<Rightarrow> Some (0, no_object v, None, w')
      | (Some ret, w') \<Rightarrow> Some (to_int (lv_integer (lr_err ret)),
          v\<lparr>var_tag := word_of_int (lv_number (lr_tag ret))\<rparr>, None, w'))"
  by (simp add: inst_call_def no_object_def req_val_def Let_def split: prod.splits option.splits)

lemma get_spec_set_no_object:
  "map_option (\<lambda>(v, e, w). (var_tag v, e, w)) (get_spec lua root view oid MIB_REQ_SET (no_object v1) w)
   = map_option (\<lambda>(v, e, w). (var_tag v, e, w)) (get_spec lua root view oid MIB_REQ_SET (no_object v2) w)"
  by (auto simp: get_spec_def inst_call_set_no_object split: option.splits prod.splits)

text \<open>If the write view that covers the identifier is not the first of the requester, the value to be
  set never reaches the handler: the search in the views before it overwrites the tag of the variable,
  and the handler is called with \<open>nil\<close>. The new state of the handlers and the error status are the same for any two values.\<close>

theorem set_value_lost:
  assumes "mib_ok n (Some root)" "db_ok db" "small_oid (vb_oid vb)" "length (vb_oid vb) \<le> 1024"
    and "requester db sdg = Some pr" "\<not> prefix (hd (requester_views db pr MIB_ACES_WRITE)) (vb_oid vb)"
    and "sr_request r1 = MIB_REQ_SET" "mib_set lua root db sdg vb r1 w = Some (r1', w1)"
    and "sr_request r2 = MIB_REQ_SET" "mib_set lua root db sdg vb r2 w = Some (r2', w2)"
  shows "w1 = w2 \<and> sr_err_stat r1' = sr_err_stat r2'"
proof -
  let ?views = "requester_views db pr MIB_ACES_WRITE" and ?oid = "vb_oid vb"
  note spec = mib_set_eq [OF assms(1-4) _ assms(5), of _ lua w, unfolded agrees_def]
  show ?thesis
  proof (cases "find (\<lambda>v. prefix v ?oid) ?views")
    case None
    then have "\<not> list_ex (\<lambda>v. prefix v ?oid) ?views"
      by (auto simp: find_None_iff list_ex_iff)
    then show ?thesis
      using spec [of r1] spec [of r2] assms(7-) by simp
  next
    case (Some v)
    then have v: "v \<in> set ?views" "prefix v ?oid" "list_ex (\<lambda>v. prefix v ?oid) ?views" "v \<noteq> hd ?views" "?views \<noteq> []"
      using assms(6) by (auto simp: find_Some_iff list_ex_iff)
    obtain v1 e1 u1 where g1: "get_spec lua root v ?oid MIB_REQ_SET (no_object (sr_var r1)) w = Some (v1, e1, u1)"
      using spec [of r1] assms(7,8) v Some by (cases "get_spec lua root v ?oid MIB_REQ_SET (no_object (sr_var r1)) w")
        (auto simp: views_spec_def)
    with get_spec_set_no_object [of lua root v ?oid "sr_var r1" w "sr_var r2"]
    obtain v2 where g2: "get_spec lua root v ?oid MIB_REQ_SET (no_object (sr_var r2)) w = Some (v2, e1, u1)" "var_tag v2 = var_tag v1"
      by (cases "get_spec lua root v ?oid MIB_REQ_SET (no_object (sr_var r2)) w") auto
    show ?thesis
      using spec [of r1] spec [of r2] assms(7-) v Some g1 g2
      by (cases "e1 = 0 \<and> MIB_TAG_VALID (var_tag v1) \<or> v = last ?views") (simp_all add: views_spec_def)
  qed
qed

lemma set_example: "\<exists>r'. mib_set scalar_handler tree1 db_write sdg_p vb_130 (res0\<lparr>sr_request := MIB_REQ_SET, sr_var := v\<rparr>) () = Some (r', ())"
proof -
  have i: "insts tree1 = [([1, 3], 7)]"
    by (simp add: insts_Group kids.simps)
  have "\<exists>v' e. get_spec scalar_handler tree1 [1, 3] [1, 3, 0] MIB_REQ_SET (no_object v) () = Some (v', e, ())"
    by (simp add: get_spec_def i [unfolded One_nat_def] covering_def inst_call_set_no_object scalar_handler_def)
  then show ?thesis
    using mib_set_eq [OF tree1_ok db_write_ok vb_130_small _ requester_p(1),
        of "res0\<lparr>sr_request := MIB_REQ_SET, sr_var := v\<rparr>" scalar_handler "()"]
    by (auto simp: requester_p(2) vb_130_def agrees_def views_spec_def)
qed

theorem set_value_lost_witness:
  "\<exists>r1 r2. mib_set scalar_handler tree1 db_write sdg_p vb_130
       (res0\<lparr>sr_request := MIB_REQ_SET, sr_var := \<lparr>var_tag = 2, var_len = 1, var_mem = le32 5\<rparr>\<rparr>) () = Some (r1, ()) \<and>
     mib_set scalar_handler tree1 db_write sdg_p vb_130
       (res0\<lparr>sr_request := MIB_REQ_SET, sr_var := \<lparr>var_tag = 2, var_len = 1, var_mem = le32 6\<rparr>\<rparr>) () = Some (r2, ()) \<and>
     sr_err_stat r1 = sr_err_stat r2"
proof -
  obtain r1 r2 where r: "mib_set scalar_handler tree1 db_write sdg_p vb_130
       (res0\<lparr>sr_request := MIB_REQ_SET, sr_var := \<lparr>var_tag = 2, var_len = 1, var_mem = le32 5\<rparr>\<rparr>) () = Some (r1, ())"
     "mib_set scalar_handler tree1 db_write sdg_p vb_130
       (res0\<lparr>sr_request := MIB_REQ_SET, sr_var := \<lparr>var_tag = 2, var_len = 1, var_mem = le32 6\<rparr>\<rparr>) () = Some (r2, ())"
    using set_example by meson
  have "\<not> prefix (hd (requester_views db_write (Some (hd (mib_communities db_write))) MIB_ACES_WRITE)) (vb_oid vb_130)"
    by (simp add: requester_p(2) vb_130_def)
  from set_value_lost [OF tree1_ok db_write_ok vb_130_small requester_p(1) this _ r(1) _ r(2)] show ?thesis
    using r by simp
qed

section \<open>GETNEXT\<close>

text \<open>The identifier and the tag of a result.\<close>

definition res_oid :: "oid_search_res \<Rightarrow> oid" where
  "res_oid r = take (sr_id_len r) (sr_oid r)"

lemma list_search_next_in:
  assumes "mib_ok n (Some root)" "length oid \<le> 1024" "list_all (\<lambda>v. length v \<le> 1024) views"
    and "list_search_next lua root oid views r w = Some (r', w')"
  shows "if views = [] then w' = w \<and> sr_var r' = sr_var r \<and> sr_err_stat r' = sr_err_stat r \<and> res_oid r' = oid
    else if var_tag (sr_var r') = ASN1_TAG_END_OF_MIB_VIEW then res_oid r' = oid
    else \<exists>v \<in> set views. length (res_oid r') \<le> 64 \<and> MIB_TAG_VALID (var_tag (sr_var r'))
      \<and> (prefix v (res_oid r') \<or> strict_prefix (res_oid r') v \<and> (\<exists>(p, c) \<in> set (insts root). prefix p (res_oid r')))"
  using assms(3,4)
proof (induction views arbitrary: r w)
  case Nil
  then show ?case
    using assms(2) by (auto simp: views_end_def oid_dup_def res_oid_def MIB_VALUE_MAX_LEN_def)
next
  case (Cons v vs)
  then obtain r1 w1 where s: "mib_tree_search_next lua root v oid r w = Some (r1, w1)" "length v \<le> 1024"
    by (auto simp: Option.bind_eq_Some_conv)
  show ?case
  proof (cases "var_tag (sr_var r1) = ASN1_TAG_END_OF_MIB_VIEW")
    case True
    then have "list_search_next lua root oid vs r1 w1 = Some (r', w')"
      using Cons.prems(2) s by simp
    from Cons.IH [OF _ this] show ?thesis
      using Cons.prems(1) True by (auto split: if_splits)
  next
    case False
    then have "r' = r1" "w' = w1"
      using Cons.prems(2) s by simp_all
    moreover obtain q where "prefix q (sr_oid r1)" "length q = sr_id_len r1" "length q \<le> 64"
        "MIB_TAG_VALID (var_tag (sr_var r1))" "prefix v q \<or> strict_prefix q v \<and> (\<exists>(p, c) \<in> set (insts root). prefix p q)"
      using search_next_within [OF assms(1) s(2) assms(2) s(1) False] by blast
    moreover from this have "res_oid r1 = q"
      by (auto simp: res_oid_def prefix_def)
    ultimately show ?thesis
      using False by auto
  qed
qed

text \<open>C15: A GETNEXT that finds a value finds it, with a valid tag, for an identifier of at most 64 sub-identifiers that lies inside one of the
  requester's read views or, where an instance is registered above a view, between that instance and the view. At the end of the
  views the identifier of the request comes back. A requester without any read view gets the identifier and the variable of the request
  back, and an unknown community or user the error \<open>noAccess\<close>; no handler is asked for either.\<close>

theorem mib_getnext_in_views:
  assumes "mib_ok n (Some root)" "db_ok db" "length (vb_oid vb) \<le> 1024"
    and "requester db sdg = Some pr" "mib_getnext lua root db sdg vb r w = Some (r', w')"
  shows "(pr = None \<longrightarrow> sr_err_stat r' = SNMP_ERR_STAT_NO_ACCESS) \<and>
    (if requester_views db pr MIB_ACES_READ = []
     then w' = w \<and> res_oid r' = vb_oid vb \<and> sr_var r' = sr_var r \<and> (pr \<noteq> None \<longrightarrow> sr_err_stat r' = sr_err_stat r)
     else if var_tag (sr_var r') = ASN1_TAG_END_OF_MIB_VIEW then res_oid r' = vb_oid vb
     else \<exists>v \<in> set (requester_views db pr MIB_ACES_READ). length (res_oid r') \<le> 64 \<and> MIB_TAG_VALID (var_tag (sr_var r')) \<and>
       (prefix v (res_oid r') \<or> strict_prefix (res_oid r') v \<and> (\<exists>(p, c) \<in> set (insts root). prefix p (res_oid r'))))"
proof -
  define r1 where "r1 = (if pr = None then no_access r else r)"
  have "mib_getnext lua root db sdg vb r w = list_search_next lua root (vb_oid vb) (requester_views db pr MIB_ACES_READ) r1 w"
    unfolding mib_getnext_def assms(4) by (simp add: requester_search(2) [OF assms(2,4)] r1_def)
  then have "list_search_next lua root (vb_oid vb) (requester_views db pr MIB_ACES_READ) r1 w = Some (r', w')"
    using assms(5) by simp
  note s = list_search_next_in [OF assms(1,3) requester_views_ok(4) [OF assms(2,4)] this]
  show ?thesis
  proof (cases "requester_views db pr MIB_ACES_READ = []")
    case True
    then show ?thesis
      using s by (auto simp: r1_def no_access_def)
  next
    case False
    then have "pr \<noteq> None"
      by (auto simp: requester_views_def split: option.splits)
    then show ?thesis
      using s unfolding if_not_P [OF False] by blast
  qed
qed

definition db_one :: mib_db where
  "db_one = \<lparr>mib_views = [\<lparr>v_oid = [1], v_communities = [0], v_users = []\<rparr>],
     mib_communities = [\<lparr>p_name = [0x70], ro_views = [\<lparr>pv_id = 0, pv_view = 0\<rparr>], rw_views = []\<rparr>],
     mib_users = [], next_pv = 1\<rparr>"

lemma db_one_ok: "db_ok db_one"
  by (simp add: db_one_def db_ok_def tab_def ps_ok_def p_ok_def view_list_defs view_oid_def MIB_VALUE_MAX_LEN_def small_def)

lemma requester_one:
  "requester db_one sdg_p = Some (Some (hd (mib_communities db_one)))"
  "requester_views db_one (Some (hd (mib_communities db_one))) MIB_ACES_READ = [[1]]"
proof -
  have "c_str (0x70 # replicate 40 0) = Some [0x70]"
    by (simp add: c_str_def takeWhile_replicate)
  then show "requester db_one sdg_p = Some (Some (hd (mib_communities db_one)))"
    by (simp add: requester_def sdg_p_def snmp_datagram_clear_def mib_community_search_def db_one_def principal_search_def)
qed (simp add: requester_views_def db_one_def oids_def tab_def views_of_def)

lemma getnext_example:
  "\<exists>r'. mib_getnext scalar_handler tree1 db_one sdg_p (vb_130\<lparr>vb_oid := [1]\<rparr>) res0 () = Some (r', ())
     \<and> sr_var r' = \<lparr>var_tag = 2, var_len = 1, var_mem = le32 42 @ replicate 1020 0\<rparr>
     \<and> prefix [1, 3, 0] (sr_oid r') \<and> sr_id_len r' = 3 \<and> sr_err_stat r' = 0"
proof -
  obtain r' where "mib_tree_search_next scalar_handler tree1 [1] [1] res0 () = Some (r', ())" "sr_id_len r' = 3"
      "prefix [1, 3, 0] (sr_oid r')" "sr_var r' = \<lparr>var_tag = 2, var_len = 1, var_mem = le32 42 @ replicate 1020 0\<rparr>"
      "sr_err_stat r' = 0"
    using tree1_search by blast
  then show ?thesis
    unfolding mib_getnext_def requester_one(1)
    by (auto simp: requester_search(2) [OF db_one_ok requester_one(1)] requester_one(2))
qed

theorem mib_getnext_in_views_witness:
  "\<exists>r'. mib_getnext scalar_handler tree1 db_one sdg_p (vb_130\<lparr>vb_oid := [1]\<rparr>) res0 () = Some (r', ())
     \<and> MIB_TAG_VALID (var_tag (sr_var r')) \<and> prefix [1] (res_oid r')"
proof -
  obtain r' where r': "mib_getnext scalar_handler tree1 db_one sdg_p (vb_130\<lparr>vb_oid := [1]\<rparr>) res0 () = Some (r', ())"
      "var_tag (sr_var r') = 2"
    using getnext_example by auto
  have "p \<noteq> []" if "(p, c) \<in> set (insts tree1)" for p c
    using that by (auto simp: insts_Group)
  then have "\<not> (strict_prefix q [1] \<and> (\<exists>(p, c) \<in> set (insts tree1). prefix p q))" for q
    by (cases q) (auto simp: strict_prefix_def)
  then show ?thesis
    using mib_getnext_in_views [OF tree1_ok db_one_ok _ requester_one(1) r'(1)] r' by (simp add: requester_one(2)) blast
qed

end
