(* ===== verification/Snmp_Agent.thy ===== *)
theory Snmp_Agent
  imports Snmp_Access
begin

text \<open>
  Properties of whole requests: which datagrams are answered at all, how the error status and index of
  an answer come about, and that the sizes an answer announces are the sizes that are written.
\<close>

section \<open>Datagrams without an answer\<close>

lemma snmpd_recv_dropped:
  assumes "case snmp_decode_msg buffer snmp_datagram_clear of
      Some (Inl e) \<Rightarrow> True
    | Some (Inr sdg) \<Rightarrow> pdu_type (hdr sdg) \<notin> {MIB_REQ_GET, MIB_REQ_GETNEXT, MIB_REQ_SET, MIB_REQ_BULKGET}
    | None \<Rightarrow> False"
  shows "\<exists>sdg'. snmpd_recv lua root db sdg0 buffer w = Some (sdg', w, None)"
proof -
  obtain n len where len: "ber_length_dec buffer 1 = Some (n, len)"
    using assms by (cases "ber_length_dec buffer 1") (auto simp: snmp_decode_msg_def lift_def)
  then have "1 < length buffer"
    by (auto simp: ber_length_dec_def rd_def Option.bind_eq_Some_conv split: if_splits)
  then obtain b where b: "rd buffer 0 = Some b"
    by (cases buffer) (auto simp: rd_def)
  have "\<exists>sdg'. do { sdg1 \<leftarrow> snmp_decode buffer snmp_datagram_clear; snmp_request_dispatch lua root db sdg1 w }
      = Some (sdg', w, None)"
    using assms by (auto simp: snmp_decode_def snmp_request_dispatch_def snmp_datagram_clear_def Let_def
        split: option.splits sum.splits)
  then show ?thesis
    using len b by (auto simp: snmpd_recv_def)
qed

text \<open>C20: A datagram the decoder rejects, or one whose PDU is not a GET, GETNEXT, SET or GETBULK request, is
  dropped: nothing is sent and no handler is asked.\<close>

theorem snmpd_recv_silent:
  assumes "case snmp_decode_msg buffer snmp_datagram_clear of
      Some (Inl e) \<Rightarrow> True
    | Some (Inr sdg) \<Rightarrow> pdu_type (hdr sdg) \<notin> {MIB_REQ_GET, MIB_REQ_GETNEXT, MIB_REQ_SET, MIB_REQ_BULKGET}
    | None \<Rightarrow> False"
  shows "\<exists>sdg'. snmpd_recv lua root db sdg0 buffer w = Some (sdg', w, None)"
  by (rule snmpd_recv_dropped [OF assms])

theorem snmpd_recv_silent_witness:
  "\<exists>sdg'. snmpd_recv scalar_handler tree1 db_one snmp_datagram_clear [0x30, 0x01, 0x04] () = Some (sdg', (), None)"
  by (rule snmpd_recv_silent)
    (simp add: snmp_decode_msg_def int_field_def expect_def lift_def ber_length_dec_def rd_def rdn_def)

text \<open>The checks of \<open>snmpd_recv\<close> do not make the decoder safe: a datagram of four bytes with a
  correct tag and length makes it read past the end of the received buffer.\<close>

theorem snmpd_recv_overread:
  "snmpd_recv lua root db sdg [0x30, 0x02, 0x02, 0x05] w = None"
  by (simp add: snmpd_recv_def snmp_decode_def snmp_decode_msg_def int_field_def expect_def lift_def
      ber_length_dec_def rd_def rdn_def acc8_def)

section \<open>The error status of an answer\<close>

text \<open>What the loops keep of the datagram.\<close>

definition same_request :: "snmp_datagram \<Rightarrow> snmp_datagram \<Rightarrow> bool" where
  "same_request sdg sdg' \<longleftrightarrow> version sdg' = version sdg \<and> ver_len sdg' = ver_len sdg \<and> context_name sdg' = context_name sdg
     \<and> context_name_len sdg' = context_name_len sdg \<and> security sdg' = security sdg \<and> global sdg' = global sdg
     \<and> vb_in_list sdg' = vb_in_list sdg
     \<and> (hdr sdg')\<lparr>err_stat := 0, err_idx := 0\<rparr> = (hdr sdg)\<lparr>err_stat := 0, err_idx := 0\<rparr>"

lemma same_request_refl [simp]: "same_request sdg sdg"
  by (simp add: same_request_def)

lemma same_request_trans: "same_request a b \<Longrightarrow> same_request b c \<Longrightarrow> same_request a c"
  by (auto simp: same_request_def)

lemma same_request_step: "same_request sdg (vb_out_add vb (mark_error e cnt sdg))"
  by (simp add: same_request_def vb_out_add_def mark_error_def)

text \<open>One iteration of any of the loops: it adds one variable binding, and marks the error its search reports.\<close>

definition answers :: "(nat \<Rightarrow> var_bind \<Rightarrow> 'w proc \<Rightarrow> 'w proc option) \<Rightarrow> bool" where
  "answers step \<longleftrightarrow> (\<forall>cnt vb sdg r w sdg' r' w'. step cnt vb (sdg, r, w) = Some (sdg', r', w') \<longrightarrow>
     (\<exists>out. sdg' = vb_out_add out (mark_error (sr_err_stat r') cnt sdg) \<and>
        (\<exists>r1 t val. res_oid r1 = res_oid r' \<and> vb_out_make r1 t val = Some out)))"

lemma read_step_answers: "answers (read_step search)"
  unfolding answers_def read_step_def by (auto simp: Option.bind_eq_Some_conv)

lemma set_step_answers: "answers (set_step search)"
proof -
  have "res_oid (r\<lparr>sr_err_stat := e\<rparr>) = res_oid r" for r e
    by (simp add: res_oid_def)
  then show ?thesis
    unfolding answers_def set_step_def by (fastforce simp: Option.bind_eq_Some_conv Let_def split: if_splits)
qed

lemma answersE:
  assumes "answers step" "step cnt vb (sdg, r, w) = Some (sdg', r', w')"
  obtains out r1 t val where "sdg' = vb_out_add out (mark_error (sr_err_stat r') cnt sdg)" "res_oid r1 = res_oid r'"
    "vb_out_make r1 t val = Some out"
  using assms unfolding answers_def by blast

text \<open>The search of an iteration, for the request \<open>sdg\<close>, and the answer made from its result.\<close>

definition read_ask :: "'w search \<Rightarrow> snmp_datagram \<Rightarrow> var_bind \<Rightarrow> oid_search_res \<times> 'w \<Rightarrow> (oid_search_res \<times> 'w) option" where
  "read_ask search sdg vb s = do { r0 \<leftarrow> vb_in_value vb (fst s); search sdg vb r0 (snd s) }"

definition set_ask :: "'w search \<Rightarrow> snmp_datagram \<Rightarrow> var_bind \<Rightarrow> oid_search_res \<times> 'w \<Rightarrow> (oid_search_res \<times> 'w) option" where
  "set_ask search sdg vb s = do { (r, w) \<leftarrow> read_ask search sdg vb s;
     Some (if sr_err_stat r = 0 \<and> \<not> MIB_TAG_VALID (var_tag (sr_var r)) then r\<lparr>sr_err_stat := SNMP_ERR_STAT_NOT_WRITABLE\<rparr> else r, w) }"

definition read_answer :: "var_bind \<Rightarrow> oid_search_res \<times> 'w \<Rightarrow> var_bind option" where
  "read_answer vb s = do { val \<leftarrow> vb_out_value (fst s) (\<lambda>_. ucast (var_len (sr_var (fst s)))); vb_out_make (fst s) (var_tag (sr_var (fst s))) val }"

definition set_answer :: "var_bind \<Rightarrow> oid_search_res \<times> 'w \<Rightarrow> var_bind option" where
  "set_answer vb s = do { val \<leftarrow> vb_out_value (fst s) (\<lambda>val_len. val_len); vb_out_make (fst s) (value_type vb) val }"

text \<open>A search depends on the datagram only by what the loops keep of it.\<close>

definition request_search :: "'w search \<Rightarrow> bool" where
  "request_search search \<longleftrightarrow> (\<forall>sdg sdg'. same_request sdg sdg' \<longrightarrow> search sdg' = search sdg)"

lemma same_request_requester:
  assumes "same_request sdg sdg'"
  shows "requester db sdg' = requester db sdg" "requester_next_view sdg' = requester_next_view sdg"
    "requester_view_cover db sdg' = requester_view_cover db sdg"
  using assms by (auto simp: requester_def same_request_def requester_next_view_def requester_view_cover_def fun_eq_iff)

lemma searches_request: "request_search (mib_get lua root db)" "request_search (mib_getnext lua root db)" "request_search (mib_set lua root db)"
proof -
  have "mib_get lua root db sdg' = mib_get lua root db sdg \<and> mib_getnext lua root db sdg' = mib_getnext lua root db sdg
      \<and> mib_set lua root db sdg' = mib_set lua root db sdg" if "same_request sdg sdg'" for sdg sdg'
    unfolding fun_eq_iff mib_get_def mib_getnext_def mib_set_def same_request_requester [OF that] by simp
  then show "request_search (mib_get lua root db)" "request_search (mib_getnext lua root db)" "request_search (mib_set lua root db)"
    unfolding request_search_def by blast+
qed

abbreviation snmp_failed :: "oid_search_res \<times> 'w \<Rightarrow> bool" where
  "snmp_failed s \<equiv> (word_of_int (sr_err_stat (fst s)) :: u32) \<noteq> 0"

abbreviation snmp_code :: "oid_search_res \<times> 'w \<Rightarrow> u32" where
  "snmp_code s \<equiv> word_of_int (sr_err_stat (fst s))"

lemma read_step_eq:
  "read_step search cnt vb (sdg, s) = do { s1 \<leftarrow> read_ask search sdg vb s; out \<leftarrow> read_answer vb s1;
     Some (vb_out_add out (mark_error (sr_err_stat (fst s1)) cnt sdg), s1) }"
  by (cases s) (simp add: read_step_def read_ask_def read_answer_def Option.bind_assoc split_def)

lemma set_step_eq:
  "set_step search cnt vb (sdg, s) = do { s1 \<leftarrow> set_ask search sdg vb s; out \<leftarrow> set_answer vb s1;
     Some (vb_out_add out (mark_error (sr_err_stat (fst s1)) cnt sdg), s1) }"
proof -
  have "vb_out_value (r\<lparr>sr_err_stat := e\<rparr>) n = vb_out_value r n" "vb_out_make (r\<lparr>sr_err_stat := e\<rparr>) t val = vb_out_make r t val" for r e n t val
    by (simp_all add: vb_out_value_def vb_out_make_def)
  then show ?thesis
    by (cases s) (auto simp: set_step_def set_ask_def read_ask_def set_answer_def Option.bind_assoc split_def Let_def
        intro!: Option.bind_cong)
qed

lemma step_loop:
  assumes "\<And>cnt vb sdg s. step cnt vb (sdg, s) = do { s1 \<leftarrow> ask sdg vb s; out \<leftarrow> answer vb s1;
      Some (vb_out_add out (mark_error (sr_err_stat (fst s1)) cnt sdg), s1) }"
    and "\<And>sdg sdg'. same_request sdg sdg' \<Longrightarrow> ask sdg' = ask sdg"
  shows "answer_loop step ask answer vb_out_list (\<lambda>sdg. err_stat (hdr sdg)) (\<lambda>sdg. err_idx (hdr sdg)) word_of_nat snmp_failed snmp_code"
proof
  fix cnt vb sdg s sdg' s'
  assume "step cnt vb (sdg, s) = Some (sdg', s')"
  then obtain out where s: "ask sdg vb s = Some s'" "answer vb s' = Some out" "sdg' = vb_out_add out (mark_error (sr_err_stat (fst s')) cnt sdg)"
    by (auto simp: assms(1) Option.bind_eq_Some_conv)
  then show "ask sdg vb s = Some s' \<and> ask sdg' = ask sdg"
    using assms(2) [OF same_request_step] by simp
  show "\<exists>out. answer vb s' = Some out \<and> vb_out_list sdg' = vb_out_list sdg @ [out]"
    using s(2,3) by (simp add: vb_out_add_def mark_error_def)
  show "err_stat (hdr sdg) \<noteq> 0 \<or> \<not> snmp_failed s' \<Longrightarrow> err_stat (hdr sdg') = err_stat (hdr sdg) \<and> err_idx (hdr sdg') = err_idx (hdr sdg)"
    "err_stat (hdr sdg) = 0 \<Longrightarrow> snmp_failed s' \<Longrightarrow> err_stat (hdr sdg') = snmp_code s' \<and> err_idx (hdr sdg') = word_of_nat cnt"
    using s(3) by (auto simp: vb_out_add_def mark_error_def)
qed simp

lemma read_loop:
  "request_search search \<Longrightarrow> answer_loop (read_step search) (read_ask search) read_answer vb_out_list
     (\<lambda>sdg. err_stat (hdr sdg)) (\<lambda>sdg. err_idx (hdr sdg)) word_of_nat snmp_failed snmp_code"
  by (rule step_loop [OF read_step_eq]) (simp add: request_search_def read_ask_def fun_eq_iff)

lemma set_loop:
  "request_search search \<Longrightarrow> answer_loop (set_step search) (set_ask search) set_answer vb_out_list
     (\<lambda>sdg. err_stat (hdr sdg)) (\<lambda>sdg. err_idx (hdr sdg)) word_of_nat snmp_failed snmp_code"
  by (rule step_loop [OF set_step_eq]) (simp add: request_search_def set_ask_def read_ask_def fun_eq_iff)

interpretation snmp_get: answer_loop "read_step (mib_get lua root db)" "read_ask (mib_get lua root db)" read_answer vb_out_list
  "\<lambda>sdg. err_stat (hdr sdg)" "\<lambda>sdg. err_idx (hdr sdg)" word_of_nat snmp_failed snmp_code for lua root db
  by (rule read_loop [OF searches_request(1)])

interpretation snmp_getnext: answer_loop "read_step (mib_getnext lua root db)" "read_ask (mib_getnext lua root db)" read_answer vb_out_list
  "\<lambda>sdg. err_stat (hdr sdg)" "\<lambda>sdg. err_idx (hdr sdg)" word_of_nat snmp_failed snmp_code for lua root db
  by (rule read_loop [OF searches_request(2)])

interpretation snmp_set: answer_loop "set_step (mib_set lua root db)" "set_ask (mib_set lua root db)" set_answer vb_out_list
  "\<lambda>sdg. err_stat (hdr sdg)" "\<lambda>sdg. err_idx (hdr sdg)" word_of_nat snmp_failed snmp_code for lua root db
  by (rule set_loop [OF searches_request(3)])

lemma v3_encode_same: "v3_encode sdg = Some (sdg', b) \<Longrightarrow> \<exists>g. sdg' = sdg\<lparr>global := g\<rparr>"
  by (auto simp: v3_encode_def Option.bind_eq_Some_conv)

lemma asn1_encode_same:
  assumes "asn1_encode sdg = Some (sdg', tot, bs)"
  shows "\<exists>g. sdg' = (asn1_sizes sdg)\<lparr>global := g\<rparr>"
proof -
  have "(if sint (version (asn1_sizes sdg)) \<ge> 3 then v3_encode (asn1_sizes sdg) else Some (asn1_sizes sdg, []))
      = Some (sdg', x) \<Longrightarrow> ?thesis" for x
    using v3_encode_same by (auto split: if_splits intro: exI [of _ "global (asn1_sizes sdg)"])
  then show ?thesis
    using assms by (auto simp: asn1_encode_def Let_def Option.bind_eq_Some_conv split del: if_split)
qed

lemma snmp_response_same:
  assumes "snmp_response sdg = Some (sdg', bs, tot)"
  shows "vb_out_list sdg' = vb_out_list sdg" "err_stat (hdr sdg') = err_stat (hdr sdg)"
    "err_idx (hdr sdg') = err_idx (hdr sdg)" "req_id (hdr sdg') = req_id (hdr sdg)" "pdu_type (hdr sdg') = pdu_type (hdr sdg)"
proof -
  obtain x y where "asn1_encode sdg = Some (sdg', x, y)"
    using assms by (auto simp: snmp_response_def Option.bind_eq_Some_conv split: if_splits)
  then obtain g where "sdg' = (asn1_sizes sdg)\<lparr>global := g\<rparr>"
    using asn1_encode_same by blast
  then show "vb_out_list sdg' = vb_out_list sdg" "err_stat (hdr sdg') = err_stat (hdr sdg)"
      "err_idx (hdr sdg') = err_idx (hdr sdg)" "req_id (hdr sdg') = req_id (hdr sdg)" "pdu_type (hdr sdg') = pdu_type (hdr sdg)"
    by simp_all
qed

text \<open>The answer \<open>sdg'\<close> to the request \<open>sdg\<close>, made by searches that start from \<open>s\<close>: the searches for its variable bindings are made one after the
  other; their results give the variable bindings of the answer, in order; the error fields are those of the first search that failed.\<close>

definition answered :: "(snmp_datagram \<Rightarrow> var_bind \<Rightarrow> oid_search_res \<times> 'w \<Rightarrow> (oid_search_res \<times> 'w) option) \<Rightarrow>
    (var_bind \<Rightarrow> oid_search_res \<times> 'w \<Rightarrow> var_bind option) \<Rightarrow> snmp_datagram \<Rightarrow> oid_search_res \<times> 'w \<Rightarrow> snmp_datagram \<Rightarrow> 'w \<Rightarrow> bool" where
  "answered ask answer sdg s sdg' w' \<longleftrightarrow> (\<exists>ss. asks (ask sdg) (vb_in_list sdg) s = Some ss \<and> w' = snd (last (s # ss)) \<and>
     map2 answer (vb_in_list sdg) ss = map Some (vb_out_list sdg') \<and>
     (err_stat (hdr sdg'), err_idx (hdr sdg')) = first_error snmp_code word_of_nat ss (err_idx (hdr sdg)))"

lemma loop_answered:
  assumes "answer_loop step ask answer vb_out_list (\<lambda>sdg. err_stat (hdr sdg)) (\<lambda>sdg. err_idx (hdr sdg)) word_of_nat snmp_failed snmp_code"
    and "err_stat (hdr sdg) = 0" "vb_out_list sdg = []"
    and "do { st \<leftarrow> each_vb step 0 (vb_in_list sdg) (sdg, r, w); respond st } = Some (sdg', w', reply)"
  shows "answered ask answer sdg (r, w) sdg' w'"
proof -
  obtain sdg1 r1 bs tot where s: "each_vb step 0 (vb_in_list sdg) (sdg, r, w) = Some (sdg1, r1, w')"
      "snmp_response sdg1 = Some (sdg', bs, tot)"
    using assms(4) by (auto simp: respond_def Option.bind_eq_Some_conv)
  obtain ss os where ss: "asks (ask sdg) (vb_in_list sdg) (r, w) = Some ss" "last ((r, w) # ss) = (r1, w')"
      "map2 answer (vb_in_list sdg) ss = map Some os" "vb_out_list sdg1 = vb_out_list sdg @ os"
    using answer_loop.loop_answers [OF assms(1) s(1)] by blast
  have "(err_stat (hdr sdg1), err_idx (hdr sdg1)) = first_error snmp_code word_of_nat ss (err_idx (hdr sdg))"
    using answer_loop.loop_errors [OF assms(1) s(1) assms(2) ss(1)] by simp
  then show ?thesis
    unfolding answered_def using ss assms(3) snmp_response_same [OF s(2)] by (intro exI [of _ ss]) simp
qed

text \<open>C19: GET, GETNEXT and SET, for a request whose error status is 0, search for its variable bindings one after the other; the answer has one
  variable binding for each, in the order of the request, made from the result of its search. If no search reports an error, the answer has status 0
  and the error index of the request; otherwise its status is the error of the first search that reported one, and its
  index the position of that variable binding, counted from 1.\<close>

theorem snmp_errors:
  assumes "err_stat (hdr sdg) = 0" "vb_out_list sdg = []"
  shows "(snmp_get lua root db sdg w = Some (sdg', w', reply) \<longrightarrow>
      answered (read_ask (mib_get lua root db)) read_answer sdg (res_zero MIB_REQ_GET, w) sdg' w') \<and>
    (snmp_getnext lua root db sdg w = Some (sdg', w', reply) \<longrightarrow>
      answered (read_ask (mib_getnext lua root db)) read_answer sdg (res_zero MIB_REQ_GETNEXT, w) sdg' w') \<and>
    (snmp_set lua root db sdg w = Some (sdg', w', reply) \<longrightarrow>
      answered (set_ask (mib_set lua root db)) set_answer sdg (res_zero MIB_REQ_SET, w) sdg' w')"
  unfolding snmp_get_def snmp_getnext_def snmp_set_def
  using loop_answered [OF snmp_get.answer_loop_axioms assms] loop_answered [OF snmp_getnext.answer_loop_axioms assms]
    loop_answered [OF snmp_set.answer_loop_axioms assms] by auto

section \<open>GETBULK\<close>

lemma bulk_list_same:
  assumes "bulk_list search cnt vbs (sdg, r, w) = Some (vbs', sdg', r', w')"
  shows "length (vb_out_list sdg') = length (vb_out_list sdg) + length vbs \<and> length vbs' = length vbs
    \<and> (err_stat (hdr sdg) \<noteq> 0 \<longrightarrow> hdr sdg' = hdr sdg)"
  using assms
proof (induction vbs arbitrary: cnt sdg r w vbs')
  case (Cons vb vbs)
  obtain sdg1 r1 w1 vbs1 where s: "read_step search (Suc cnt) vb (sdg, r, w) = Some (sdg1, r1, w1)"
      "bulk_list search (Suc cnt) vbs (sdg1, r1, w1) = Some (vbs1, sdg', r', w')" "length vbs' = Suc (length vbs1)"
    using Cons.prems by (auto simp: Option.bind_eq_Some_conv)
  obtain out where "sdg1 = vb_out_add out (mark_error (sr_err_stat r1) (Suc cnt) sdg)"
    using answersE [OF read_step_answers s(1)] by metis
  then show ?case
    using Cons.IH [OF s(2)] s(3) by (auto simp: vb_out_add_def mark_error_def)
qed simp

lemma bulk_loop_same:
  assumes "bulk_loop search k cnt vbs (sdg, r, w) = Some (vbs', sdg', r', w')"
  shows "length (vb_out_list sdg') = length (vb_out_list sdg) + k * length vbs
    \<and> (err_stat (hdr sdg) \<noteq> 0 \<longrightarrow> hdr sdg' = hdr sdg)"
  using assms
proof (induction k arbitrary: cnt vbs sdg r w)
  case (Suc k)
  obtain vbs1 sdg1 r1 w1 where s: "bulk_list search cnt vbs (sdg, r, w) = Some (vbs1, sdg1, r1, w1)"
      "bulk_loop search k (cnt + length vbs) vbs1 (sdg1, r1, w1) = Some (vbs', sdg', r', w')"
    using Suc.prems by (auto simp: Option.bind_eq_Some_conv)
  then show ?case
    using Suc.IH [OF s(2)] bulk_list_same [OF s(1)] by auto
qed simp

text \<open>C31: GETBULK treats every variable binding as a repeater: the answer has max-repetitions times the number
  of variable bindings of the request, whatever non-repeaters says. A non-zero non-repeaters field comes back as the error status
  of the answer, with index 0, and hides the errors of the searches.\<close>

theorem snmp_bulkget_non_repeaters:
  assumes "snmp_bulkget lua root db sdg w = Some (sdg', w', reply)"
  shows "length (vb_out_list sdg') = length (vb_out_list sdg) + unat (err_idx (hdr sdg)) * length (vb_in_list sdg)
    \<and> (err_stat (hdr sdg) \<noteq> 0 \<longrightarrow> err_stat (hdr sdg') = err_stat (hdr sdg) \<and> err_idx (hdr sdg') = 0)"
proof -
  let ?sdg = "sdg\<lparr>hdr := (hdr sdg)\<lparr>err_idx := 0\<rparr>\<rparr>"
  obtain vbs sdg2 r w2 bs tot where s:
      "bulk_loop (mib_getnext lua root db) (unat (err_idx (hdr sdg))) 0 (vb_in_list sdg) (?sdg, res_zero MIB_REQ_GETNEXT, w)
        = Some (vbs, sdg2, r, w2)" "snmp_response (sdg2\<lparr>vb_in_list := vbs\<rparr>) = Some (sdg', bs, tot)"
    using assms by (auto simp: snmp_bulkget_def Let_def respond_def Option.bind_eq_Some_conv)
  show ?thesis
    using bulk_loop_same [OF s(1)] snmp_response_same [OF s(2)] by auto
qed

section \<open>The answer to a SET of an object identifier\<close>

text \<open>The answer to a SET encodes the value with its size in bytes as the number of elements. For an
  object identifier the two differ: 1.3.6.1, which GET encodes correctly in three bytes, is answered as 1.3.6.\<close>

theorem set_objid_answer:
  "vb_out_value (r\<lparr>sr_var := \<lparr>var_tag = ASN1_TAG_OBJID, var_len = 4, var_mem = oid_img [1, 3, 6, 1]\<rparr>\<rparr>) (\<lambda>val_len. val_len)
     = Some [0x2b, 0x06] \<and>
   vb_out_value (r\<lparr>sr_var := \<lparr>var_tag = ASN1_TAG_OBJID, var_len = 4, var_mem = oid_img [1, 3, 6, 1]\<rparr>\<rparr>) (\<lambda>_. 4)
     = Some [0x2b, 0x06, 0x01]"
proof -
  have "ber_value_enc_try (oid_img [1, 3, 6, 1]) 4 ASN1_TAG_OBJID = Some 3"
      "ber_value_enc (oid_img [1, 3, 6, 1]) 3 ASN1_TAG_OBJID = Some [0x2b, 0x06]"
      "ber_value_enc (oid_img [1, 3, 6, 1]) 4 ASN1_TAG_OBJID = Some [0x2b, 0x06, 0x01]"
    by code_simp+
  then show ?thesis
    by (simp add: vb_out_value_def)
qed

section \<open>The sizes of an answer\<close>

text \<open>An identifier whose encoded size the 8-bit counters of the encoder can hold.\<close>

definition oid_exact :: "oid \<Rightarrow> bool" where
  "oid_exact oid \<longleftrightarrow> length oid \<le> 255 \<and> length (ber_oid_enc oid) \<le> 255"

lemma vb_out_make_len:
  assumes "vb_out_make r t val = Some vb" "oid_exact (vb_oid vb)"
  shows "vb_len vb = wlen (vb_contents vb)"
proof -
  obtain oid oid_len where o: "ber_value_enc_try (oid_img oid) (word_of_nat (length oid)) ASN1_TAG_OBJID = Some oid_len"
      "vb = \<lparr>vb_oid = oid, vb_len = tlv_size oid_len + tlv_size (word_of_nat (length val)),
        value_len = word_of_nat (length val), value_type = t, vb_value = val\<rparr>"
    using assms(1) by (auto simp: vb_out_make_def Let_def Option.bind_eq_Some_conv)
  have e: "length oid \<le> 255" "length (ber_oid_enc oid) \<le> 255"
    using assms(2) o(2) by (simp_all add: oid_exact_def)
  have "mem_oid (oid_img oid) (length oid) = Some oid"
    using mem_oid_img [of oid "[]"] by simp
  then have "oid_len = wlen (ber_oid_enc oid)"
    using o(1) e ber_oid_enc_size [of oid] by (simp add: ber_value_enc_try_def unat_word_of_nat)
  then show ?thesis
    using o(2) by (simp add: vb_contents_def Let_def head_size)
qed

definition out_sizes :: "snmp_datagram \<Rightarrow> bool" where
  "out_sizes sdg \<longleftrightarrow> (\<forall>vb \<in> set (vb_out_list sdg). oid_exact (vb_oid vb) \<longrightarrow> vb_len vb = wlen (vb_contents vb))
     \<and> vb_list_len sdg = sum_list (map (\<lambda>vb. tlv_size (vb_len vb)) (vb_out_list sdg))"

lemma step_sizes:
  assumes "answers step" "step cnt vb (sdg, r, w) = Some (sdg', r', w')"
  shows "same_request sdg sdg' \<and> (out_sizes sdg \<longrightarrow> out_sizes sdg')"
proof -
  obtain out r1 t val where o: "sdg' = vb_out_add out (mark_error (sr_err_stat r') cnt sdg)" "vb_out_make r1 t val = Some out"
    using answersE [OF assms] by metis
  then show ?thesis
    using vb_out_make_len [OF o(2)] same_request_step by (auto simp: out_sizes_def vb_out_add_def mark_error_def)
qed

lemma each_vb_sizes:
  assumes "answers step" "each_vb step cnt vbs (sdg, r, w) = Some (sdg', r', w')"
  shows "same_request sdg sdg' \<and> (out_sizes sdg \<longrightarrow> out_sizes sdg')"
  using assms(2)
proof (induction vbs arbitrary: cnt sdg r w)
  case (Cons vb vbs)
  then show ?case
    using step_sizes [OF assms(1)] same_request_trans by (fastforce simp: Option.bind_eq_Some_conv)
qed simp

lemma bulk_list_sizes:
  assumes "bulk_list search cnt vbs (sdg, r, w) = Some (vbs', sdg', r', w')"
  shows "same_request sdg sdg' \<and> (out_sizes sdg \<longrightarrow> out_sizes sdg')"
  using assms
proof (induction vbs arbitrary: cnt sdg r w vbs')
  case (Cons vb vbs)
  obtain sdg1 r1 w1 vbs1 where s: "read_step search (Suc cnt) vb (sdg, r, w) = Some (sdg1, r1, w1)"
      "bulk_list search (Suc cnt) vbs (sdg1, r1, w1) = Some (vbs1, sdg', r', w')"
    using Cons.prems by (auto simp: Option.bind_eq_Some_conv)
  show ?case
    using Cons.IH [OF s(2)] step_sizes [OF read_step_answers s(1)] same_request_trans by blast
qed simp

lemma bulk_loop_sizes:
  assumes "bulk_loop search k cnt vbs (sdg, r, w) = Some (vbs', sdg', r', w')"
  shows "same_request sdg sdg' \<and> (out_sizes sdg \<longrightarrow> out_sizes sdg')"
  using assms
proof (induction k arbitrary: cnt vbs sdg r w)
  case (Suc k)
  obtain vbs1 sdg1 r1 w1 where s: "bulk_list search cnt vbs (sdg, r, w) = Some (vbs1, sdg1, r1, w1)"
      "bulk_loop search k (cnt + length vbs) vbs1 (sdg1, r1, w1) = Some (vbs', sdg', r', w')"
    using Suc.prems by (auto simp: Option.bind_eq_Some_conv)
  show ?case
    using Suc.IH [OF s(2)] bulk_list_sizes [OF s(1)] same_request_trans by blast
qed simp

lemma out_sizes_exact:
  assumes "out_sizes sdg" "\<forall>vb \<in> set (vb_out_list sdg). oid_exact (vb_oid vb)"
  shows "vb_list_len sdg = wlen (concat (map vb_bytes (vb_out_list sdg)))"
proof -
  have "sum_list (map (\<lambda>vb. tlv_size (vb_len vb)) vbs) = wlen (concat (map vb_bytes vbs))"
    if "\<forall>vb \<in> set vbs. vb_len vb = wlen (vb_contents vb)" for vbs
    using that by (induction vbs) (auto simp: head_size vb_bytes_def)
  then show ?thesis
    using assms by (auto simp: out_sizes_def)
qed

text \<open>A variable binding an answer can carry.\<close>

definition vb_sendable :: "var_bind \<Rightarrow> bool" where
  "vb_sendable vb \<longleftrightarrow> oid_ok (vb_oid vb) \<and> length (ber_oid_enc (vb_oid vb)) \<le> 255 \<and> vb_fits vb"

lemma vb_sendable_exact: "vb_sendable vb \<Longrightarrow> oid_exact (vb_oid vb)"
  by (simp add: vb_sendable_def oid_exact_def vb_fits_def MIB_OID_MAX_LEN_def)

text \<open>A request as the decoder delivers it, with canonical length fields.\<close>

definition request_ok :: "snmp_datagram \<Rightarrow> bool" where
  "request_ok sdg \<longleftrightarrow> vb_out_list sdg = [] \<and> vb_list_len sdg = 0 \<and> int_len (ver_len sdg) (version sdg)
     \<and> c_string (context_name sdg) (context_name_len sdg) 41
     \<and> (sint (version sdg) \<ge> 3 \<longrightarrow> global_honest (global sdg) \<and> security_honest (security sdg))"

lemma answer_honest:
  assumes "request_ok sdg" "same_request sdg sdg'" "out_sizes sdg'" "hdr_honest (hdr sdg')"
    and "\<forall>vb \<in> set (vb_out_list sdg'). vb_sendable vb" "length (vb_out_list sdg') < 2 ^ 20"
  shows "response_honest sdg'"
proof -
  have h: "\<forall>vb \<in> set (vb_out_list sdg'). vb_honest vb"
    using assms(3,5) vb_sendable_exact by (auto simp: out_sizes_def vb_honest_def vb_sendable_def)
  have "length (concat (map vb_bytes vbs)) \<le> 1297 * length vbs" if "\<forall>vb \<in> set vbs. vb_honest vb" for vbs
    using that vb_honest_bounds(3) by (induction vbs) (auto intro: add_mono)
  from this [OF h] have "length (concat (map vb_bytes (vb_out_list sdg'))) < 2 ^ 31"
    using assms(6) by simp
  then show ?thesis
    using assms(1,2,4,5) h out_sizes_exact [OF assms(3)] vb_sendable_exact
    by (auto simp: response_honest_def request_ok_def same_request_def)
qed

text \<open>The loop that treats a request of each kind: what \<open>snmp_request_dispatch\<close> does before it responds.\<close>

definition request_loop :: "'w lua \<Rightarrow> mib_node \<Rightarrow> mib_db \<Rightarrow> snmp_datagram \<Rightarrow> 'w \<Rightarrow> 'w proc option" where
  "request_loop lua root db sdg w =
     (let t = pdu_type (hdr sdg); sdg0 = resp_type sdg in
      if t = MIB_REQ_GET then each_vb (read_step (mib_get lua root db)) 0 (vb_in_list sdg) (sdg0, res_zero t, w)
      else if t = MIB_REQ_GETNEXT then each_vb (read_step (mib_getnext lua root db)) 0 (vb_in_list sdg) (sdg0, res_zero t, w)
      else if t = MIB_REQ_SET then each_vb (set_step (mib_set lua root db)) 0 (vb_in_list sdg) (sdg0, res_zero t, w)
      else do { (vbs, sdg1, r, w') \<leftarrow> bulk_loop (mib_getnext lua root db) (unat (err_idx (hdr sdg))) 0 (vb_in_list sdg)
                  (sdg0\<lparr>hdr := (hdr sdg0)\<lparr>err_idx := 0\<rparr>\<rparr>, res_zero MIB_REQ_GETNEXT, w);
                Some (sdg1\<lparr>vb_in_list := vbs\<rparr>, r, w') })"

lemma dispatch_loop:
  assumes "pdu_type (hdr sdg) \<in> {MIB_REQ_GET, MIB_REQ_GETNEXT, MIB_REQ_SET, MIB_REQ_BULKGET}"
  shows "snmp_request_dispatch lua root db sdg w = do { st \<leftarrow> request_loop lua root db sdg w; respond st }"
  using assms by (auto simp: snmp_request_dispatch_def request_loop_def snmp_get_def snmp_getnext_def snmp_set_def snmp_bulkget_def
      resp_type_def Let_def Option.bind_assoc split_def)

lemma request_loop_honest:
  assumes "request_ok sdg" "request_loop lua root db sdg w = Some (sdg1, r1, w1)"
    and "hdr_honest (hdr sdg1)" "\<forall>vb \<in> set (vb_out_list sdg1). vb_sendable vb" "length (vb_out_list sdg1) < 2 ^ 20"
  shows "response_honest sdg1 \<and> req_id (hdr sdg1) = req_id (hdr sdg)"
proof -
  let ?s = "resp_type sdg"
  have ok: "request_ok ?s" "out_sizes ?s"
    using assms(1) by (auto simp: request_ok_def resp_type_def out_sizes_def)
  obtain sdg2 vbs where "same_request ?s sdg2" "out_sizes sdg2" "sdg1 = sdg2\<lparr>vb_in_list := vbs\<rparr>"
  proof (cases "pdu_type (hdr sdg) \<in> {MIB_REQ_GET, MIB_REQ_GETNEXT, MIB_REQ_SET}")
    case True
    then obtain step t where "answers step" "each_vb step 0 (vb_in_list sdg) (?s, t, w) = Some (sdg1, r1, w1)"
      using assms(2) that read_step_answers set_step_answers by (simp add: request_loop_def Let_def split: if_splits) blast+
    then show ?thesis
      using that [of sdg1 "vb_in_list sdg1"] each_vb_sizes ok(2) by force
  next
    case False
    let ?b = "?s\<lparr>hdr := (hdr ?s)\<lparr>err_idx := 0\<rparr>\<rparr>"
    obtain k vbs sdg2 where b: "bulk_loop (mib_getnext lua root db) k 0 (vb_in_list sdg) (?b, res_zero MIB_REQ_GETNEXT, w) = Some (vbs, sdg2, r1, w1)"
        "sdg1 = sdg2\<lparr>vb_in_list := vbs\<rparr>"
      using assms(2) False by (auto simp: request_loop_def Let_def Option.bind_eq_Some_conv)
    have "same_request ?s ?b" "out_sizes ?b"
      using ok(2) by (simp_all add: same_request_def out_sizes_def)
    then show ?thesis
      using bulk_loop_sizes [OF b(1)] that [OF _ _ b(2)] same_request_trans by blast
  qed
  moreover from this have "response_honest sdg2"
    using answer_honest [OF ok(1)] assms(3-5) by simp
  moreover have "req_id (hdr sdg2) = req_id (hdr ?s)"
    using calculation(1) unfolding same_request_def by (metis pdu_hdr.select_convs(4) pdu_hdr.surjective pdu_hdr.update_convs(6,8))
  ultimately show ?thesis
    by (simp add: response_honest_def resp_type_def)
qed

lemma loop_reply:
  assumes "pdu_type (hdr sdg) \<in> {MIB_REQ_GET, MIB_REQ_GETNEXT, MIB_REQ_SET, MIB_REQ_BULKGET}" "request_ok sdg"
    and "request_loop lua root db sdg w = Some (sdg1, r1, w1)"
    and "hdr_honest (hdr sdg1)" "\<forall>vb \<in> set (vb_out_list sdg1). vb_sendable vb" "length (vb_out_list sdg1) < 2 ^ 20"
  shows "\<exists>sdg' bs tot sdg''. snmp_request_dispatch lua root db sdg w = Some (sdg', w1, Some (bs, tot)) \<and> length bs = unat tot
    \<and> snmp_decode_msg bs snmp_datagram_clear = ok sdg'' \<and> req_id (hdr sdg'') = req_id (hdr sdg)
    \<and> err_stat (hdr sdg'') = err_stat (hdr sdg1) \<and> err_idx (hdr sdg'') = err_idx (hdr sdg1)
    \<and> vb_in_list sdg'' = map (\<lambda>vb. vb\<lparr>vb_len := 0\<rparr>) (vb_out_list sdg1)"
proof -
  note h = request_loop_honest [OF assms(2-6)]
  show ?thesis
    using response_roundtrip [OF conjunct1 [OF h]] h by (auto simp: dispatch_loop [OF assms(1)] assms(3) respond_def)
qed

text \<open>C17: The answer to a GET, GETNEXT, SET or GETBULK. The request is as the decoder delivers it, with canonical length fields
  (\<open>request_ok\<close>), and the loop over its variable bindings returns. Three conditions are on what the loop leaves: the length fields of the error
  status and index, which are those of the request, fit the new values (\<open>hdr_honest\<close>); every variable binding of the answer can be sent
  (\<open>vb_sendable\<close>: a well-formed identifier of at most 64 elements whose encoding has at most 255 bytes, and at most 1024 bytes of value,
  which the answer to a SET of an object identifier need not have); there are fewer than 2^20 of them. Then the
  answer is written exactly into the buffer allocated for it, and its receiver decodes the request identifier, the error
  fields and all variable bindings.\<close>

theorem snmp_reply_exact:
  assumes "pdu_type (hdr sdg) \<in> {MIB_REQ_GET, MIB_REQ_GETNEXT, MIB_REQ_SET, MIB_REQ_BULKGET}" "request_ok sdg"
    and "request_loop lua root db sdg w = Some (sdg1, r1, w1)"
    and "hdr_honest (hdr sdg1)" "\<forall>vb \<in> set (vb_out_list sdg1). vb_sendable vb" "length (vb_out_list sdg1) < 2 ^ 20"
  shows "\<exists>sdg' bs tot sdg''. snmp_request_dispatch lua root db sdg w = Some (sdg', w1, Some (bs, tot)) \<and> length bs = unat tot
    \<and> snmp_decode_msg bs snmp_datagram_clear = ok sdg'' \<and> req_id (hdr sdg'') = req_id (hdr sdg)
    \<and> err_stat (hdr sdg'') = err_stat (hdr sdg1) \<and> err_idx (hdr sdg'') = err_idx (hdr sdg1)
    \<and> vb_in_list sdg'' = map (\<lambda>vb. vb\<lparr>vb_len := 0\<rparr>) (vb_out_list sdg1)"
  by (rule loop_reply [OF assms])

section \<open>A request and its answer\<close>

text \<open>A GETNEXT or GETBULK for 1 with the community \<open>p\<close> on a tree with one instance: the answer is 1.3.0 with value 42.\<close>

definition sdg_req :: "u8 \<Rightarrow> u32 \<Rightarrow> u32 \<Rightarrow> snmp_datagram" where
  "sdg_req t stat idx = sdg_p\<lparr>ver_len := 1, context_name_len := 1, vb_in_cnt := 1, vb_in_list := [vb_130\<lparr>vb_oid := [1]\<rparr>],
     hdr := \<lparr>pdu_type = t, pdu_len = 0, req_id_len = 1, req_id = 7, err_stat_len = 1, err_stat = stat, err_idx_len = 1, err_idx = idx\<rparr>\<rparr>"

definition vb_42 :: var_bind where
  "vb_42 = \<lparr>vb_oid = [1, 3, 0], vb_len = 7, value_len = 1, value_type = 2, vb_value = [42]\<rparr>"

lemma example_bytes: "ber_int_enc 1 = [1]" "ber_int_enc 7 = [7]" "ber_int_enc 0 = [0]" "ber_length_enc_try 1 = 1"
  "ber_length_enc_try 2 = 1" "ber_length_enc_try 7 = 1" "ber_oid_enc [1, 3, 0] = [43, 0]"
  "ber_value_enc_try (oid_img [1, 3, 0]) 3 ASN1_TAG_OBJID = Some 2" "ber_int_enc 42 = [42]" "ber_int_enc_try 42 = 1"
  by code_simp+

lemma mem_42: "mem_u32 (le32 42 @ replicate 1020 0) = Some 42"
  by (simp add: mem_u32_def)

lemma example_step:
  assumes "requester db_one sdg = Some (Some (hd (mib_communities db_one)))"
  shows "\<exists>r. read_step (mib_getnext scalar_handler tree1 db_one) cnt (vb_130\<lparr>vb_oid := [1]\<rparr>) (sdg, res_zero MIB_REQ_GETNEXT, ())
      = Some (vb_out_add vb_42 sdg, r, ()) \<and> rdn (sr_oid r) 0 (sr_id_len r) = Some [1, 3, 0]"
proof -
  obtain r where r: "mib_getnext scalar_handler tree1 db_one sdg_p (vb_130\<lparr>vb_oid := [1]\<rparr>) res0 () = Some (r, ())"
      "sr_var r = \<lparr>var_tag = 2, var_len = 1, var_mem = le32 42 @ replicate 1020 0\<rparr>"
      "prefix [1, 3, 0] (sr_oid r)" "sr_id_len r = 3" "sr_err_stat r = 0"
    using getnext_example by blast
  have get: "mib_getnext scalar_handler tree1 db_one sdg vb res0 () = mib_getnext scalar_handler tree1 db_one sdg_p vb res0 ()" for vb
    using assms requester_one(1) by (simp add: mib_getnext_def requester_next_view_eq)
  have v: "vb_in_value (vb_130\<lparr>vb_oid := [1]\<rparr>) (res_zero MIB_REQ_GETNEXT) = Some res0"
    by (simp add: vb_in_value_def vb_130_def rdn_def ber_value_dec_def wr_def res_zero_def res0_def var0_def MIB_VALUE_MAX_LEN_def)
  have oid: "rdn (sr_oid r) 0 (sr_id_len r) = Some [1, 3, 0]"
    using r(3,4) by (auto simp: prefix_def rdn_def)
  have val: "vb_out_value r (\<lambda>_. 1) = Some [42]"
    by (simp add: vb_out_value_def r(2) ber_value_enc_try_def ber_value_enc_def mem_42 example_bytes)
  have out: "vb_out_make r 2 [42] = Some vb_42"
    by (simp add: vb_out_make_def oid example_bytes tlv_size_def vb_42_def)
  show ?thesis
    using r oid by (simp add: read_step_def v get [unfolded One_nat_def] val out mark_error_def)
qed

lemma vb_42_sendable: "vb_sendable vb_42"
  by (simp add: vb_sendable_def vb_42_def example_bytes oid_ok_def vb_fits_def MIB_OID_MAX_LEN_def MIB_VALUE_MAX_LEN_def)

lemma sdg_req_ok: "request_ok (sdg_req t s i)" "requester db_one (sdg_req t s i) = Some (Some (hd (mib_communities db_one)))"
proof -
  have "c_string (0x70 # replicate 40 0) 1 41"
    by (auto simp: c_string_def nth_Cons')
  then show "request_ok (sdg_req t s i)"
    by (simp add: request_ok_def sdg_req_def sdg_p_def snmp_datagram_clear_def int_len_def example_bytes)
  have "requester db_one (sdg_req t s i) = requester db_one sdg_p"
    by (simp add: requester_def sdg_req_def)
  then show "requester db_one (sdg_req t s i) = Some (Some (hd (mib_communities db_one)))"
    using requester_one(1) by simp
qed

lemma sdg_req_resp: "resp_type (sdg_req t stat idx) = sdg_req MIB_RESP stat idx"
  by (simp add: resp_type_def sdg_req_def)

text \<open>The loops of the two requests, and that their results can be answered.\<close>

lemma example_run:
  "\<exists>r. request_loop scalar_handler tree1 db_one (sdg_req MIB_REQ_GETNEXT 0 0) () = Some (vb_out_add vb_42 (sdg_req MIB_RESP 0 0), r, ())"
  using example_step [OF sdg_req_ok(2), of "Suc 0" MIB_RESP 0 0]
  by (auto simp: request_loop_def sdg_req_resp) (auto simp: sdg_req_def)

lemma example_bulk_run:
  "\<exists>r. request_loop scalar_handler tree1 db_one (sdg_req MIB_REQ_BULKGET 1 1) ()
     = Some ((vb_out_add vb_42 (sdg_req MIB_RESP 1 0))\<lparr>vb_in_list := [vb_130\<lparr>vb_oid := [1, 3, 0]\<rparr>]\<rparr>, r, ())"
proof -
  obtain r where run: "read_step (mib_getnext scalar_handler tree1 db_one) (Suc 0) (vb_130\<lparr>vb_oid := [1]\<rparr>)
      (sdg_req MIB_RESP 1 0, res_zero MIB_REQ_GETNEXT, ()) = Some (vb_out_add vb_42 (sdg_req MIB_RESP 1 0), r, ())"
      "rdn (sr_oid r) 0 (sr_id_len r) = Some [1, 3, 0]"
    using example_step [OF sdg_req_ok(2)] by blast
  have s: "vb_in_list (sdg_req MIB_REQ_BULKGET 1 1) = [vb_130\<lparr>vb_oid := [1]\<rparr>]" "pdu_type (hdr (sdg_req MIB_REQ_BULKGET 1 1)) = MIB_REQ_BULKGET"
      "(sdg_req MIB_RESP 1 1)\<lparr>hdr := (hdr (sdg_req MIB_RESP 1 1))\<lparr>err_idx := 0\<rparr>\<rparr> = sdg_req MIB_RESP 1 0"
      "unat (err_idx (hdr (sdg_req MIB_REQ_BULKGET 1 1))) = Suc 0"
    by (simp_all add: sdg_req_def)
  show ?thesis
    using run by (simp add: request_loop_def sdg_req_resp s oid_dup_def MIB_VALUE_MAX_LEN_def)
qed

lemma example_honest:
  "hdr_honest (hdr (vb_out_add vb_42 (sdg_req MIB_RESP 0 0)))" "hdr_honest (hdr (vb_out_add vb_42 (sdg_req MIB_RESP 1 0)))"
  "vb_out_list (vb_out_add vb_42 (sdg_req t stat idx)) = [vb_42]"
  by (simp_all add: hdr_honest_def vb_out_add_def sdg_req_def sdg_p_def snmp_datagram_clear_def int_len_def example_bytes)

lemma sdg_req_type: "pdu_type (hdr (sdg_req t stat idx)) = t"
  by (simp add: sdg_req_def)

theorem snmp_reply_exact_witness:
  "\<exists>sdg' bs tot sdg''. snmp_request_dispatch scalar_handler tree1 db_one (sdg_req MIB_REQ_BULKGET 1 1) () = Some (sdg', (), Some (bs, tot))
    \<and> length bs = unat tot \<and> snmp_decode_msg bs snmp_datagram_clear = ok sdg'' \<and> vb_in_list sdg'' = [vb_42\<lparr>vb_len := 0\<rparr>]"
proof -
  obtain r where run: "request_loop scalar_handler tree1 db_one (sdg_req MIB_REQ_BULKGET 1 1) ()
     = Some ((vb_out_add vb_42 (sdg_req MIB_RESP 1 0))\<lparr>vb_in_list := [vb_130\<lparr>vb_oid := [1, 3, 0]\<rparr>]\<rparr>, r, ())"
    using example_bulk_run by blast
  show ?thesis
    using snmp_reply_exact [OF _ sdg_req_ok(1) run] example_honest vb_42_sendable by (simp add: sdg_req_type) blast
qed

lemma example_reply: "\<exists>sdg' reply. snmp_getnext scalar_handler tree1 db_one (sdg_req MIB_RESP 0 0) () = Some (sdg', (), reply)"
proof -
  obtain r where run: "request_loop scalar_handler tree1 db_one (sdg_req MIB_REQ_GETNEXT 0 0) () = Some (vb_out_add vb_42 (sdg_req MIB_RESP 0 0), r, ())"
    using example_run by blast
  have "\<exists>sdg' reply. snmp_request_dispatch scalar_handler tree1 db_one (sdg_req MIB_REQ_GETNEXT 0 0) () = Some (sdg', (), reply)"
    using loop_reply [OF _ sdg_req_ok(1) run] example_honest vb_42_sendable by (simp add: sdg_req_type) blast
  then show ?thesis
    by (simp add: snmp_request_dispatch_def sdg_req_type sdg_req_resp)
qed

theorem snmp_errors_witness:
  "\<exists>sdg' reply. snmp_getnext scalar_handler tree1 db_one (sdg_req MIB_RESP 0 0) () = Some (sdg', (), reply) \<and>
     answered (read_ask (mib_getnext scalar_handler tree1 db_one)) read_answer (sdg_req MIB_RESP 0 0) (res_zero MIB_REQ_GETNEXT, ()) sdg' ()"
proof -
  have "err_stat (hdr (sdg_req MIB_RESP 0 0)) = 0" "vb_out_list (sdg_req MIB_RESP 0 0) = []"
    by (simp_all add: sdg_req_def sdg_p_def snmp_datagram_clear_def)
  note e = snmp_errors [OF this, of scalar_handler tree1 db_one "()"]
  obtain sdg' reply where r: "snmp_getnext scalar_handler tree1 db_one (sdg_req MIB_RESP 0 0) () = Some (sdg', (), reply)"
    using example_reply by blast
  show ?thesis
    using e [of sdg' "()" reply] r by blast
qed

theorem snmp_bulkget_non_repeaters_witness:
  "\<exists>sdg' reply. snmp_bulkget scalar_handler tree1 db_one (sdg_req MIB_RESP 1 1) () = Some (sdg', (), reply) \<and>
     length (vb_out_list sdg') = 1 \<and> err_stat (hdr sdg') = 1 \<and> err_idx (hdr sdg') = 0"
proof -
  let ?s = "sdg_req MIB_RESP 1 1"
  have s: "length (vb_in_list ?s) = 1" "vb_out_list ?s = []" "err_stat (hdr ?s) = 1" "unat (err_idx (hdr ?s)) = 1"
    by (simp_all add: sdg_req_def sdg_p_def snmp_datagram_clear_def)
  obtain r where run: "request_loop scalar_handler tree1 db_one (sdg_req MIB_REQ_BULKGET 1 1) ()
     = Some ((vb_out_add vb_42 (sdg_req MIB_RESP 1 0))\<lparr>vb_in_list := [vb_130\<lparr>vb_oid := [1, 3, 0]\<rparr>]\<rparr>, r, ())"
    using example_bulk_run by blast
  have "\<exists>sdg' reply. snmp_request_dispatch scalar_handler tree1 db_one (sdg_req MIB_REQ_BULKGET 1 1) () = Some (sdg', (), reply)"
    using loop_reply [OF _ sdg_req_ok(1) run] example_honest vb_42_sendable by (simp add: sdg_req_type) blast
  then have "\<exists>sdg' reply. snmp_bulkget scalar_handler tree1 db_one ?s () = Some (sdg', (), reply)"
    by (simp add: snmp_request_dispatch_def sdg_req_type sdg_req_resp)
  then show ?thesis
    using snmp_bulkget_non_repeaters [of scalar_handler tree1 db_one ?s "()"] s by auto
qed

end
