(* ===== verification/Transport.thy ===== *)
theory Transport
  imports Snmp_Agent
begin

text \<open>
  What the protocols and the transports promise each other (\<open>core/protocol.h\<close>, \<open>core/transport.h\<close>, \<open>core/snmp.c\<close>). A transport hands a
  received buffer to the \<open>receive\<close> operation of its protocol, which may hand one answer back through \<open>send\<close>. The agent's state
  is of type \<open>'g\<close>, addresses of clients of type \<open>'a\<close>; an answer is the buffer and the length given to \<open>send\<close>.

  \<open>serve\<close> is the abstract server: every datagram is handled in order, every answer goes to the sender of its datagram. The
  locale \<open>transport\<close> states what one event of a transport does: a datagram is read, an answer is written or \<open>sendto\<close> fails, something else happens;
  its lemmas show that any schedule of events the transport allows refines \<open>serve\<close>, up to the answers whose \<open>sendto\<close> fails. The transports
  interpret it.
\<close>

section \<open>The protocol operations of the SNMP agent\<close>

type_synonym msg = "bytes \<times> u32"

type_synonym 'g receive = "bytes \<Rightarrow> 'g \<Rightarrow> ('g \<times> msg option) option"

definition TRANS_BUF_SIZ :: nat where
  "TRANS_BUF_SIZ = 65536"

definition snmpd_receive :: "'w lua \<Rightarrow> mib_node \<Rightarrow> mib_db \<Rightarrow> (snmp_datagram \<times> 'w) receive" where
  "snmpd_receive lua root db buf g =
     map_option (\<lambda>(sdg, w, sent). ((sdg, w), sent)) (snmpd_recv lua root db (fst g) buf (snd g))"

text \<open>What the handlers of all transports do first: \<open>recvfrom\<close> into a buffer of \<open>TRANS_BUF_SIZ\<close> bytes, which cuts longer datagrams
  off, and \<open>receive\<close>. If \<open>recvfrom\<close> fails (\<open>None\<close>), its result \<open>- 1\<close> is handed on and the assertion in \<open>snmpd_recv\<close> fails.\<close>

definition trans_receive :: "'g receive \<Rightarrow> bytes option \<Rightarrow> 'g \<Rightarrow> ('g \<times> msg option) option" where
  "trans_receive rc d g = (case d of None \<Rightarrow> None | Some b \<Rightarrow> rc (take TRANS_BUF_SIZ b) g)"

section \<open>The abstract server\<close>

definition answer_to :: "'a \<Rightarrow> msg option \<Rightarrow> ('a \<times> msg) list" where
  "answer_to a r = (case r of None \<Rightarrow> [] | Some m \<Rightarrow> [(a, m)])"

primrec serve :: "'g receive \<Rightarrow> (bytes \<times> 'a) list \<Rightarrow> 'g \<Rightarrow> ('g \<times> ('a \<times> msg) list) option" where
  "serve rc [] g = Some (g, [])"
| "serve rc (d # ds) g =
     do { (g1, r) \<leftarrow> trans_receive rc (Some (fst d)) g; (g2, out) \<leftarrow> serve rc ds g1; Some (g2, answer_to (snd d) r @ out) }"

text \<open>Events of a transport: a datagram arrives; the socket can take data, and \<open>sendto\<close> succeeds or fails; something else, which is neither.\<close>

datatype 'a tev = Ev_In bytes 'a | Ev_Out bool | Ev_Other

primrec datagrams :: "'a tev list \<Rightarrow> (bytes \<times> 'a) list" where
  "datagrams [] = []"
| "datagrams (e # es) = (case e of Ev_In b a \<Rightarrow> (b, a) # datagrams es | _ \<Rightarrow> datagrams es)"

definition failures :: "'a tev list \<Rightarrow> nat" where
  "failures es = length (filter (\<lambda>e. e = Ev_Out False) es)"

lemma failures_simps [simp]:
  "failures [] = 0" "failures (e # es) = (if e = Ev_Out False then Suc (failures es) else failures es)"
  by (simp_all add: failures_def)

text \<open>What a transport does on an event.\<close>

record ('s, 'a) tev_ops =
  on_read :: "bytes \<Rightarrow> 'a \<Rightarrow> 's \<Rightarrow> 's option"
  on_write :: "bool \<Rightarrow> 's \<Rightarrow> 's option"
  on_other :: "'s \<Rightarrow> 's option"

definition tev_step :: "('s, 'a) tev_ops \<Rightarrow> 'a tev \<Rightarrow> 's \<Rightarrow> 's option" where
  "tev_step ops e s = (case e of Ev_In b a \<Rightarrow> on_read ops b a s | Ev_Out taken \<Rightarrow> on_write ops taken s | Ev_Other \<Rightarrow> on_other ops s)"

text \<open>The events, for as long as the loop of the transport runs.\<close>

primrec tev_run :: "('s \<Rightarrow> bool) \<Rightarrow> ('s, 'a) tev_ops \<Rightarrow> 'a tev list \<Rightarrow> 's \<Rightarrow> 's option" where
  "tev_run running ops [] s = Some s"
| "tev_run running ops (e # es) s =
     (if running s then do { s' \<leftarrow> tev_step ops e s; tev_run running ops es s' } else Some s)"

text \<open>The schedules a transport allows, by the number of waiting answers: data are sent only while an answer waits, and fewer than \<open>cap\<close>
  answers may wait when a datagram is read.\<close>

fun tev_allowed :: "nat option \<Rightarrow> 'g receive \<Rightarrow> 'a tev list \<Rightarrow> 'g \<Rightarrow> nat \<Rightarrow> bool" where
  "tev_allowed cap rc [] g n = True"
| "tev_allowed cap rc (Ev_In b a # es) g n =
     ((case cap of None \<Rightarrow> True | Some c \<Rightarrow> n < c) \<and>
      (case trans_receive rc (Some b) g of None \<Rightarrow> False
       | Some (g', r) \<Rightarrow> tev_allowed cap rc es g' (n + length (answer_to a r))))"
| "tev_allowed cap rc (Ev_Out taken # es) g n = (n > 0 \<and> tev_allowed cap rc es g (n - 1))"
| "tev_allowed cap rc (Ev_Other # es) g n = tev_allowed cap rc es g n"

text \<open>The events that took place: all of them if the loop still runs, else those up to the failing \<open>sendto\<close> that has ended it.\<close>

definition took_place :: "bool \<Rightarrow> 'a tev list \<Rightarrow> 'a tev list \<Rightarrow> bool" where
  "took_place runs es1 es \<longleftrightarrow> (if runs then es1 = es else \<exists>es0. es1 = es0 @ [Ev_Out False] \<and> prefix es1 es)"

lemma took_place_Cons: "took_place runs es1 es \<Longrightarrow> took_place runs (e # es1) (e # es)"
  by (auto simp: took_place_def split: if_splits)

text \<open>All of \<open>all\<close> but \<open>n\<close> elements, in order.\<close>

definition all_but :: "nat \<Rightarrow> 'x list \<Rightarrow> 'x list \<Rightarrow> bool" where
  "all_but n all xs \<longleftrightarrow> subseq xs all \<and> length all = length xs + n"

lemma all_but_0 [simp]: "all_but 0 all xs \<longleftrightarrow> xs = all"
  by (auto simp: all_but_def subseq_same_length)

lemma all_but_drop: "all_but n (xs @ ys) zs \<Longrightarrow> all_but (Suc n) (xs @ m # ys) zs"
proof (unfold all_but_def, elim conjE, intro conjI)
  assume "subseq zs (xs @ ys)"
  then show "subseq zs (xs @ m # ys)"
    by (rule subseq_order.trans) (intro list_emb_append_mono list_emb_Cons subseq_order.refl)
qed simp

section \<open>The contract of a transport\<close>

locale transport =
  fixes rc :: "'g receive" and ok :: "'s \<Rightarrow> bool" and agent :: "'s \<Rightarrow> 'g"
    and waiting :: "'s \<Rightarrow> ('a \<times> msg) list" and sent :: "'s \<Rightarrow> ('a \<times> msg) list" and cap :: "nat option"
    and running :: "'s \<Rightarrow> bool" and stops :: bool and ops :: "('s, 'a) tev_ops"
  assumes runs: "ok s \<Longrightarrow> running s"
    and read: "ok s \<Longrightarrow> (\<And>c. cap = Some c \<Longrightarrow> length (waiting s) < c) \<Longrightarrow> trans_receive rc (Some b) (agent s) = Some (g, r) \<Longrightarrow>
      \<exists>s'. on_read ops b a s = Some s' \<and> ok s' \<and> agent s' = g \<and> sent s' = sent s \<and> waiting s' = waiting s @ answer_to a r"
    and "write": "ok s \<Longrightarrow> waiting s = m # ms \<Longrightarrow> \<exists>s'. on_write ops taken s = Some s' \<and> (taken \<or> running s' \<longrightarrow> ok s') \<and>
      (\<not> taken \<and> stops \<longrightarrow> \<not> running s') \<and> agent s' = agent s \<and> sent s' = sent s @ (if taken then [m] else []) \<and> waiting s' = ms"
    and other: "ok s \<Longrightarrow> \<exists>s'. on_other ops s = Some s' \<and> ok s' \<and> agent s' = agent s \<and> sent s' = sent s \<and> waiting s' = waiting s"
begin

lemma run_read:
  assumes "ok s" "tev_allowed cap rc (Ev_In b a # es) (agent s) (length (waiting s))"
  obtains s1 g r where "on_read ops b a s = Some s1" "ok s1" "agent s1 = g" "sent s1 = sent s" "waiting s1 = waiting s @ answer_to a r"
    "trans_receive rc (Some b) (agent s) = Some (g, r)" "tev_allowed cap rc es (agent s1) (length (waiting s1))"
proof -
  obtain g r where r: "trans_receive rc (Some b) (agent s) = Some (g, r)"
      "tev_allowed cap rc es g (length (waiting s) + length (answer_to a r))"
    using assms(2) by (auto split: option.splits)
  have "\<And>c. cap = Some c \<Longrightarrow> length (waiting s) < c"
    using assms(2) by simp
  from read [OF assms(1) this r(1), of a] show thesis
    using r that by auto
qed

lemma run_write:
  assumes "ok s" "tev_allowed cap rc (Ev_Out taken # es) (agent s) (length (waiting s))"
  obtains s1 m where "on_write ops taken s = Some s1" "taken \<or> running s1 \<longrightarrow> ok s1" "\<not> taken \<and> stops \<longrightarrow> \<not> running s1" "agent s1 = agent s"
    "waiting s = m # waiting s1" "sent s1 = sent s @ (if taken then [m] else [])" "tev_allowed cap rc es (agent s1) (length (waiting s1))"
proof -
  obtain m ms where w: "waiting s = m # ms"
    using assms(2) by (cases "waiting s") auto
  from "write" [OF assms(1) w, of taken] show thesis
    using w that assms(2) by auto
qed

text \<open>Any allowed schedule: the datagrams are handled in order; what has been sent and what waits are all the answers but those whose \<open>sendto\<close>
  has failed, which is at most one if a failure ends the loop (\<open>stops\<close>).\<close>

lemma run_refines:
  assumes "ok s" "tev_allowed cap rc es (agent s) (length (waiting s))"
  shows "\<exists>s' es1 out. tev_run running ops es s = Some s' \<and> took_place (running s') es1 es \<and> (running s' \<longrightarrow> ok s') \<and>
    serve rc (datagrams es1) (agent s) = Some (agent s', out) \<and>
    all_but (failures es1) (sent s @ waiting s @ out) (sent s' @ waiting s') \<and> prefix (sent s) (sent s') \<and>
    (stops \<longrightarrow> failures es1 = (if running s' then 0 else 1))"
  using assms
proof (induction es arbitrary: s)
  case Nil
  then show ?case
    by (intro exI [of _ s] exI [of _ "[]"]) (simp add: took_place_def runs)
next
  case (Cons e es)
  note go = runs [OF Cons.prems(1)]
  show ?case
  proof (cases e)
    case (Ev_In b a)
    then obtain s1 g r where s1: "on_read ops b a s = Some s1" "ok s1" "agent s1 = g" "sent s1 = sent s" "waiting s1 = waiting s @ answer_to a r"
        "trans_receive rc (Some b) (agent s) = Some (g, r)" "tev_allowed cap rc es (agent s1) (length (waiting s1))"
      using run_read [OF Cons.prems(1)] Cons.prems(2) by blast
    obtain s' es1 out where 1: "tev_run running ops es s1 = Some s'" "took_place (running s') es1 es" "running s' \<longrightarrow> ok s'"
        "serve rc (datagrams es1) (agent s1) = Some (agent s', out)"
        "all_but (failures es1) (sent s1 @ waiting s1 @ out) (sent s' @ waiting s')" "prefix (sent s1) (sent s')"
          "stops \<longrightarrow> failures es1 = (if running s' then 0 else 1)"
      using Cons.IH [OF s1(2,7)] by blast
    then show ?thesis
      using Ev_In s1 go took_place_Cons [OF 1(2), of e]
      by (intro exI [of _ s'] exI [of _ "e # es1"] exI [of _ "answer_to a r @ out"]) (simp add: tev_step_def)
  next
    case (Ev_Out taken)
    then obtain s1 m where s1: "on_write ops taken s = Some s1" "taken \<or> running s1 \<longrightarrow> ok s1" "\<not> taken \<and> stops \<longrightarrow> \<not> running s1" "agent s1 = agent s"
        "waiting s = m # waiting s1" "sent s1 = sent s @ (if taken then [m] else [])" "tev_allowed cap rc es (agent s1) (length (waiting s1))"
      using run_write [OF Cons.prems(1)] Cons.prems(2) by blast
    show ?thesis
    proof (cases "running s1")
      case True
      then obtain s' es1 out where 1: "tev_run running ops es s1 = Some s'" "took_place (running s') es1 es" "running s' \<longrightarrow> ok s'"
          "serve rc (datagrams es1) (agent s1) = Some (agent s', out)"
          "all_but (failures es1) (sent s1 @ waiting s1 @ out) (sent s' @ waiting s')" "prefix (sent s1) (sent s')"
          "stops \<longrightarrow> failures es1 = (if running s' then 0 else 1)"
        using Cons.IH [OF _ s1(7)] s1(2) by blast
      then have "all_but (failures (e # es1)) (sent s @ waiting s @ out) (sent s' @ waiting s')"
        using Ev_Out s1(5,6) all_but_drop [of "failures es1" "sent s" "waiting s1 @ out"] by (cases taken) auto
      moreover have "prefix (sent s) (sent s')"
        using 1(6) s1(6) by (auto dest: append_prefixD)
      ultimately show ?thesis
        using Ev_Out s1(1,3,4) go True 1 took_place_Cons [OF 1(2), of e]
        by (intro exI [of _ s'] exI [of _ "e # es1"] exI [of _ out]) (auto simp: tev_step_def)
    next
      case False
      then have f: "\<not> taken" "tev_run running ops es s1 = Some s1"
        using s1(2) runs by (auto, cases es) auto
      then have "took_place False [e] (e # es)"
        using Ev_Out by (auto simp: took_place_def)
      moreover have "all_but 1 (sent s @ waiting s) (sent s1 @ waiting s1)"
        using f(1) s1(5,6) all_but_drop [of 0 "sent s" "waiting s1" _ m] by simp
      ultimately show ?thesis
        using Ev_Out f s1(1,4,6) go False
        by (intro exI [of _ s1] exI [of _ "[e]"] exI [of _ "[]"]) (simp add: tev_step_def)
    qed
  next
    case Ev_Other
    obtain s1 where s1: "on_other ops s = Some s1" "ok s1" "agent s1 = agent s" "sent s1 = sent s" "waiting s1 = waiting s"
      using other [OF Cons.prems(1)] by blast
    then obtain s' es1 out where 1: "tev_run running ops es s1 = Some s'" "took_place (running s') es1 es" "running s' \<longrightarrow> ok s'"
        "serve rc (datagrams es1) (agent s1) = Some (agent s', out)"
        "all_but (failures es1) (sent s1 @ waiting s1 @ out) (sent s' @ waiting s')" "prefix (sent s1) (sent s')"
          "stops \<longrightarrow> failures es1 = (if running s' then 0 else 1)"
      using Cons.IH [OF s1(2)] Cons.prems(2) Ev_Other by auto
    then show ?thesis
      using Ev_Other s1 go took_place_Cons [OF 1(2), of e]
      by (intro exI [of _ s'] exI [of _ "e # es1"] exI [of _ out]) (simp add: tev_step_def)
  qed
qed

text \<open>Every waiting answer is sent by as many write events that succeed.\<close>

lemma drain:
  assumes "ok s"
  shows "\<exists>s'. tev_run running ops (replicate (length (waiting s)) (Ev_Out True)) s = Some s' \<and> ok s' \<and> waiting s' = []
    \<and> sent s' = sent s @ waiting s"
  using assms
proof (induction "waiting s" arbitrary: s)
  case Nil
  then show ?case
    by auto
next
  case (Cons m ms)
  obtain s1 where "on_write ops True s = Some s1" "ok s1" "sent s1 = sent s @ [m]" "waiting s1 = ms"
    using "write" [OF Cons.prems, of m ms True] Cons.hyps(2) by auto
  with Cons.hyps(1) [of s1] Cons.hyps(2) [symmetric] show ?case
    by (auto simp: tev_step_def runs [OF Cons.prems])
qed

end

section \<open>A whole exchange\<close>

text \<open>For evaluation, the loop over the views without binds: their continuations would be evaluated too early.\<close>

lemma views_search_code [code]:
  "views_search lua root vs nxt oid view r w =
     (case nxt view of
        None \<Rightarrow> map_option (\<lambda>r'. (r', w)) (views_end oid r)
      | Some h \<Rightarrow>
          (case view_at vs h of None \<Rightarrow> None | Some v \<Rightarrow>
            (case mib_tree_search lua root (v_oid v) oid r w of None \<Rightarrow> None | Some (_, r', w') \<Rightarrow>
               if (sr_err_stat r' = 0 \<and> MIB_TAG_VALID (var_tag (sr_var r'))) \<or> oid_cmp oid (v_oid v) < 0
               then Some (r', w')
               else views_search lua root vs nxt oid (Some h) r' w')))"
  by (subst views_search.simps) (auto split: option.split bind_splits)

definition get_130 :: bytes where
  "get_130 = [0x30, 0x1B, 0x02, 0x01, 0x00, 0x04, 0x01, 0x70, 0xA0, 0x13, 0x02, 0x01, 0x01, 0x02, 0x01, 0x00, 0x02, 0x01, 0x00,
     0x30, 0x08, 0x30, 0x06, 0x06, 0x02, 0x2B, 0x00, 0x05, 0x00]"

definition resp_130 :: bytes where
  "resp_130 = [0x30, 0x1C, 0x02, 0x01, 0x00, 0x04, 0x01, 0x70, 0xA2, 0x14, 0x02, 0x01, 0x01, 0x02, 0x01, 0x00, 0x02, 0x01, 0x00,
     0x30, 0x09, 0x30, 0x07, 0x06, 0x02, 0x2B, 0x00, 0x02, 0x01, 0x2A]"

definition const_handler :: "unit lua" where
  "const_handler cb args w = (Some \<lparr>lr_err = echo_value 0, lr_oid = echo_value 0, lr_val = echo_value 42, lr_tag = echo_value 2\<rparr>, w)"

definition sdg_130 :: snmp_datagram where
  "sdg_130 = resp_type (the (snmp_decode get_130 snmp_datagram_clear))"

definition res_130 :: oid_search_res where
  "res_130 = fst (the (mib_get const_handler tree1 db_one sdg_130 vb_130 (the (vb_in_value vb_130 (res_zero MIB_REQ_GET))) ()))"

lemma get_130_decode:
  "(case snmp_decode get_130 snmp_datagram_clear of None \<Rightarrow> False
    | Some d \<Rightarrow> pdu_type (hdr d) = MIB_REQ_GET \<and> vb_in_list d = [vb_130])"
  by code_simp

lemma get_130_header: "rd get_130 0 = Some ASN1_TAG_SEQ" "ber_length_dec get_130 1 = Some (1, 27)" "length get_130 = 29"
  by code_simp+

lemma get_130_value: "vb_in_value vb_130 (res_zero MIB_REQ_GET) \<noteq> None"
  by code_simp

lemma get_130_search:
  "mib_get const_handler tree1 db_one sdg_130 vb_130 (the (vb_in_value vb_130 (res_zero MIB_REQ_GET))) () \<noteq> None"
  by code_simp

lemma get_130_out: "vb_out_value res_130 (\<lambda>_. ucast (var_len (sr_var res_130))) = Some [0x2A]" "sr_err_stat res_130 = 0" 
  "vb_out_make res_130 (var_tag (sr_var res_130)) [0x2A] = Some vb_42"
  by code_simp+

lemma get_130_response: "map_option snd (snmp_response (vb_out_add vb_42 sdg_130)) = Some (resp_130, 30)"
  by code_simp

text \<open>A whole exchange: the agent answers the datagram of a GET request of 1.3.0 with the datagram that has the value.\<close>

lemma get_130_answered:
  "map_option snd (snmpd_receive const_handler tree1 db_one get_130 (sdg, ())) = Some (Some (resp_130, 30))"
proof -
  let ?mg = "mib_get const_handler tree1 db_one"
  obtain d where d: "snmp_decode get_130 snmp_datagram_clear = Some d" "pdu_type (hdr d) = MIB_REQ_GET" "vb_in_list d = [vb_130]"
    using get_130_decode by (auto split: option.splits)
  then have s: "resp_type d = sdg_130" "vb_in_list sdg_130 = [vb_130]"
    by (simp_all add: sdg_130_def resp_type_def)
  obtain r0 where r0: "vb_in_value vb_130 (res_zero MIB_REQ_GET) = Some r0"
    using get_130_value by blast
  then obtain r w where r: "?mg sdg_130 vb_130 r0 () = Some (r, w)"
    using get_130_search by auto
  then have [simp]: "r = res_130"
    using r0 by (simp add: res_130_def)
  have "each_vb (read_step ?mg) 0 [vb_130] (sdg_130, res_zero MIB_REQ_GET, ()) = Some (vb_out_add vb_42 sdg_130, res_130, ())"
    using r0 r get_130_out by (simp add: read_step_def mark_error_def)
  then have "snmp_get const_handler tree1 db_one sdg_130 () = respond (vb_out_add vb_42 sdg_130, res_130, ())"
    by (simp add: snmp_get_def s)
  then have "snmpd_recv const_handler tree1 db_one sdg get_130 () = respond (vb_out_add vb_42 sdg_130, res_130, ())"
    using d s get_130_header by (simp add: snmpd_recv_def snmp_request_dispatch_def)
  then show ?thesis
    using get_130_response by (auto simp: snmpd_receive_def respond_def)
qed
lemma get_130_received:
  "\<exists>sdg'. trans_receive (snmpd_receive const_handler tree1 db_one) (Some get_130) (sdg, ()) = Some ((sdg', ()), Some (resp_130, 30))"
  using get_130_answered [of sdg] get_130_header(3) by (auto simp: trans_receive_def TRANS_BUF_SIZ_def)

end
