(* ===== verification/Udp_Libevent.thy ===== *)
theory Udp_Libevent
  imports Transport
begin

text \<open>
  The UDP transport on libevent (\<open>core/snmp_udp_libevent_transport.c\<close>): answers wait in a queue, and a write event is registered
  for each. The library is a parameter: \<open>le_base_new\<close> is \<open>event_base_new\<close>, \<open>le_new\<close> is \<open>event_new\<close> of a write event or of a persistent read
  event, \<open>le_add\<close> is \<open>event_add\<close>, \<open>le_free\<close> is \<open>event_free\<close> (\<open>None\<close> on an event that is not allocated), \<open>le_fire\<close> is what the library does with a
  pending write event before it makes the callback. \<open>libevent_ok\<close> states what its documentation says of them: a new base has no
  events, a new event is fresh, an event that is added is pending, a freed event is not, and a non-persistent event is no longer pending
  when its callback is made. \<open>event_base_dispatch\<close> is a sequence of events of the socket. After a failing \<open>sendto\<close> the code calls
  \<open>event_loopbreak\<close>, which ends the loop of the current base; as the base was made by \<open>event_base_new\<close>, it depends on the library if that is
  the loop of the transport (\<open>le_breaks\<close>).

  The transport fulfils the contract with an unbounded queue, whichever of the pending events the library chooses.
\<close>

section \<open>Definitions\<close>

record ('b, 'e) libevent =
  le_live :: "'b \<Rightarrow> 'e set"
  le_pending :: "'b \<Rightarrow> 'e set"
  le_writes :: "'b \<Rightarrow> 'e set"
  le_base_new :: 'b
  le_new :: "bool \<Rightarrow> 'b \<Rightarrow> 'e \<times> 'b"
  le_add :: "'e \<Rightarrow> 'b \<Rightarrow> 'b"
  le_free :: "'e \<Rightarrow> 'b \<Rightarrow> 'b option"
  le_fire :: "'e \<Rightarrow> 'b \<Rightarrow> 'b"
  le_breaks :: bool

text \<open>The allocated events, the pending ones, and those of them that are write events.\<close>

definition le_sets :: "('b, 'e) libevent \<Rightarrow> 'b \<Rightarrow> 'e set \<times> 'e set \<times> 'e set" where
  "le_sets lib b = (le_live lib b, le_pending lib b, le_writes lib b)"

definition libevent_ok :: "('b, 'e) libevent \<Rightarrow> bool" where
  "libevent_ok lib \<longleftrightarrow> le_sets lib (le_base_new lib) = ({}, {}, {}) \<and>
     (\<forall>b live pending writes. le_sets lib b = (live, pending, writes) \<longrightarrow>
        (\<forall>w e b'. le_new lib w b = (e, b') \<longrightarrow>
           e \<notin> live \<and> le_sets lib b' = (insert e live, pending, if w then insert e writes else writes - {e})) \<and>
        (\<forall>e \<in> live. le_sets lib (le_add lib e b) = (live, insert e pending, writes) \<and>
           (\<exists>b'. le_free lib e b = Some b' \<and> le_sets lib b' = (live - {e}, pending - {e}, writes - {e}))) \<and>
        (\<forall>e \<in> pending \<inter> writes. le_sets lib (le_fire lib e b) = (live, pending - {e}, writes)))"

lemma libevent_okD:
  assumes "libevent_ok lib" "le_sets lib b = (live, pending, writes)"
  shows "le_new lib w b = (e, b') \<Longrightarrow>
      e \<notin> live \<and> le_sets lib b' = (insert e live, pending, if w then insert e writes else writes - {e})"
    and "e \<in> live \<Longrightarrow> le_sets lib (le_add lib e b) = (live, insert e pending, writes)"
    and "e \<in> live \<Longrightarrow> \<exists>b'. le_free lib e b = Some b' \<and> le_sets lib b' = (live - {e}, pending - {e}, writes - {e})"
    and "e \<in> pending \<Longrightarrow> e \<in> writes \<Longrightarrow> le_sets lib (le_fire lib e b) = (live, pending - {e}, writes)"
  using assms unfolding libevent_ok_def by blast+

record ('g, 'a, 'b, 'e) lev =
  lv_base :: 'b
  lv_recv_event :: "'e option"
  lv_send_event :: "'e option"
  lv_client :: "'a option"
  lv_queue :: "('a \<times> msg) list"
  lv_broken :: bool
  lv_exit :: bool
  lv_agent :: 'g
  lv_sent :: "('a \<times> msg) list"

text \<open>Registering a write event, as \<open>snmp_write_cb\<close> and \<open>transport_send\<close> do.\<close>

definition lv_register :: "('b, 'e) libevent \<Rightarrow> ('g, 'a, 'b, 'e) lev \<Rightarrow> ('g, 'a, 'b, 'e) lev" where
  "lv_register lib st = (let (e, b) = le_new lib True (lv_base st) in st\<lparr>lv_base := le_add lib e b, lv_send_event := Some e\<rparr>)"

definition snmp_write_cb :: "('b, 'e) libevent \<Rightarrow> bool \<Rightarrow> ('g, 'a, 'b, 'e) lev \<Rightarrow> ('g, 'a, 'b, 'e) lev option" where
  "snmp_write_cb lib sent st =
     (case lv_queue st of
        [] \<Rightarrow> Some st
      | en # rest \<Rightarrow>
          do { let st1 = (if sent then st\<lparr>lv_sent := lv_sent st @ [en]\<rparr> else st\<lparr>lv_broken := True\<rparr>);
               e \<leftarrow> lv_send_event st1;
               b \<leftarrow> le_free lib e (lv_base st1);
               let st2 = st1\<lparr>lv_queue := rest, lv_base := b\<rparr>;
               Some (if rest = [] then st2 else lv_register lib st2) })"

definition libevent_transport_send :: "('b, 'e) libevent \<Rightarrow> msg \<Rightarrow> ('g, 'a, 'b, 'e) lev \<Rightarrow> ('g, 'a, 'b, 'e) lev option" where
  "libevent_transport_send lib m st =
     do { c \<leftarrow> lv_client st; Some (lv_register lib (st\<lparr>lv_queue := lv_queue st @ [(c, m)]\<rparr>)) }"

definition snmp_read_cb ::
  "('b, 'e) libevent \<Rightarrow> 'g receive \<Rightarrow> (bytes \<times> 'a) option \<Rightarrow> ('g, 'a, 'b, 'e) lev \<Rightarrow> ('g, 'a, 'b, 'e) lev option" where
  "snmp_read_cb lib rc d st =
     do { let st1 = st\<lparr>lv_client := map_option snd d, lv_broken := lv_broken st \<or> d = None\<rparr>;
          (g, r) \<leftarrow> trans_receive rc (map_option fst d) (lv_agent st1);
          let st2 = st1\<lparr>lv_agent := g\<rparr>;
          (case r of None \<Rightarrow> Some st2 | Some m \<Rightarrow> libevent_transport_send lib m st2) }"

text \<open>\<open>transport_init\<close> empties the queue.\<close>

definition libevent_transport_init :: "int \<Rightarrow> bool \<Rightarrow> ('g, 'a, 'b, 'e) lev \<Rightarrow> int \<times> ('g, 'a, 'b, 'e) lev" where
  "libevent_transport_init sock bound st =
     (if sock < 0 then (- 1, st) else (if bound then 0 else - 1, st\<lparr>lv_queue := []\<rparr>))"

text \<open>The library runs the callback of some pending write event; \<open>pick\<close> is its choice, \<open>sent\<close> the result of \<open>sendto\<close>.\<close>

definition lv_on_write :: "('b, 'e) libevent \<Rightarrow> ('b \<Rightarrow> 'e) \<Rightarrow> bool \<Rightarrow> ('g, 'a, 'b, 'e) lev \<Rightarrow> ('g, 'a, 'b, 'e) lev option" where
  "lv_on_write lib pick sent st =
     do { e \<leftarrow> (if pick (lv_base st) \<in> le_pending lib (lv_base st) \<inter> le_writes lib (lv_base st) then Some (pick (lv_base st)) else lv_send_event st);
          snmp_write_cb lib sent (st\<lparr>lv_base := le_fire lib e (lv_base st)\<rparr>) }"

text \<open>A write event that is still pending when the queue is empty fires, if there is one.\<close>

definition lv_on_other :: "('b, 'e) libevent \<Rightarrow> ('b \<Rightarrow> 'e) \<Rightarrow> ('g, 'a, 'b, 'e) lev \<Rightarrow> ('g, 'a, 'b, 'e) lev option" where
  "lv_on_other lib pick st =
     (if lv_queue st = [] \<and> pick (lv_base st) \<in> le_pending lib (lv_base st) \<inter> le_writes lib (lv_base st)
      then lv_on_write lib pick True st else Some st)"

definition lv_on_read :: "('b, 'e) libevent \<Rightarrow> 'g receive \<Rightarrow> bytes \<Rightarrow> 'a \<Rightarrow> ('g, 'a, 'b, 'e) lev \<Rightarrow> ('g, 'a, 'b, 'e) lev option" where
  "lv_on_read lib rc b a = snmp_read_cb lib rc (Some (b, a))"

definition lv_ops :: "('b, 'e) libevent \<Rightarrow> ('b \<Rightarrow> 'e) \<Rightarrow> 'g receive \<Rightarrow> (('g, 'a, 'b, 'e) lev, 'a) tev_ops" where
  "lv_ops lib pick rc = \<lparr>on_read = lv_on_read lib rc, on_write = lv_on_write lib pick, on_other = lv_on_other lib pick\<rparr>"

definition lv_running :: "('b, 'e) libevent \<Rightarrow> ('g, 'a, 'b, 'e) lev \<Rightarrow> bool" where
  "lv_running lib st \<longleftrightarrow> \<not> (le_breaks lib \<and> lv_broken st)"

definition libevent_transport_running ::
  "('b, 'e) libevent \<Rightarrow> ('b \<Rightarrow> 'e) \<Rightarrow> 'g receive \<Rightarrow> 'a tev list \<Rightarrow> ('g, 'a, 'b, 'e) lev \<Rightarrow> ('g, 'a, 'b, 'e) lev option" where
  "libevent_transport_running lib pick rc es st =
     (let (e, b) = le_new lib False (le_base_new lib)
      in tev_run (lv_running lib) (lv_ops lib pick rc) es (st\<lparr>lv_base := le_add lib e b, lv_recv_event := Some e, lv_broken := False\<rparr>))"

definition libevent_transport_stop :: "('g, 'a, 'b, 'e) lev \<Rightarrow> ('g, 'a, 'b, 'e) lev" where
  "libevent_transport_stop st = st\<lparr>lv_exit := True\<rparr>"

section \<open>The contract\<close>

text \<open>The read event stays pending, and while answers wait, the last write event is allocated and pending: no answer is stuck, and no event is freed
  twice.\<close>

definition lv_ok :: "('b, 'e) libevent \<Rightarrow> ('g, 'a, 'b, 'e) lev \<Rightarrow> bool" where
  "lv_ok lib st = (case le_sets lib (lv_base st) of (live, pending, writes) \<Rightarrow> pending \<subseteq> live \<and>
     (\<exists>r. lv_recv_event st = Some r \<and> r \<in> pending - writes) \<and>
     (lv_queue st \<noteq> [] \<longrightarrow> (\<exists>e. lv_send_event st = Some e \<and> e \<in> pending \<inter> writes)))"

lemma lv_register_ok:
  assumes "libevent_ok lib" "lv_ok lib (st\<lparr>lv_queue := []\<rparr>)"
  shows "lv_ok lib (lv_register lib st)" "lv_queue (lv_register lib st) = lv_queue st" "lv_sent (lv_register lib st) = lv_sent st"
    "lv_agent (lv_register lib st) = lv_agent st" "lv_broken (lv_register lib st) = lv_broken st"
proof -
  obtain e b where e: "le_new lib True (lv_base st) = (e, b)"
    by force
  obtain live pending writes where s: "le_sets lib (lv_base st) = (live, pending, writes)"
    by (cases "le_sets lib (lv_base st)") auto
  have 1: "e \<notin> live" "le_sets lib b = (insert e live, pending, insert e writes)"
    using libevent_okD(1) [OF assms(1) s e] by simp_all
  have "le_sets lib (le_add lib e b) = (insert e live, insert e pending, insert e writes)"
    using libevent_okD(2) [OF assms(1) 1(2)] by simp
  then show "lv_ok lib (lv_register lib st)" "lv_queue (lv_register lib st) = lv_queue st"
      "lv_sent (lv_register lib st) = lv_sent st" "lv_agent (lv_register lib st) = lv_agent st"
      "lv_broken (lv_register lib st) = lv_broken st"
    using assms(2) e s 1(1) by (auto simp: lv_register_def lv_ok_def)
qed

lemma lv_read:
  assumes "libevent_ok lib" "lv_ok lib st" "trans_receive rc (Some b) (lv_agent st) = Some (g, r)"
  shows "\<exists>st'. lv_on_read lib rc b a st = Some st' \<and> lv_ok lib st' \<and> lv_agent st' = g \<and> lv_sent st' = lv_sent st
    \<and> lv_queue st' = lv_queue st @ answer_to a r \<and> lv_broken st' = lv_broken st"
proof (cases r)
  case None
  then show ?thesis
    using assms(2,3) by (simp add: lv_on_read_def snmp_read_cb_def answer_to_def lv_ok_def split: prod.splits)
next
  case (Some m)
  let ?st = "st\<lparr>lv_client := Some a, lv_agent := g, lv_queue := lv_queue st @ [(a, m)]\<rparr>"
  have "lv_ok lib (?st\<lparr>lv_queue := []\<rparr>)"
    using assms(2) by (auto simp: lv_ok_def split: prod.splits)
  then show ?thesis
    using Some assms(3) lv_register_ok [OF assms(1), of ?st]
    by (simp add: lv_on_read_def snmp_read_cb_def libevent_transport_send_def answer_to_def)
qed

lemma lv_write:
  assumes "libevent_ok lib" "lv_ok lib st" "lv_queue st = m # ms"
  shows "\<exists>st'. lv_on_write lib pick sent st = Some st' \<and> lv_ok lib st' \<and> lv_agent st' = lv_agent st \<and>
    lv_sent st' = lv_sent st @ (if sent then [m] else []) \<and> lv_queue st' = ms \<and> lv_broken st' = (lv_broken st \<or> \<not> sent)"
proof -
  let ?b = "lv_base st"
  obtain live pending writes where s: "le_sets lib ?b = (live, pending, writes)"
    by (cases "le_sets lib ?b") auto
  obtain e where e: "lv_send_event st = Some e" "e \<in> pending" "e \<in> writes" "e \<in> live"
    using assms(2,3) s by (auto simp: lv_ok_def)
  define f where "f = (if pick ?b \<in> pending \<inter> writes then pick ?b else e)"
  have f: "f \<in> pending" "f \<in> writes"
    using e(2,3) by (auto simp: f_def)
  let ?b1 = "le_fire lib f ?b"
  note b1 = libevent_okD(4) [OF assms(1) s f]
  obtain b2 where b2: "le_free lib e ?b1 = Some b2" "le_sets lib b2 = (live - {e}, pending - {f} - {e}, writes - {e})"
    using libevent_okD(3) [OF assms(1) b1 e(4)] by blast
  let ?st = "(if sent then st\<lparr>lv_sent := lv_sent st @ [m]\<rparr> else st\<lparr>lv_broken := True\<rparr>)\<lparr>lv_queue := ms, lv_base := b2\<rparr>"
  have "lv_ok lib (?st\<lparr>lv_queue := []\<rparr>)"
    using assms(2) b2(2) s e(3) f(2) by (auto simp: lv_ok_def)
  moreover have "(if pick ?b \<in> le_pending lib ?b \<inter> le_writes lib ?b then Some (pick ?b) else lv_send_event st) = Some f"
    using e(1) s by (simp add: f_def le_sets_def)
  then have "lv_on_write lib pick sent st = Some (if ms = [] then ?st else lv_register lib ?st)"
    unfolding lv_on_write_def using e(1) b2(1) assms(3) by (simp add: snmp_write_cb_def)
  ultimately show ?thesis
    using lv_register_ok [OF assms(1), of ?st] by (cases ms; cases sent) (simp_all add: lv_ok_def)
qed

lemma lv_other:
  assumes "libevent_ok lib" "lv_ok lib st"
  shows "\<exists>st'. lv_on_other lib pick st = Some st' \<and> lv_ok lib st' \<and> lv_agent st' = lv_agent st \<and> lv_sent st' = lv_sent st
    \<and> lv_queue st' = lv_queue st \<and> lv_broken st' = lv_broken st"
proof (cases "lv_queue st = [] \<and> pick (lv_base st) \<in> le_pending lib (lv_base st) \<inter> le_writes lib (lv_base st)")
  case True
  obtain live pending writes where s: "le_sets lib (lv_base st) = (live, pending, writes)"
    by (cases "le_sets lib (lv_base st)") auto
  then have f: "pick (lv_base st) \<in> pending" "pick (lv_base st) \<in> writes"
    using True by (auto simp: le_sets_def)
  let ?st = "st\<lparr>lv_base := le_fire lib (pick (lv_base st)) (lv_base st)\<rparr>"
  have "lv_ok lib ?st"
    using assms(2) libevent_okD(4) [OF assms(1) s f] s f(2) True by (auto simp: lv_ok_def)
  moreover have "lv_on_other lib pick st = Some ?st"
    using True by (simp add: lv_on_other_def lv_on_write_def snmp_write_cb_def)
  ultimately show ?thesis
    by simp
qed (use assms(2) in \<open>auto simp: lv_on_other_def\<close>)

lemma lv_starts:
  assumes "libevent_ok lib" "lv_queue st = []" "le_new lib False (le_base_new lib) = (e, b)"
  shows "lv_ok lib (st\<lparr>lv_base := le_add lib e b, lv_recv_event := Some e, lv_broken := False\<rparr>)"
proof -
  have "le_sets lib (le_base_new lib) = ({}, {}, {})"
    using assms(1) by (simp add: libevent_ok_def)
  from libevent_okD(1) [OF assms(1) this assms(3)] have "le_sets lib b = ({e}, {}, {})"
    by simp
  from libevent_okD(2) [OF assms(1) this, of e] show ?thesis
    using assms(2) by (simp add: lv_ok_def)
qed

lemma libevent_transport:
  assumes "libevent_ok lib"
  shows "transport rc (\<lambda>st. lv_ok lib st \<and> lv_running lib st) lv_agent lv_queue lv_sent None (lv_running lib) (le_breaks lib) (lv_ops lib pick rc)"
proof
  fix s :: "('c, 'd, 'a, 'b) lev" and b a g r
  assume "lv_ok lib s \<and> lv_running lib s" "trans_receive rc (Some b) (lv_agent s) = Some (g, r)"
  then show "\<exists>s'. on_read (lv_ops lib pick rc) b a s = Some s' \<and> (lv_ok lib s' \<and> lv_running lib s') \<and> lv_agent s' = g \<and> lv_sent s' = lv_sent s
      \<and> lv_queue s' = lv_queue s @ answer_to a r"
    using lv_read [OF assms] by (fastforce simp: lv_ops_def lv_running_def)
next
  fix s :: "('c, 'd, 'a, 'b) lev" and m ms taken
  assume "lv_ok lib s \<and> lv_running lib s" "lv_queue s = m # ms"
  then show "\<exists>s'. on_write (lv_ops lib pick rc) taken s = Some s' \<and> (taken \<or> lv_running lib s' \<longrightarrow> lv_ok lib s' \<and> lv_running lib s') \<and>
      (\<not> taken \<and> le_breaks lib \<longrightarrow> \<not> lv_running lib s') \<and> lv_agent s' = lv_agent s \<and>
      lv_sent s' = lv_sent s @ (if taken then [m] else []) \<and> lv_queue s' = ms"
    using lv_write [OF assms, of s m ms pick taken] by (auto simp: lv_ops_def lv_running_def)
next
  fix s :: "('c, 'd, 'a, 'b) lev"
  assume "lv_ok lib s \<and> lv_running lib s"
  then show "\<exists>s'. on_other (lv_ops lib pick rc) s = Some s' \<and> (lv_ok lib s' \<and> lv_running lib s') \<and> lv_agent s' = lv_agent s \<and> lv_sent s' = lv_sent s
      \<and> lv_queue s' = lv_queue s"
    using lv_other [OF assms] by (fastforce simp: lv_ops_def lv_running_def)
qed simp


text \<open>A library that keeps the three sets of events and numbers new ones.\<close>

definition set_libevent :: "(nat \<times> nat set \<times> nat set \<times> nat set, nat) libevent" where
  "set_libevent = \<lparr>le_live = (\<lambda>(n, l, p, w). l \<inter> {..<n}), le_pending = (\<lambda>(n, l, p, w). p), le_writes = (\<lambda>(n, l, p, w). w),
     le_base_new = (0, {}, {}, {}), le_new = (\<lambda>k (n, l, p, w). (n, (Suc n, insert n l, p, if k then insert n w else w - {n}))),
     le_add = (\<lambda>e (n, l, p, w). (n, l, insert e p, w)),
     le_free = (\<lambda>e (n, l, p, w). if e \<in> l then Some (n, l - {e}, p - {e}, w - {e}) else None),
     le_fire = (\<lambda>e (n, l, p, w). (n, l, p - {e}, w)), le_breaks = True\<rparr>"

lemma set_libevent_ok: "libevent_ok set_libevent"
  by (auto simp: libevent_ok_def set_libevent_def le_sets_def)

text \<open>Two requests, and then their answers.\<close>

definition lv_zero :: "(snmp_datagram \<times> unit, nat, nat \<times> nat set \<times> nat set \<times> nat set, nat) lev" where
  "lv_zero = \<lparr>lv_base = (0, {}, {}, {}), lv_recv_event = None, lv_send_event = None, lv_client = None, lv_queue = [], lv_broken = False,
     lv_exit = False, lv_agent = (snmp_datagram_clear, ()), lv_sent = []\<rparr>"


end
