(* ===== verification/Udp_Uloop.thy ===== *)
theory Udp_Uloop
  imports Transport
begin

text \<open>
  The UDP transport on libubox (\<open>core/snmp_udp_uloop_transport.c\<close>): an answer is sent while its datagram is handled. The library runs
  \<open>server_cb\<close> whenever a datagram has arrived; \<open>up_done\<close> tells that \<open>uloop_done\<close> has been called.
\<close>

record ('g, 'a) ulp =
  up_client :: "'a option"
  up_done :: bool
  up_agent :: 'g
  up_sent :: "('a \<times> msg) list"

definition uloop_transport_send :: "bool \<Rightarrow> msg \<Rightarrow> ('g, 'a) ulp \<Rightarrow> ('g, 'a) ulp option" where
  "uloop_transport_send sent m st =
     do { c \<leftarrow> up_client st;
          let st1 = (if sent then st\<lparr>up_sent := up_sent st @ [(c, m)]\<rparr> else st\<lparr>up_done := True\<rparr>);
          Some (st1\<lparr>up_client := None\<rparr>) }"

text \<open>\<open>d\<close> is the result of \<open>recvfrom\<close>, \<open>sent\<close> that of \<open>sendto\<close>.\<close>

definition server_cb :: "'g receive \<Rightarrow> (bytes \<times> 'a) option \<Rightarrow> bool \<Rightarrow> ('g, 'a) ulp \<Rightarrow> ('g, 'a) ulp option" where
  "server_cb rc d sent st =
     do { let st1 = st\<lparr>up_client := map_option snd d, up_done := up_done st \<or> d = None\<rparr>;
          (g, r) \<leftarrow> trans_receive rc (map_option fst d) (up_agent st1);
          let st2 = st1\<lparr>up_agent := g\<rparr>;
          (case r of None \<Rightarrow> Some st2 | Some m \<Rightarrow> uloop_transport_send sent m st2) }"

primrec uloop_run :: "'g receive \<Rightarrow> (bytes \<times> 'a) list \<Rightarrow> ('g, 'a) ulp \<Rightarrow> ('g, 'a) ulp option" where
  "uloop_run rc [] st = Some st"
| "uloop_run rc (d # ds) st = do { st' \<leftarrow> server_cb rc (Some d) True st; uloop_run rc ds st' }"

text \<open>The transport is the abstract server: it is defined exactly when the server is, and sends exactly its answers.\<close>

lemma server_cb_eq:
  "server_cb rc (Some (b, a)) True st = map_option (\<lambda>(g, r). st\<lparr>up_client := (if r = None then Some a else None), up_agent := g,
     up_sent := up_sent st @ answer_to a r\<rparr>) (trans_receive rc (Some b) (up_agent st))"
  by (cases "trans_receive rc (Some b) (up_agent st)")
    (auto simp: server_cb_def uloop_transport_send_def answer_to_def split: option.split)

lemma uloop_serves:
  "map_option (\<lambda>st'. (up_agent st', up_sent st', up_done st')) (uloop_run rc ds st) =
   map_option (\<lambda>(g, out). (g, up_sent st @ out, up_done st)) (serve rc ds (up_agent st))"
proof (induction ds arbitrary: st)
  case (Cons d ds)
  obtain b a where d: "d = (b, a)"
    by force
  show ?case
  proof (cases "trans_receive rc (Some b) (up_agent st)")
    case (Some p)
    obtain g r where p: "p = (g, r)"
      by force
    let ?st = "st\<lparr>up_client := (if r = None then Some a else None), up_agent := g, up_sent := up_sent st @ answer_to a r\<rparr>"
    have "map_option (\<lambda>st'. (up_agent st', up_sent st', up_done st')) (uloop_run rc (d # ds) st) =
        map_option (\<lambda>(g, out). (g, (up_sent st @ answer_to a r) @ out, up_done st)) (serve rc ds g)"
      using Some p d Cons.IH [of ?st] by (simp add: server_cb_eq)
    then show ?thesis
      using Some p d by (cases "serve rc ds g") auto
  qed (use d in \<open>simp add: server_cb_eq\<close>)
qed simp

end
