(* ===== verification/Event_Loop.thy ===== *)
theory Event_Loop
  imports Prelude
begin

text \<open>
  The built-in event loop (\<open>core/ev_loop.c\<close>) with its default back end, \<open>select\<close>
  (\<open>core/ev_select.h\<close>). The table of events, the two descriptor sets and the other fields of the loop are one record. A callback
  with its user data is a value of type \<open>'cb\<close>; calling it is the parameter \<open>call\<close>, a function on the loop and the
  rest of the program's state. The result of \<open>select\<close> is the parameter \<open>ready\<close>: \<open>None\<close> if it returns zero or an error, else the
  descriptors that are ready. \<open>None\<close> as the result of an operation is a descriptor outside an \<open>fd_set\<close> or an undefined callback.

  The lemmas show that the descriptor sets and \<open>max_fd\<close> always agree with the table.
\<close>

section \<open>Definitions\<close>

abbreviation "SNMP_EV_NONE \<equiv> (0 :: u8)"
abbreviation "SNMP_EV_READ \<equiv> (1 :: u8)"
abbreviation "SNMP_EV_WRITE \<equiv> (2 :: u8)"

definition SNMP_MAX_EVENTS :: nat where
  "SNMP_MAX_EVENTS = 5"

record 'cb snmp_event =
  ev_fd :: int
  ev_rcb :: "'cb option"
  ev_wcb :: "'cb option"
  ev_flag :: u8
  ev_read :: bool
  ev_write :: bool

record 'cb event_loop =
  el_start :: bool
  el_ev_no :: int
  el_max_fd :: int
  el_event :: "'cb snmp_event list"
  env_rfds :: "int set"
  env_wfds :: "int set"

definition ev_reads :: "u8 \<Rightarrow> bool" where
  "ev_reads flag \<longleftrightarrow> flag AND SNMP_EV_READ \<noteq> 0"

definition ev_writes :: "u8 \<Rightarrow> bool" where
  "ev_writes flag \<longleftrightarrow> flag AND SNMP_EV_WRITE \<noteq> 0"

definition event_free :: "'cb snmp_event \<Rightarrow> 'cb snmp_event" where
  "event_free e = e\<lparr>ev_fd := - 1, ev_flag := SNMP_EV_NONE, ev_read := False, ev_write := False\<rparr>"

definition snmp_event_init :: "'cb event_loop \<Rightarrow> 'cb event_loop" where
  "snmp_event_init el = el\<lparr>el_event := map event_free (el_event el), el_start := True, el_ev_no := 0, el_max_fd := - 1,
     env_rfds := {}, env_wfds := {}\<rparr>"

definition snmp_event_done :: "'cb event_loop \<Rightarrow> 'cb event_loop" where
  "snmp_event_done el = el\<lparr>el_event := map event_free (el_event el), el_start := False, el_ev_no := 0, el_max_fd := - 1\<rparr>"

subsection \<open>The select back end\<close>

text \<open>\<open>FD_SET\<close> and \<open>FD_CLR\<close> on a set of 1024 descriptors.\<close>

definition fd_ok :: "int \<Rightarrow> bool" where
  "fd_ok fd \<longleftrightarrow> 0 \<le> fd \<and> fd < 1024"

definition select_add :: "int \<Rightarrow> u8 \<Rightarrow> 'cb event_loop \<Rightarrow> 'cb event_loop option" where
  "select_add fd flag el =
     (if (ev_reads flag \<or> ev_writes flag) \<and> \<not> fd_ok fd then None
      else Some (el\<lparr>env_rfds := (if ev_reads flag then insert fd (env_rfds el) else env_rfds el),
                    env_wfds := (if ev_writes flag then insert fd (env_wfds el) else env_wfds el)\<rparr>))"

definition select_remove :: "int \<Rightarrow> u8 \<Rightarrow> 'cb event_loop \<Rightarrow> 'cb event_loop option" where
  "select_remove fd flag el =
     (if (ev_reads flag \<or> ev_writes flag) \<and> \<not> fd_ok fd then None
      else Some (el\<lparr>env_rfds := (if ev_reads flag then env_rfds el - {fd} else env_rfds el),
                    env_wfds := (if ev_writes flag then env_wfds el - {fd} else env_wfds el)\<rparr>))"

text \<open>The loop of \<open>__ev_poll\<close> after \<open>select\<close>: an event with a flag tests its descriptor.\<close>

definition select_mark :: "int set \<Rightarrow> int set \<Rightarrow> 'cb snmp_event \<Rightarrow> 'cb snmp_event" where
  "select_mark r w e =
     (if ev_flag e = SNMP_EV_NONE then e
      else e\<lparr>ev_read := ev_read e \<or> ev_reads (ev_flag e) \<and> ev_fd e \<in> r,
             ev_write := ev_write e \<or> ev_writes (ev_flag e) \<and> ev_fd e \<in> w\<rparr>)"

definition select_poll :: "(int set \<times> int set) option \<Rightarrow> 'cb event_loop \<Rightarrow> 'cb event_loop" where
  "select_poll ready el = (case ready of None \<Rightarrow> el
     | Some (r, w) \<Rightarrow> el\<lparr>el_event := map (select_mark r w) (el_event el)\<rparr>)"

subsection \<open>Adding and removing events\<close>

definition event_set_cb :: "u8 \<Rightarrow> 'cb \<Rightarrow> 'cb snmp_event \<Rightarrow> 'cb snmp_event" where
  "event_set_cb flag cb e =
     e\<lparr>ev_rcb := (if ev_reads flag then Some cb else ev_rcb e), ev_wcb := (if ev_writes flag then Some cb else ev_wcb e)\<rparr>"

text \<open>The loop of \<open>snmp_event_add\<close>: the first event that has the descriptor or is free. It tells if a free event was taken.\<close>

primrec event_add_loop :: "int \<Rightarrow> u8 \<Rightarrow> 'cb \<Rightarrow> 'cb snmp_event list \<Rightarrow> ('cb snmp_event list \<times> bool) option" where
  "event_add_loop fd flag cb [] = None"
| "event_add_loop fd flag cb (e # es) =
     (if ev_fd e = fd then Some (event_set_cb flag cb (e\<lparr>ev_flag := ev_flag e OR flag\<rparr>) # es, False)
      else if ev_fd e = - 1 then Some (event_set_cb flag cb (e\<lparr>ev_fd := fd, ev_flag := flag\<rparr>) # es, True)
      else map_option (\<lambda>(es', new). (e # es', new)) (event_add_loop fd flag cb es))"

definition snmp_event_add :: "int \<Rightarrow> u8 \<Rightarrow> 'cb \<Rightarrow> 'cb event_loop \<Rightarrow> (int \<times> 'cb event_loop) option" where
  "snmp_event_add fd flag cb el =
     (case event_add_loop fd flag cb (el_event el) of
        None \<Rightarrow> Some (- 1, el)
      | Some (es, new) \<Rightarrow>
          do { el' \<leftarrow> select_add fd flag el;
               Some (0, el'\<lparr>el_event := es, el_max_fd := (if new \<and> fd > el_max_fd el then fd else el_max_fd el)\<rparr>) })"

text \<open>One iteration of the loop of \<open>snmp_event_remove\<close>.\<close>

definition event_remove :: "u8 \<Rightarrow> 'cb snmp_event \<Rightarrow> 'cb snmp_event" where
  "event_remove flag e =
     (let e1 = e\<lparr>ev_flag := ev_flag e AND NOT flag,
                 ev_read := (if ev_reads flag then False else ev_read e),
                 ev_write := (if ev_writes flag then False else ev_write e)\<rparr>
      in if ev_flag e1 = SNMP_EV_NONE then e1\<lparr>ev_fd := - 1\<rparr> else e1)"

primrec event_remove_loop :: "int \<Rightarrow> u8 \<Rightarrow> 'cb snmp_event list \<Rightarrow> 'cb event_loop \<Rightarrow> ('cb snmp_event list \<times> 'cb event_loop) option" where
  "event_remove_loop fd flag [] el = Some ([], el)"
| "event_remove_loop fd flag (e # es) el =
     do { (e', el1) \<leftarrow> (if ev_fd e = fd then do { el1 \<leftarrow> select_remove fd flag el; Some (event_remove flag e, el1) } else Some (e, el));
          let el2 = (if fd > el_max_fd el1 then el1\<lparr>el_max_fd := fd\<rparr> else el1);
          (es', el3) \<leftarrow> event_remove_loop fd flag es el2;
          Some (e' # es', el3) }"

definition snmp_event_remove :: "int \<Rightarrow> u8 \<Rightarrow> 'cb event_loop \<Rightarrow> 'cb event_loop option" where
  "snmp_event_remove fd flag el =
     do { (es, el') \<leftarrow> event_remove_loop fd flag (el_event el) (if fd = el_max_fd el then el\<lparr>el_max_fd := - 1\<rparr> else el);
          Some (el'\<lparr>el_event := es\<rparr>) }"

subsection \<open>Polling and the main loop\<close>

type_synonym ('cb, 'x) ev_state = "'cb event_loop \<times> 'x"

type_synonym ('cb, 'x) ev_call = "'cb \<Rightarrow> int \<Rightarrow> u8 \<Rightarrow> ('cb, 'x) ev_state \<Rightarrow> ('cb, 'x) ev_state option"

definition event_at :: "nat \<Rightarrow> ('cb snmp_event \<Rightarrow> 'cb snmp_event) \<Rightarrow> ('cb, 'x) ev_state \<Rightarrow> ('cb, 'x) ev_state" where
  "event_at i f st = ((fst st)\<lparr>el_event := (el_event (fst st))[i := f (el_event (fst st) ! i)]\<rparr>, snd st)"

text \<open>The callbacks of event \<open>i\<close>. A callback may change the table, so the event is read again after each call.\<close>

definition event_read_cb :: "('cb, 'x) ev_call \<Rightarrow> nat \<Rightarrow> ('cb, 'x) ev_state \<Rightarrow> ('cb, 'x) ev_state option" where
  "event_read_cb call i st =
     do { e \<leftarrow> rd (el_event (fst st)) i;
          (case ev_rcb e of
             Some cb \<Rightarrow> if ev_read e then map_option (event_at i (ev_read_update (\<lambda>_. False))) (call cb (ev_fd e) SNMP_EV_READ st) else Some st
           | None \<Rightarrow> Some st) }"

definition event_write_cb :: "('cb, 'x) ev_call \<Rightarrow> nat \<Rightarrow> ('cb, 'x) ev_state \<Rightarrow> ('cb, 'x) ev_state option" where
  "event_write_cb call i st =
     do { e \<leftarrow> rd (el_event (fst st)) i;
          (case ev_wcb e of
             Some cb \<Rightarrow> if ev_write e then map_option (event_at i (ev_write_update (\<lambda>_. False))) (call cb (ev_fd e) SNMP_EV_WRITE st) else Some st
           | None \<Rightarrow> Some st) }"

definition event_calls :: "('cb, 'x) ev_call \<Rightarrow> nat \<Rightarrow> ('cb, 'x) ev_state \<Rightarrow> ('cb, 'x) ev_state option" where
  "event_calls call i st = do { st1 \<leftarrow> event_read_cb call i st; event_write_cb call i st1 }"

lemmas event_cb_defs = event_calls_def event_read_cb_def event_write_cb_def

primrec event_calls_all :: "('cb, 'x) ev_call \<Rightarrow> nat list \<Rightarrow> ('cb, 'x) ev_state \<Rightarrow> ('cb, 'x) ev_state option" where
  "event_calls_all call [] st = Some st"
| "event_calls_all call (i # is) st = do { st' \<leftarrow> event_calls call i st; event_calls_all call is st' }"

definition snmp_event_poll :: "('cb, 'x) ev_call \<Rightarrow> (int set \<times> int set) option \<Rightarrow> ('cb, 'x) ev_state \<Rightarrow> ('cb, 'x) ev_state option" where
  "snmp_event_poll call ready st =
     event_calls_all call [0..<SNMP_MAX_EVENTS] (select_poll ready (fst st), snd st)"

text \<open>The main loop, over what the operating system does in each round: \<open>ready\<close> is the result of \<open>select\<close> in a round, and the
  callbacks get the round too. The list of the rounds bounds the loop.\<close>

primrec snmp_event_run :: "('i \<Rightarrow> ('cb, 'x) ev_call) \<Rightarrow> ('i \<Rightarrow> (int set \<times> int set) option) \<Rightarrow> 'i list \<Rightarrow>
    ('cb, 'x) ev_state \<Rightarrow> ('cb, 'x) ev_state option" where
  "snmp_event_run call ready [] st = Some st"
| "snmp_event_run call ready (i # is) st =
     (if el_start (fst st) then do { st' \<leftarrow> snmp_event_poll (call i) (ready i) st; snmp_event_run call ready is st' }
      else Some st)"

text \<open>The documented behaviour of \<open>select\<close>: it reports only descriptors below its first argument that are in the sets it
  gets.\<close>

definition select_ok :: "'cb event_loop \<Rightarrow> (int set \<times> int set) option \<Rightarrow> bool" where
  "select_ok el ready = (case ready of None \<Rightarrow> True
     | Some (r, w) \<Rightarrow> r \<subseteq> {fd \<in> env_rfds el. fd \<le> el_max_fd el} \<and> w \<subseteq> {fd \<in> env_wfds el. fd \<le> el_max_fd el})"

section \<open>The invariant of the table\<close>

text \<open>The table has five events; free ones have no flag; a used one has a flag, and its descriptor is valid and at most \<open>max_fd\<close>;
  the two sets of the back end are those of the events.\<close>

definition slot_ok :: "int \<Rightarrow> 'cb snmp_event \<Rightarrow> bool" where
  "slot_ok m e = (if ev_fd e = - 1 then ev_flag e = 0 else fd_ok (ev_fd e) \<and> ev_fd e \<le> m \<and> ev_flag e \<in> {1, 2, 3})"

definition ev_mask :: "(u8 \<Rightarrow> bool) \<Rightarrow> 'cb snmp_event list \<Rightarrow> int set" where
  "ev_mask p es = ev_fd ` {e \<in> set es. p (ev_flag e)}"

definition ev_ok :: "'cb event_loop \<Rightarrow> bool" where
  "ev_ok el \<longleftrightarrow> length (el_event el) = SNMP_MAX_EVENTS \<and> list_all (slot_ok (el_max_fd el)) (el_event el) \<and>
     env_rfds el = ev_mask ev_reads (el_event el) \<and> env_wfds el = ev_mask ev_writes (el_event el)"

lemma ev_mask_simps [simp]:
  "ev_mask p [] = {}" "ev_mask p (e # es) = (if p (ev_flag e) then insert (ev_fd e) (ev_mask p es) else ev_mask p es)"
  "ev_mask p (xs @ ys) = ev_mask p xs \<union> ev_mask p ys"
  by (auto simp: ev_mask_def)

lemma slot_ok_mono: "slot_ok m e \<Longrightarrow> m \<le> m' \<Longrightarrow> slot_ok m' e"
  by (auto simp: slot_ok_def)

lemma slots_ok_mono: "list_all (slot_ok m) es \<Longrightarrow> m \<le> m' \<Longrightarrow> list_all (slot_ok m') es"
  by (auto simp: list_all_iff intro: slot_ok_mono)

lemma ev_flags:
  "ev_reads 1" "\<not> ev_writes 1" "\<not> ev_reads 2" "ev_writes 2" "ev_reads 3" "ev_writes 3" "\<not> ev_reads 0" "\<not> ev_writes 0"
  by (simp_all add: ev_reads_def ev_writes_def)

lemma ev_flags_or:
  "ev_reads (a OR b) = (ev_reads a \<or> ev_reads b)" "ev_writes (a OR b) = (ev_writes a \<or> ev_writes b)"
proof -
  have "\<And>n. (a OR b) AND push_bit n 1 \<noteq> 0 \<longleftrightarrow> bit (a OR b) n" "\<And>n x. (x :: u8) AND push_bit n 1 \<noteq> 0 \<longleftrightarrow> bit x n"
    by (simp_all add: bit_iff_and_push_bit_not_eq_0)
  from this(2) [of _ 0] this(2) [of _ 1]
  show "ev_reads (a OR b) = (ev_reads a \<or> ev_reads b)" "ev_writes (a OR b) = (ev_writes a \<or> ev_writes b)"
    by (simp_all add: ev_reads_def ev_writes_def bit_or_iff)
qed

lemma flag_or: "a \<in> {1, 2, 3} \<Longrightarrow> b \<in> {0, 1, 2, 3} \<Longrightarrow> b OR a \<in> {1, 2, 3 :: u8}"
  by auto

lemma flag_and_not: "a \<in> {1, 2, 3} \<Longrightarrow> b \<in> {1, 2, 3} \<Longrightarrow>
  b AND NOT a \<in> {0, 1, 2, 3 :: u8} \<and> (ev_reads (b AND NOT a) = (ev_reads b \<and> \<not> ev_reads a)) \<and>
  (ev_writes (b AND NOT a) = (ev_writes b \<and> \<not> ev_writes a))"
  by (auto simp: ev_flags)

text \<open>What the loop of \<open>snmp_event_add\<close> does: it changes one event.\<close>

lemma event_add_loop_split:
  assumes "event_add_loop fd flag cb es = Some (es', new)"
  obtains pre e post where "es = pre @ e # post" "ev_fd e = (if new then - 1 else fd)"
    "es' = pre @ event_set_cb flag cb (e\<lparr>ev_fd := fd, ev_flag := (if new then flag else ev_flag e OR flag)\<rparr>) # post"
  using assms
proof (induction es arbitrary: es' thesis)
  case (Cons e es)
  show ?case
  proof (cases "ev_fd e = fd \<or> ev_fd e = - 1")
    case True
    have "e\<lparr>ev_fd := fd\<rparr> = e" if "ev_fd e = fd"
      using that by (cases e) simp
    with True show ?thesis
      using Cons.prems(2) by (intro Cons.prems(1) [of "[]" e es]) (auto split: if_splits)
  next
    case False
    then obtain es1 where 1: "event_add_loop fd flag cb es = Some (es1, new)" "es' = e # es1"
      using Cons.prems(2) by auto
    obtain pre e1 post where "es = pre @ e1 # post" "ev_fd e1 = (if new then - 1 else fd)"
        "es1 = pre @ event_set_cb flag cb (e1\<lparr>ev_fd := fd, ev_flag := (if new then flag else ev_flag e1 OR flag)\<rparr>) # post"
      using Cons.IH [OF _ 1(1)] by blast
    then show ?thesis
      using 1(2) by (intro Cons.prems(1) [of "e # pre" e1 post]) simp_all
  qed
qed simp

lemma snmp_event_add_ok:
  assumes "ev_ok el" "fd_ok fd" "flag \<in> {1, 2, 3}"
  shows "\<exists>rc el'. snmp_event_add fd flag cb el = Some (rc, el') \<and> ev_ok el'"
proof (cases "event_add_loop fd flag cb (el_event el)")
  case None
  then show ?thesis
    using assms(1) by (simp add: snmp_event_add_def)
next
  case (Some p)
  then obtain es new where p: "event_add_loop fd flag cb (el_event el) = Some (es, new)"
    by (cases p) simp
  obtain pre e post where s: "el_event el = pre @ e # post" "ev_fd e = (if new then - 1 else fd)"
      "es = pre @ event_set_cb flag cb (e\<lparr>ev_fd := fd, ev_flag := (if new then flag else ev_flag e OR flag)\<rparr>) # post"
    by (rule event_add_loop_split [OF p])
  define el' where "el' = el\<lparr>env_rfds := (if ev_reads flag then insert fd (env_rfds el) else env_rfds el),
      env_wfds := (if ev_writes flag then insert fd (env_wfds el) else env_wfds el), el_event := es,
      el_max_fd := (if new \<and> fd > el_max_fd el then fd else el_max_fd el)\<rparr>"
  have "snmp_event_add fd flag cb el = Some (0, el')"
    using assms(2) p by (simp add: snmp_event_add_def select_add_def el'_def)
  moreover have "ev_ok el'"
  proof -
    let ?e = "event_set_cb flag cb (e\<lparr>ev_fd := fd, ev_flag := (if new then flag else ev_flag e OR flag)\<rparr>)"
    let ?m = "el_max_fd el'"
    have ok: "slot_ok (el_max_fd el) e" "list_all (slot_ok (el_max_fd el)) (pre @ post)" "fd \<noteq> - 1"
      using assms(1,2) s(1) by (auto simp: ev_ok_def fd_ok_def)
    have e: "ev_fd ?e = fd" "ev_flag ?e = (if new then flag else ev_flag e OR flag)"
      by (simp_all add: event_set_cb_def)
    have fl: "if new then ev_flag e = 0 else ev_flag e \<in> {1, 2, 3} \<and> fd \<le> el_max_fd el"
      using ok(1,3) s(2) by (auto simp: slot_ok_def split: if_splits)
    have "ev_flag ?e \<in> {1, 2, 3}"
      using e(2) fl assms(3) flag_or [OF assms(3), of "ev_flag e"] by (auto split: if_splits)
    then have "slot_ok ?m ?e"
      using e(1) fl assms(2) ok(3) by (auto simp: slot_ok_def el'_def split: if_splits)
    moreover have "list_all (slot_ok ?m) (pre @ post)"
      by (rule slots_ok_mono [OF ok(2)]) (simp add: el'_def)
    moreover have "ev_mask ev_reads (pre @ ?e # post) = (if ev_reads flag then insert fd (env_rfds el) else env_rfds el)"
        "ev_mask ev_writes (pre @ ?e # post) = (if ev_writes flag then insert fd (env_wfds el) else env_wfds el)"
      using assms(1) s(1,2) e fl by (cases new; simp add: ev_ok_def ev_flags ev_flags_or)+
    ultimately show ?thesis
      using assms(1) s(1,3) by (simp add: ev_ok_def el'_def)
  qed
  ultimately show ?thesis
    by blast
qed

text \<open>What the loop of \<open>snmp_event_remove\<close> does: it changes every event with the descriptor; \<open>max_fd\<close> never gets smaller.\<close>

lemma event_remove_loop_eq:
  assumes "fd_ok fd"
  shows "event_remove_loop fd flag es el = Some (map (\<lambda>e. if ev_fd e = fd then event_remove flag e else e) es,
    el\<lparr>el_max_fd := (if es \<noteq> [] \<and> fd > el_max_fd el then fd else el_max_fd el),
       env_rfds := (if (\<exists>e \<in> set es. ev_fd e = fd) \<and> ev_reads flag then env_rfds el - {fd} else env_rfds el),
       env_wfds := (if (\<exists>e \<in> set es. ev_fd e = fd) \<and> ev_writes flag then env_wfds el - {fd} else env_wfds el)\<rparr>)"
proof (induction es arbitrary: el)
  case (Cons e es)
  show ?case
    using assms by (auto simp: Cons.IH select_remove_def Let_def)
qed simp

lemma event_remove_slot:
  assumes "slot_ok m e" "flag \<in> {1, 2, 3}" "fd_ok fd" "p = ev_reads \<or> p = ev_writes"
  defines "e' \<equiv> if ev_fd e = fd then event_remove flag e else e"
  shows "slot_ok m e'" "p (ev_flag e') \<longleftrightarrow> p (ev_flag e) \<and> \<not> (ev_fd e = fd \<and> p flag)" "p (ev_flag e') \<Longrightarrow> ev_fd e' = ev_fd e"
proof -
  have "slot_ok m e' \<and> (p (ev_flag e') \<longleftrightarrow> p (ev_flag e) \<and> \<not> (ev_fd e = fd \<and> p flag)) \<and> (p (ev_flag e') \<longrightarrow> ev_fd e' = ev_fd e)"
  proof (cases "ev_fd e = fd")
    case True
    then have f: "ev_flag e \<in> {1, 2, 3}" "fd \<le> m" "fd \<noteq> - 1"
      using assms(1,3) by (auto simp: slot_ok_def fd_ok_def split: if_splits)
    define x where "x = ev_flag e AND NOT flag"
    have x: "ev_flag e' = x" "ev_fd e' = (if x = 0 then - 1 else fd)"
      using True by (simp_all add: x_def e'_def event_remove_def Let_def)
    have x': "x \<in> {0, 1, 2, 3}" "p x \<longleftrightarrow> p (ev_flag e) \<and> \<not> p flag"
      using flag_and_not [OF assms(2) f(1)] assms(4) unfolding x_def by blast+
    have "x \<noteq> 0" if "p x"
      using that assms(4) ev_flags(7,8) by blast
    then show ?thesis
      unfolding slot_ok_def x x'(2) using x'(1) f(2,3) assms(3) True by auto
  qed (use assms(1) in \<open>simp add: e'_def\<close>)
  then show "slot_ok m e'" "p (ev_flag e') \<longleftrightarrow> p (ev_flag e) \<and> \<not> (ev_fd e = fd \<and> p flag)" "p (ev_flag e') \<Longrightarrow> ev_fd e' = ev_fd e"
    by blast+
qed

lemma event_remove_mask:
  assumes "list_all (slot_ok m) es" "flag \<in> {1, 2, 3}" "fd_ok fd" "p = ev_reads \<or> p = ev_writes"
  shows "ev_mask p (map (\<lambda>e. if ev_fd e = fd then event_remove flag e else e) es) =
    (if p flag then ev_mask p es - {fd} else ev_mask p es)"
  using assms(1)
proof (induction es)
  case (Cons e es)
  then show ?case
    using event_remove_slot(2,3) [OF _ assms(2-4), of m e] by auto
qed simp

lemma snmp_event_remove_ok:
  assumes "ev_ok el" "fd_ok fd" "flag \<in> {1, 2, 3}"
  shows "\<exists>el'. snmp_event_remove fd flag el = Some el' \<and> ev_ok el' \<and> el_max_fd el' = max (el_max_fd el) fd"
proof -
  let ?es = "map (\<lambda>e. if ev_fd e = fd then event_remove flag e else e) (el_event el)"
  have ne: "el_event el \<noteq> []"
    using assms(1) by (auto simp: ev_ok_def SNMP_MAX_EVENTS_def)
  have r: "fd \<notin> env_rfds el" "fd \<notin> env_wfds el" if "\<not> (\<exists>e \<in> set (el_event el). ev_fd e = fd)"
    using assms(1) that by (auto simp: ev_ok_def ev_mask_def)
  define el' where "el' = el\<lparr>el_event := ?es, el_max_fd := max (el_max_fd el) fd,
      env_rfds := (if ev_reads flag then env_rfds el - {fd} else env_rfds el),
      env_wfds := (if ev_writes flag then env_wfds el - {fd} else env_wfds el)\<rparr>"
  have "fd > - 1"
    using assms(2) by (simp add: fd_ok_def)
  then have "snmp_event_remove fd flag el = Some el'"
    unfolding snmp_event_remove_def event_remove_loop_eq [OF assms(2)]
    using ne r by (cases "\<exists>e \<in> set (el_event el). ev_fd e = fd"; cases "fd = el_max_fd el") (simp_all add: el'_def max_def)
  moreover have "ev_ok el'"
  proof -
    have "list_all (slot_ok (el_max_fd el)) ?es"
      using assms(1) event_remove_slot(1) [OF _ assms(3,2) disjI1 [OF refl], of "el_max_fd el"]
      unfolding ev_ok_def list.pred_map comp_def by (metis (mono_tags, lifting) list.pred_mono_strong)
    then have "list_all (slot_ok (max (el_max_fd el) fd)) ?es"
      by (rule slots_ok_mono) simp
    moreover have "list_all (slot_ok (el_max_fd el)) (el_event el)"
      using assms(1) by (simp add: ev_ok_def)
    note event_remove_mask [OF this assms(3,2)]
    ultimately show ?thesis
      using assms(1) by (simp add: ev_ok_def el'_def)
  qed
  ultimately show ?thesis
    by (intro exI [of _ el']) (simp add: el'_def)
qed

section \<open>Sequences of operations\<close>

datatype 'cb ev_op = Ev_Add int u8 'cb | Ev_Remove int u8

fun ev_op_ok :: "'cb ev_op \<Rightarrow> bool" where
  "ev_op_ok (Ev_Add fd flag cb) = (fd_ok fd \<and> flag \<in> {1, 2, 3})"
| "ev_op_ok (Ev_Remove fd flag) = (fd_ok fd \<and> flag \<in> {1, 2, 3})"

fun ev_step :: "'cb ev_op \<Rightarrow> 'cb event_loop \<Rightarrow> 'cb event_loop option" where
  "ev_step (Ev_Add fd flag cb) el = map_option snd (snmp_event_add fd flag cb el)"
| "ev_step (Ev_Remove fd flag) el = snmp_event_remove fd flag el"

text \<open>The loops that can come up: any sequence of operations after \<open>snmp_event_init\<close>.\<close>

inductive ev_reach :: "'cb event_loop \<Rightarrow> 'cb event_loop \<Rightarrow> bool" for el0 where
  init: "ev_reach el0 (snmp_event_init el0)"
| step: "ev_reach el0 el \<Longrightarrow> ev_op_ok x \<Longrightarrow> ev_step x el = Some el' \<Longrightarrow> ev_reach el0 el'"

lemma snmp_event_init_ok: "length (el_event el) = SNMP_MAX_EVENTS \<Longrightarrow> ev_ok (snmp_event_init el)"
  by (auto simp: ev_ok_def snmp_event_init_def list_all_iff slot_ok_def event_free_def ev_mask_def ev_flags)

lemma ev_step_ok:
  assumes "ev_ok el" "ev_op_ok x"
  shows "\<exists>el'. ev_step x el = Some el' \<and> ev_ok el'"
  using assms
proof (cases x)
  case (Ev_Add fd flag cb)
  then show ?thesis
    using snmp_event_add_ok [OF assms(1), of fd flag cb] assms(2) by auto
next
  case (Ev_Remove fd flag)
  then show ?thesis
    using snmp_event_remove_ok [OF assms(1), of fd flag] assms(2) by auto
qed

text \<open>C30: After any sequence of valid additions and removals the descriptor sets handed to \<open>select\<close> are exactly the descriptors of
  the events that wait for reading and for writing, none of them is above \<open>max_fd\<close>, free events carry no flag, and the next
  operation is defined too.\<close>

theorem ev_loop_invariant:
  assumes "length (el_event el0) = SNMP_MAX_EVENTS" "ev_reach el0 el"
  shows "ev_ok el \<and> env_rfds el \<union> env_wfds el \<subseteq> {0..el_max_fd el} \<and> (\<forall>x. ev_op_ok x \<longrightarrow> ev_step x el \<noteq> None)"
proof -
  have ok: "ev_ok el"
    using assms(2)
  proof (induction rule: ev_reach.induct)
    case init
    show ?case
      by (rule snmp_event_init_ok [OF assms(1)])
  next
    case (step el x el')
    then show ?case
      using ev_step_ok by fastforce
  qed
  then have "env_rfds el \<union> env_wfds el \<subseteq> {0..el_max_fd el}"
    by (fastforce simp: ev_ok_def ev_mask_def list_all_iff slot_ok_def fd_ok_def ev_flags split: if_splits)
  then show ?thesis
    using ok ev_step_ok [OF ok] by fastforce
qed

definition el_zero :: "'cb event_loop" where
  "el_zero = \<lparr>el_start = False, el_ev_no = 0, el_max_fd = 0,
     el_event = replicate 5 \<lparr>ev_fd = 0, ev_rcb = None, ev_wcb = None, ev_flag = 0, ev_read = False, ev_write = False\<rparr>,
     env_rfds = {}, env_wfds = {}\<rparr>"

theorem ev_loop_invariant_witness:
  "\<exists>el. ev_step (Ev_Add 4 3 ()) (snmp_event_init el_zero) = Some el \<and> ev_ok el \<and> env_rfds el \<union> env_wfds el \<subseteq> {0..el_max_fd el}"
proof -
  have l: "length (el_event (el_zero :: unit event_loop)) = SNMP_MAX_EVENTS" and op: "ev_op_ok (Ev_Add 4 3 ())"
    by (simp_all add: el_zero_def SNMP_MAX_EVENTS_def fd_ok_def)
  then obtain el where s: "ev_step (Ev_Add 4 3 ()) (snmp_event_init el_zero) = Some el"
    using ev_step_ok [OF snmp_event_init_ok [OF l]] by blast
  then show ?thesis
    using ev_loop_invariant [OF l ev_reach.step [OF ev_reach.init op s]] by blast
qed

text \<open>A descriptor is entered twice if a free event comes before its own.\<close>

lemma event_add_duplicates:
  "event_add_loop 4 SNMP_EV_WRITE cb
     [\<lparr>ev_fd = - 1, ev_rcb = None, ev_wcb = None, ev_flag = 0, ev_read = False, ev_write = False\<rparr>,
      \<lparr>ev_fd = 4, ev_rcb = Some cb, ev_wcb = None, ev_flag = 1, ev_read = False, ev_write = False\<rparr>] = Some
     ([\<lparr>ev_fd = 4, ev_rcb = None, ev_wcb = Some cb, ev_flag = 2, ev_read = False, ev_write = False\<rparr>,
       \<lparr>ev_fd = 4, ev_rcb = Some cb, ev_wcb = None, ev_flag = 1, ev_read = False, ev_write = False\<rparr>], True)"
  by (simp add: event_set_cb_def ev_flags)

end
