(* ===== verification/Udp_Evloop.thy ===== *)
theory Udp_Evloop
  imports Transport Event_Loop
begin

text \<open>
  The default UDP transport, on the built-in event loop (\<open>core/snmp_udp_evloop_transport.c\<close>). It has one entry for an answer
  and the address of its client. The operating system is a parameter: in each round of the loop it gives the result of
  \<open>select\<close>, of \<open>recvfrom\<close> and of \<open>sendto\<close>. \<open>ud_sent\<close> records what \<open>sendto\<close> took.
\<close>

section \<open>Definitions\<close>

datatype udp_cb = Snmp_Read | Snmp_Write

record ('g, 'a) udp =
  ud_sock :: int
  ud_buf :: "msg option"
  ud_client :: "'a option"
  ud_agent :: 'g
  ud_sent :: "('a \<times> msg) list"

type_synonym ('g, 'a) udp_state = "(udp_cb, ('g, 'a) udp) ev_state"

record 'a os =
  os_ready :: "(int set \<times> int set) option"
  os_recv :: "(bytes \<times> 'a) option"
  os_send :: bool

text \<open>Freed pointers are \<open>None\<close>: using them again is undefined.\<close>

definition snmp_write_handler :: "'a os \<Rightarrow> int \<Rightarrow> u8 \<Rightarrow> ('g, 'a) udp_state \<Rightarrow> ('g, 'a) udp_state option" where
  "snmp_write_handler os sock flag st =
     do { m \<leftarrow> ud_buf (snd st);
          c \<leftarrow> ud_client (snd st);
          let (el, u) = (if os_send os then (fst st, (snd st)\<lparr>ud_sent := ud_sent (snd st) @ [(c, m)]\<rparr>) else (snmp_event_done (fst st), snd st));
          el' \<leftarrow> snmp_event_remove sock flag el;
          Some (el', u\<lparr>ud_buf := None, ud_client := None\<rparr>) }"

definition evloop_transport_send :: "msg \<Rightarrow> ('g, 'a) udp_state \<Rightarrow> ('g, 'a) udp_state option" where
  "evloop_transport_send m st =
     do { (ret, el) \<leftarrow> snmp_event_add (ud_sock (snd st)) SNMP_EV_WRITE Snmp_Write (fst st);
          Some (el, (snd st)\<lparr>ud_buf := Some m\<rparr>) }"

text \<open>The answer of \<open>receive\<close> goes to \<open>snmp_trans_ops.send\<close>, by \<open>snmpd_send\<close> of \<open>core/snmp.c\<close>.\<close>

definition snmp_read_handler :: "'g receive \<Rightarrow> 'a os \<Rightarrow> ('g, 'a) udp_state \<Rightarrow> ('g, 'a) udp_state option" where
  "snmp_read_handler rc os st =
     do { let st1 = (if os_recv os = None then snmp_event_done (fst st) else fst st, (snd st)\<lparr>ud_client := map_option snd (os_recv os)\<rparr>);
          (g, r) \<leftarrow> trans_receive rc (map_option fst (os_recv os)) (ud_agent (snd st1));
          let st2 = (fst st1, (snd st1)\<lparr>ud_agent := g\<rparr>);
          (case r of None \<Rightarrow> Some st2 | Some m \<Rightarrow> evloop_transport_send m st2) }"

definition udp_call :: "'g receive \<Rightarrow> 'a os \<Rightarrow> (udp_cb, ('g, 'a) udp) ev_call" where
  "udp_call rc os cb fd flag = (case cb of Snmp_Read \<Rightarrow> snmp_read_handler rc os | Snmp_Write \<Rightarrow> snmp_write_handler os fd flag)"

definition evloop_transport_running :: "'g receive \<Rightarrow> 'a os list \<Rightarrow> ('g, 'a) udp_state \<Rightarrow> ('g, 'a) udp_state option" where
  "evloop_transport_running rc rounds st =
     do { (ret, el) \<leftarrow> snmp_event_add (ud_sock (snd st)) SNMP_EV_READ Snmp_Read (snmp_event_init (fst st));
          snmp_event_run (udp_call rc) os_ready rounds (el, snd st) }"

definition evloop_transport_stop :: "('g, 'a) udp_state \<Rightarrow> ('g, 'a) udp_state" where
  "evloop_transport_stop st = (snmp_event_done (fst st), snd st)"

text \<open>\<open>sock\<close> is the result of \<open>socket\<close>; \<open>bound\<close> tells if \<open>bind\<close> succeeded.\<close>

definition evloop_transport_init :: "int \<Rightarrow> bool \<Rightarrow> ('g, 'a) udp \<Rightarrow> int \<times> ('g, 'a) udp" where
  "evloop_transport_init sock bound u = (if sock < 0 \<or> \<not> bound then - 1 else 0, u\<lparr>ud_sock := sock\<rparr>)"

section \<open>The loop while it serves\<close>

text \<open>The socket is the first event and the others are free; it waits for writing exactly while an answer is pending.\<close>

definition idle :: "'cb snmp_event \<Rightarrow> bool" where
  "idle e \<longleftrightarrow> ev_fd e = - 1 \<and> ev_flag e = 0 \<and> \<not> ev_read e \<and> \<not> ev_write e"

definition udp_slot :: "int \<Rightarrow> bool \<Rightarrow> udp_cb snmp_event \<Rightarrow> bool" where
  "udp_slot sock pending e \<longleftrightarrow> ev_fd e = sock \<and> ev_rcb e = Some Snmp_Read \<and> ev_flag e = (if pending then 3 else 1)
     \<and> (pending \<longrightarrow> ev_wcb e = Some Snmp_Write)"

definition serving :: "('g, 'a) udp_state \<Rightarrow> bool" where
  "serving st = (case el_event (fst st) of [] \<Rightarrow> False | e # es \<Rightarrow>
     list_all idle es \<and> udp_slot (ud_sock (snd st)) (ud_buf (snd st) \<noteq> None) e \<and> \<not> ev_read e \<and> \<not> ev_write e
     \<and> (ud_buf (snd st) \<noteq> None \<longrightarrow> ud_client (snd st) \<noteq> None)
     \<and> el_start (fst st) \<and> ev_ok (fst st) \<and> fd_ok (ud_sock (snd st)))"

definition udp_waiting :: "('g, 'a) udp_state \<Rightarrow> ('a \<times> msg) list" where
  "udp_waiting st = (case (ud_buf (snd st), ud_client (snd st)) of (Some m, Some c) \<Rightarrow> [(c, m)] | _ \<Rightarrow> [])"

text \<open>What can happen in a round of a serving loop in which no datagram is read while an answer is pending: a datagram arrives; the socket can
  take data, and \<open>sendto\<close> succeeds or fails; \<open>select\<close> reports nothing or fails.\<close>

definition os_in :: "int \<Rightarrow> bytes \<Rightarrow> 'a \<Rightarrow> 'a os" where
  "os_in sock b a = \<lparr>os_ready = Some ({sock}, {}), os_recv = Some (b, a), os_send = True\<rparr>"

definition os_out :: "int \<Rightarrow> bool \<Rightarrow> 'a os" where
  "os_out sock taken = \<lparr>os_ready = Some ({}, {sock}), os_recv = None, os_send = taken\<rparr>"

definition os_quiet :: "'a os" where
  "os_quiet = \<lparr>os_ready = None, os_recv = None, os_send = True\<rparr>"

definition tev_os :: "int \<Rightarrow> 'a tev \<Rightarrow> 'a os" where
  "tev_os sock e = (case e of Ev_In b a \<Rightarrow> os_in sock b a | Ev_Out taken \<Rightarrow> os_out sock taken | Ev_Other \<Rightarrow> os_quiet)"

definition udp_round :: "'g receive \<Rightarrow> 'a os \<Rightarrow> ('g, 'a) udp_state \<Rightarrow> ('g, 'a) udp_state option" where
  "udp_round rc os st = snmp_event_run (udp_call rc) os_ready [os] st"

definition udp_ops :: "int \<Rightarrow> 'g receive \<Rightarrow> (('g, 'a) udp_state, 'a) tev_ops" where
  "udp_ops sock rc = \<lparr>on_read = \<lambda>b a. udp_round rc (os_in sock b a), on_write = \<lambda>taken. udp_round rc (os_out sock taken),
     on_other = udp_round rc os_quiet\<rparr>"

definition udp_ok :: "int \<Rightarrow> ('g, 'a) udp_state \<Rightarrow> bool" where
  "udp_ok sock st \<longleftrightarrow> serving st \<and> ud_sock (snd st) = sock"

abbreviation udp_running :: "('g, 'a) udp_state \<Rightarrow> bool" where
  "udp_running st \<equiv> el_start (fst st)"

subsection \<open>Events of the socket\<close>

lemma event_calls_idle: "rd (el_event (fst st)) i = Some e \<Longrightarrow> \<not> ev_read e \<Longrightarrow> \<not> ev_write e \<Longrightarrow> event_calls call i st = Some st"
  by (simp add: event_cb_defs split: option.split)

lemma event_calls_all_idle:
  "(\<And>i. i \<in> set is \<Longrightarrow> \<exists>e. rd (el_event (fst st)) i = Some e \<and> \<not> ev_read e \<and> \<not> ev_write e) \<Longrightarrow> event_calls_all call is st = Some st"
proof (induction "is")
  case (Cons i "is")
  then obtain e where "rd (el_event (fst st)) i = Some e" "\<not> ev_read e" "\<not> ev_write e"
    by fastforce
  then have "event_calls call i st = Some st"
    by (rule event_calls_idle)
  with Cons show ?case
    by simp
qed simp

text \<open>If all events but the first are idle before and after the callbacks of the first, a round is what the first event does.\<close>

lemma poll_first:
  assumes "event_calls call 0 (select_poll ready (fst st), snd st) = Some st'"
    and "el_event (fst st') = e # es" "length es = 4" "list_all idle es"
  shows "snmp_event_poll call ready st = Some st'"
proof -
  have "[0..<SNMP_MAX_EVENTS] = 0 # [1..<5]"
    by (simp add: SNMP_MAX_EVENTS_def upt_rec)
  moreover have "event_calls_all call [1..<5] st' = Some st'"
  proof (rule event_calls_all_idle)
    fix i assume "i \<in> set [1..<5 :: nat]"
    then have "1 \<le> i" "i < 5"
      by simp_all
    then obtain j where "i = Suc j" "j < length es"
      using assms(3) by (cases i) simp_all
    then show "\<exists>e. rd (el_event (fst st')) i = Some e \<and> \<not> ev_read e \<and> \<not> ev_write e"
      using assms(2,4) by (auto simp: rd_def list_all_length idle_def)
  qed
  ultimately show ?thesis
    by (simp add: snmp_event_poll_def assms(1))
qed

lemma select_mark_idle: "list_all idle es \<Longrightarrow> map (select_mark r w) es = es"
  by (induction es) (auto simp: select_mark_def idle_def)

lemma servingE:
  assumes "serving st"
  obtains e es where "el_event (fst st) = e # es" "list_all idle es" "length es = 4"
    "udp_slot (ud_sock (snd st)) (ud_buf (snd st) \<noteq> None) e" "\<not> ev_read e" "\<not> ev_write e" "el_start (fst st)" "ev_ok (fst st)"
    "fd_ok (ud_sock (snd st))"
  using assms by (auto simp: serving_def ev_ok_def SNMP_MAX_EVENTS_def split: list.splits)

text \<open>The loop after \<open>snmp_event_add\<close> and \<open>snmp_event_remove\<close> of the write event.\<close>

lemma add_write:
  assumes "el_event el = e # es" "udp_slot sock p e" "ev_ok el" "fd_ok sock"
  shows "\<exists>el' e'. snmp_event_add sock SNMP_EV_WRITE Snmp_Write el = Some (0, el') \<and> ev_ok el' \<and> el_event el' = e' # es
    \<and> udp_slot sock True e' \<and> ev_read e' = ev_read e \<and> ev_write e' = ev_write e \<and> el_start el' = el_start el"
proof -
  let ?e = "event_set_cb SNMP_EV_WRITE Snmp_Write (e\<lparr>ev_flag := ev_flag e OR SNMP_EV_WRITE\<rparr>)"
  have "udp_slot sock True ?e"
    using assms(2) by (auto simp: udp_slot_def event_set_cb_def ev_flags split: if_splits)
  moreover obtain r el' where "snmp_event_add sock SNMP_EV_WRITE Snmp_Write el = Some (r, el')" "ev_ok el'"
    using snmp_event_add_ok [OF assms(3,4), of SNMP_EV_WRITE Snmp_Write] by auto
  ultimately show ?thesis
    using assms by (auto simp: snmp_event_add_def udp_slot_def select_add_def ev_flags event_set_cb_def)
qed

lemma remove_write:
  assumes "el_event el = e # es" "list_all idle es" "udp_slot sock True e" "ev_ok el" "fd_ok sock"
  shows "\<exists>el' e'. snmp_event_remove sock SNMP_EV_WRITE el = Some el' \<and> ev_ok el' \<and> el_event el' = e' # es
    \<and> udp_slot sock False e' \<and> ev_read e' = ev_read e \<and> \<not> ev_write e' \<and> el_start el' = el_start el"
proof -
  obtain el' where el': "snmp_event_remove sock SNMP_EV_WRITE el = Some el'" "ev_ok el'"
    using snmp_event_remove_ok [OF assms(4,5), of SNMP_EV_WRITE] by auto
  have "sock \<noteq> - 1"
    using assms(5) by (auto simp: fd_ok_def)
  then have "map (\<lambda>e. if ev_fd e = sock then event_remove SNMP_EV_WRITE e else e) es = es"
    using assms(2) by (induction es) (auto simp: idle_def)
  then have "el_event el' = event_remove SNMP_EV_WRITE e # es" "el_start el' = el_start el"
    using el'(1) assms(1,3) unfolding snmp_event_remove_def event_remove_loop_eq [OF assms(5)]
    by (auto simp: udp_slot_def simp del: map_eq_conv split: if_splits)
  moreover have "(3 :: u8) AND NOT 2 = 1"
    by (simp)
  ultimately show ?thesis
    using el' assms(3) by (auto simp: udp_slot_def event_remove_def Let_def ev_flags)
qed

subsection \<open>Rounds of the loop\<close>

text \<open>The effect of \<open>select\<close> on the events of a serving loop.\<close>

definition marked :: "bool \<Rightarrow> bool \<Rightarrow> udp_cb event_loop \<Rightarrow> udp_cb event_loop" where
  "marked r w el = el\<lparr>el_event := (case el_event el of [] \<Rightarrow> [] | e # es \<Rightarrow> e\<lparr>ev_read := r, ev_write := w\<rparr> # es)\<rparr>"

lemma marked_ok [simp]: "ev_ok (marked r w el) = ev_ok el" "el_start (marked r w el) = el_start el"
  by (simp_all add: marked_def ev_ok_def slot_ok_def split: list.split)

lemma marked_slot [simp]: "udp_slot sock p (e\<lparr>ev_read := r, ev_write := w\<rparr>) = udp_slot sock p e"
  by (simp add: udp_slot_def)

lemma select_poll_serving:
  assumes "serving st" "r \<subseteq> {ud_sock (snd st)}" "w \<subseteq> {ud_sock (snd st)}" "w \<noteq> {} \<Longrightarrow> ud_buf (snd st) \<noteq> None"
  shows "select_poll (Some (r, w)) (fst st) = marked (r \<noteq> {}) (w \<noteq> {}) (fst st)"
proof -
  obtain e es where e: "el_event (fst st) = e # es" "list_all idle es"
      "udp_slot (ud_sock (snd st)) (ud_buf (snd st) \<noteq> None) e" "\<not> ev_read e" "\<not> ev_write e"
    using assms(1) by (rule servingE)
  have "ev_fd e \<in> r \<longleftrightarrow> r \<noteq> {}" "ev_fd e \<in> w \<longleftrightarrow> w \<noteq> {}"
    using assms(2,3) e(3) by (auto simp: udp_slot_def)
  then have "select_mark r w e = e\<lparr>ev_read := r \<noteq> {}, ev_write := w \<noteq> {}\<rparr>"
    using e(3-5) assms(4) by (cases e) (auto simp: select_mark_def udp_slot_def ev_flags split: if_splits)
  then show ?thesis
    using e(1,2) by (simp add: select_poll_def marked_def select_mark_idle)
qed

text \<open>The read handler on a serving loop whose first event has been marked. It overwrites the address of the client and, if there is an
  answer, the pending answer.\<close>

lemma read_handler_serving:
  assumes "serving st" "trans_receive rc (Some b) (ud_agent (snd st)) = Some (g, r)" "os_recv os = Some (b, a)"
  shows "\<exists>st' e es. snmp_read_handler rc os (marked True w (fst st), snd st) = Some st' \<and> el_event (fst st') = e # es \<and> list_all idle es
    \<and> ev_ok (fst st') \<and> el_start (fst st') \<and> udp_slot (ud_sock (snd st)) (ud_buf (snd st') \<noteq> None) e \<and> ev_write e = w
    \<and> snd st' = (snd st)\<lparr>ud_client := Some a, ud_agent := g, ud_buf := (if r = None then ud_buf (snd st) else r)\<rparr>"
proof -
  obtain e es where e: "el_event (fst st) = e # es" "list_all idle es" "length es = 4"
      "udp_slot (ud_sock (snd st)) (ud_buf (snd st) \<noteq> None) e" "el_start (fst st)" "ev_ok (fst st)" "fd_ok (ud_sock (snd st))"
    using assms(1) by (rule servingE)
  let ?e = "e\<lparr>ev_read := True, ev_write := w\<rparr>"
  have m1: "el_event (marked True w (fst st)) = ?e # es"
    using e(1) by (simp add: marked_def)
  have m: "ev_ok (marked True w (fst st))" "el_start (marked True w (fst st))" "udp_slot (ud_sock (snd st)) (ud_buf (snd st) \<noteq> None) ?e"
    using e by simp_all
  show ?thesis
  proof (cases r)
    case None
    have "(snd st)\<lparr>ud_client := Some a, ud_agent := g, ud_buf := ud_buf (snd st)\<rparr> = (snd st)\<lparr>ud_client := Some a, ud_agent := g\<rparr>"
      by simp
    then show ?thesis
      using None assms(2,3) m1 m e(2) by (auto simp: snmp_read_handler_def)
  next
    case (Some x)
    from add_write [OF m1 m(3,1) e(7)] obtain el' e' where
      "snmp_event_add (ud_sock (snd st)) SNMP_EV_WRITE Snmp_Write (marked True w (fst st)) = Some (0, el')" "ev_ok el'"
      "el_event el' = e' # es" "udp_slot (ud_sock (snd st)) True e'" "ev_write e' = w" "el_start el' = el_start (marked True w (fst st))"
      by auto
    then show ?thesis
      using Some assms(2,3) m(2) e(2) by (auto simp: snmp_read_handler_def evloop_transport_send_def)
  qed
qed

text \<open>What a round does to the data of the transport: a datagram is read, an answer is written.\<close>

definition udp_in :: "'a \<Rightarrow> 'g \<Rightarrow> msg option \<Rightarrow> ('g, 'a) udp \<Rightarrow> ('g, 'a) udp" where
  "udp_in a g x u = u\<lparr>ud_client := Some a, ud_agent := g, ud_buf := (if x = None then ud_buf u else x)\<rparr>"

definition udp_out :: "bool \<Rightarrow> ('g, 'a) udp \<Rightarrow> ('g, 'a) udp" where
  "udp_out taken u = (case (ud_buf u, ud_client u) of
      (Some m, Some c) \<Rightarrow> u\<lparr>ud_sent := ud_sent u @ (if taken then [(c, m)] else []), ud_buf := None, ud_client := None\<rparr>
    | _ \<Rightarrow> u)"

text \<open>The loop has ended.\<close>

definition halted :: "('g, 'a) udp_state \<Rightarrow> bool" where
  "halted st \<longleftrightarrow> \<not> el_start (fst st) \<and> list_all idle (el_event (fst st)) \<and> length (el_event (fst st)) = 5"

text \<open>The state after the callback for reading of the first event.\<close>

definition read_done :: "bool \<Rightarrow> ('g, 'a) udp_state \<Rightarrow> bool" where
  "read_done w st = (case el_event (fst st) of [] \<Rightarrow> False | e # es \<Rightarrow>
     list_all idle es \<and> udp_slot (ud_sock (snd st)) (ud_buf (snd st) \<noteq> None) e \<and> \<not> ev_read e \<and> ev_write e = w
     \<and> (ud_buf (snd st) \<noteq> None \<longrightarrow> ud_client (snd st) \<noteq> None)
     \<and> el_start (fst st) \<and> ev_ok (fst st) \<and> fd_ok (ud_sock (snd st)))"

lemma event_at_ok: "ev_ok (fst (event_at 0 (ev_read_update f) st)) = ev_ok (fst st)"
  by (cases "el_event (fst st)") (simp_all add: ev_ok_def slot_ok_def event_at_def)

lemma read_stage:
  assumes "serving st" "r \<Longrightarrow> os_recv os = Some (b, a) \<and> trans_receive rc (Some b) (ud_agent (snd st)) = Some (g, x)"
  shows "\<exists>st'. event_read_cb (udp_call rc os) 0 (marked r w (fst st), snd st) = Some st' \<and> read_done w st'
    \<and> snd st' = (if r then udp_in a g x (snd st) else snd st)"
proof (cases r)
  case False
  have "read_done w (marked False w (fst st), snd st)"
    using assms(1) by (auto simp: serving_def read_done_def marked_def ev_ok_def slot_ok_def split: list.splits)
  moreover from this have "event_read_cb (udp_call rc os) 0 (marked False w (fst st), snd st) = Some (marked False w (fst st), snd st)"
    by (auto simp: event_read_cb_def read_done_def rd_def split: list.splits option.splits)
  ultimately show ?thesis
    using False by simp
next
  case True
  obtain e0 es0 where e0: "el_event (fst st) = e0 # es0" "udp_slot (ud_sock (snd st)) (ud_buf (snd st) \<noteq> None) e0" "fd_ok (ud_sock (snd st))"
    using assms(1) by (rule servingE)
  obtain st1 e es where 1: "snmp_read_handler rc os (marked True w (fst st), snd st) = Some st1" "el_event (fst st1) = e # es"
      "list_all idle es" "ev_ok (fst st1)" "el_start (fst st1)" "udp_slot (ud_sock (snd st)) (ud_buf (snd st1) \<noteq> None) e" "ev_write e = w"
      "snd st1 = udp_in a g x (snd st)"
    using read_handler_serving [OF assms(1), of rc b g x os a w] assms(2) True unfolding udp_in_def by blast
  let ?st = "event_at 0 (ev_read_update (\<lambda>_. False)) st1"
  have "event_read_cb (udp_call rc os) 0 (marked True w (fst st), snd st) = Some ?st"
    using e0(1,2) 1(1) by (simp add: event_read_cb_def marked_def udp_slot_def rd_def udp_call_def)
  moreover have "read_done w ?st"
    using 1(2-8) e0(3) event_at_ok [of "\<lambda>_. False" st1] by (simp add: read_done_def event_at_def udp_slot_def udp_in_def)
  moreover have "snd ?st = udp_in a g x (snd st)"
    using 1(8) by (simp add: event_at_def)
  ultimately show ?thesis
    using True by auto
qed

lemma write_handler_halts:
  assumes "fd_ok (ud_sock u)" "ud_buf u \<noteq> None" "ud_client u \<noteq> None" "\<not> os_send os" "length (el_event el) = 5"
  shows "\<exists>st'. snmp_write_handler os (ud_sock u) SNMP_EV_WRITE (el, u) = Some st' \<and> halted st' \<and> snd st' = udp_out False u"
proof -
  let ?es = "map event_free (el_event el)"
  have "ud_sock u \<noteq> - 1" "list_all idle ?es"
    using assms(1) by (auto simp: fd_ok_def idle_def event_free_def list_all_iff)
  then have r: "map (\<lambda>e. if ev_fd e = ud_sock u then event_remove SNMP_EV_WRITE e else e) ?es = ?es"
    by (auto simp: idle_def list_all_iff intro: map_idI)
  have "\<exists>el'. snmp_event_remove (ud_sock u) SNMP_EV_WRITE (snmp_event_done el) = Some el' \<and> el_event el' = ?es \<and> \<not> el_start el'"
    unfolding snmp_event_remove_def event_remove_loop_eq [OF assms(1)] by (simp add: snmp_event_done_def r del: map_map)
  then show ?thesis
    using \<open>list_all idle ?es\<close> assms(2-5) by (auto simp: snmp_write_handler_def halted_def udp_out_def)
qed

lemma write_handler_serves:
  assumes "read_done w st" "ud_buf (snd st) \<noteq> None" "os_send os"
  shows "\<exists>st'. snmp_write_handler os (ud_sock (snd st)) SNMP_EV_WRITE st = Some st' \<and> serving st' \<and> snd st' = udp_out True (snd st)"
proof -
  obtain el u where st: "st = (el, u)"
    by force
  obtain e es where e: "el_event el = e # es" "list_all idle es" "udp_slot (ud_sock u) True e" "ev_ok el" "fd_ok (ud_sock u)" "\<not> ev_read e"
      "el_start el" "ud_client u \<noteq> None"
    using assms(1,2) st by (auto simp: read_done_def split: list.splits)
  from remove_write [OF e(1-5)] obtain el' e' where "snmp_event_remove (ud_sock u) SNMP_EV_WRITE el = Some el'" "ev_ok el'"
      "el_event el' = e' # es" "udp_slot (ud_sock u) False e'" "\<not> ev_read e'" "\<not> ev_write e'" "el_start el'"
    using e(6,7) by auto
  then show ?thesis
    using e assms(2,3) st by (auto simp: snmp_write_handler_def serving_def udp_out_def)
qed

lemma write_reset: "serving st \<or> halted st \<Longrightarrow> event_at 0 (ev_write_update (\<lambda>_. False)) st = st"
proof -
  assume "serving st \<or> halted st"
  then obtain e es where e: "el_event (fst st) = e # es" "\<not> ev_write e"
    by (cases "el_event (fst st)") (auto simp: serving_def halted_def idle_def)
  then have "ev_write_update (\<lambda>_. False) e = e"
    by (cases e) simp
  with e(1) show ?thesis
    by (cases st) (simp add: event_at_def)
qed

lemma write_stage:
  assumes "read_done w st" "w \<Longrightarrow> ud_buf (snd st) \<noteq> None"
  shows "\<exists>st'. event_write_cb (udp_call rc os) 0 st = Some st' \<and> (if w \<and> \<not> os_send os then halted st' else serving st')
    \<and> snd st' = (if w then udp_out (os_send os) (snd st) else snd st)"
proof (cases w)
  case False
  then have "serving st"
    using assms(1) by (simp add: read_done_def serving_def split: list.splits)
  moreover have "event_write_cb (udp_call rc os) 0 st = Some st"
    using False assms(1) by (auto simp: event_write_cb_def read_done_def rd_def split: list.splits option.splits)
  ultimately show ?thesis
    using False by simp
next
  case True
  obtain e es where e: "el_event (fst st) = e # es" "ev_wcb e = Some Snmp_Write" "ev_write e" "ev_fd e = ud_sock (snd st)" "fd_ok (ud_sock (snd st))"
      "ud_client (snd st) \<noteq> None" "length (el_event (fst st)) = 5"
    using assms True by (auto simp: read_done_def udp_slot_def ev_ok_def SNMP_MAX_EVENTS_def split: list.splits)
  obtain st' where st': "snmp_write_handler os (ud_sock (snd st)) SNMP_EV_WRITE st = Some st'" "if os_send os then serving st' else halted st'"
      "snd st' = udp_out (os_send os) (snd st)"
  proof (cases "os_send os")
    case True
    then show ?thesis
      using write_handler_serves [OF assms(1), of os] assms(2) \<open>w\<close> that by auto
  next
    case False
    then show ?thesis
      using write_handler_halts [OF e(5) _ e(6) False e(7)] assms(2) \<open>w\<close> that by auto
  qed
  then have "event_at 0 (ev_write_update (\<lambda>_. False)) st' = st'"
    by (intro write_reset) (simp split: if_splits)
  then show ?thesis
    using e True st' by (auto simp: event_write_cb_def rd_def udp_call_def)
qed

text \<open>One round, whatever happens in it. If a datagram arrives and the socket can take data, the datagram is read first.\<close>

lemma udp_round_effect:
  assumes "serving st" "os_ready os = Some (rs, ws)" "rs \<subseteq> {ud_sock (snd st)}" "ws \<subseteq> {ud_sock (snd st)}" "ws \<noteq> {} \<Longrightarrow> ud_buf (snd st) \<noteq> None"
    and "rs \<noteq> {} \<Longrightarrow> os_recv os = Some (b, a) \<and> trans_receive rc (Some b) (ud_agent (snd st)) = Some (g, x)"
  defines "u \<equiv> if rs = {} then snd st else udp_in a g x (snd st)"
  shows "\<exists>st'. udp_round rc os st = Some st' \<and> snd st' = (if ws = {} then u else udp_out (os_send os) u)
    \<and> (if ws \<noteq> {} \<and> \<not> os_send os then halted st' else serving st')"
proof -
  obtain st1 where 1: "event_read_cb (udp_call rc os) 0 (marked (rs \<noteq> {}) (ws \<noteq> {}) (fst st), snd st) = Some st1" "read_done (ws \<noteq> {}) st1" "snd st1 = u"
    using read_stage [OF assms(1), of "rs \<noteq> {}" os b a rc g x "ws \<noteq> {}"] assms(6) by (cases "rs = {}") (auto simp: u_def)
  have "ud_buf (snd st1) \<noteq> None" if "ws \<noteq> {}"
    using assms(5) that 1(3) by (auto simp: u_def udp_in_def)
  from write_stage [OF 1(2) this] obtain st' where 2: "event_write_cb (udp_call rc os) 0 st1 = Some st'"
      "if ws \<noteq> {} \<and> \<not> os_send os then halted st' else serving st'" "snd st' = (if ws = {} then u else udp_out (os_send os) u)"
    unfolding 1(3) by (metis (full_types))
  have "event_calls (udp_call rc os) 0 (select_poll (os_ready os) (fst st), snd st) = Some st'"
    using 1(1) 2(1) select_poll_serving [OF assms(1,3,4)] assms(2,5) by (simp add: event_calls_def)
  moreover obtain e es where "el_event (fst st') = e # es" "length es = 4" "list_all idle es"
    using 2(2) by (cases "el_event (fst st')") (auto simp: serving_def halted_def ev_ok_def SNMP_MAX_EVENTS_def split: if_splits)
  ultimately have "snmp_event_poll (udp_call rc os) (os_ready os) st = Some st'"
    by (rule poll_first)
  moreover have "el_start (fst st)"
    using assms(1) by (rule servingE)
  ultimately show ?thesis
    using 2(2,3) by (simp add: udp_round_def)
qed

lemma round_in:
  assumes "serving st" "trans_receive rc (Some b) (ud_agent (snd st)) = Some (g, x)"
  shows "\<exists>st'. udp_round rc (os_in (ud_sock (snd st)) b a) st = Some st' \<and> serving st' \<and> snd st' = udp_in a g x (snd st)"
  using udp_round_effect [OF assms(1), of "os_in (ud_sock (snd st)) b a" "{ud_sock (snd st)}" "{}" b a rc g x] assms(2)
  by (auto simp: os_in_def)

lemma round_out:
  assumes "serving st" "ud_buf (snd st) \<noteq> None"
  shows "\<exists>st'. udp_round rc (os_out (ud_sock (snd st)) taken) st = Some st' \<and> (if taken then serving st' else halted st')
    \<and> snd st' = udp_out taken (snd st)"
  using udp_round_effect [OF assms(1), of "os_out (ud_sock (snd st)) taken" "{}" "{ud_sock (snd st)}"] assms(2)
  by (cases taken) (auto simp: os_out_def)

subsection \<open>Any behaviour of the operating system\<close>

text \<open>What the operating system may do in a round: \<open>select\<close> reports only descriptors it was asked about, and a socket reported as
  readable gives a datagram. Nothing is said about the order of reads and writes, or about \<open>sendto\<close>.\<close>

definition os_reads :: "'a os \<Rightarrow> (bytes \<times> 'a) list" where
  "os_reads os = (case (os_ready os, os_recv os) of (Some (r, w), Some d) \<Rightarrow> if r = {} then [] else [d] | _ \<Rightarrow> [])"

definition os_ok :: "('g, 'a) udp_state \<Rightarrow> 'a os \<Rightarrow> bool" where
  "os_ok st os \<longleftrightarrow> select_ok (fst st) (os_ready os) \<and> (\<forall>r w. os_ready os = Some (r, w) \<and> r \<noteq> {} \<longrightarrow> os_recv os \<noteq> None)"

text \<open>The states of the transport, with the datagrams read so far.\<close>

inductive udp_trace :: "'g receive \<Rightarrow> ('g, 'a) udp_state \<Rightarrow> (bytes \<times> 'a) list \<Rightarrow> ('g, 'a) udp_state \<Rightarrow> bool" for rc st0 where
  start: "udp_trace rc st0 [] st0"
| round: "udp_trace rc st0 ds st \<Longrightarrow> el_start (fst st) \<Longrightarrow> os_ok st os \<Longrightarrow> udp_round rc os st = Some st' \<Longrightarrow>
    udp_trace rc st0 (ds @ os_reads os) st'"

lemma serve_append: "serve rc (xs @ ys) g = do { (g1, out1) \<leftarrow> serve rc xs g; (g2, out2) \<leftarrow> serve rc ys g1; Some (g2, out1 @ out2) }"
  by (induction xs arbitrary: g) (auto split: Option.bind_splits)

lemma select_nothing: "select_poll None el = select_poll (Some ({}, {})) el"
proof -
  have "select_mark {} {} = (\<lambda>e :: 'a snmp_event. e)"
    by (rule ext) (simp add: select_mark_def)
  then show ?thesis
    by (simp add: select_poll_def)
qed

lemma udp_round_poll: "el_start (fst st) \<Longrightarrow> udp_round rc os st = snmp_event_poll (udp_call rc os) (os_ready os) st"
  by (cases "snmp_event_poll (udp_call rc os) (os_ready os) st") (simp_all add: udp_round_def)

lemma round_nothing: "os_ready os = None \<Longrightarrow> udp_round rc os st = udp_round rc (os\<lparr>os_ready := Some ({}, {})\<rparr>) st"
proof -
  have "udp_call rc (os\<lparr>os_ready := r\<rparr>) = udp_call rc os" for r
    by (intro ext) (simp add: udp_call_def snmp_read_handler_def snmp_write_handler_def split: udp_cb.split)
  then show "os_ready os = None \<Longrightarrow> udp_round rc os st = udp_round rc (os\<lparr>os_ready := Some ({}, {})\<rparr>) st"
    by (cases "el_start (fst st)") (simp_all add: udp_round_poll snmp_event_poll_def select_nothing udp_round_def)
qed

lemma serving_masks:
  assumes "serving st"
  shows "env_rfds (fst st) = {ud_sock (snd st)}" "env_wfds (fst st) = (if ud_buf (snd st) = None then {} else {ud_sock (snd st)})"
proof -
  obtain e es where e: "el_event (fst st) = e # es" "list_all idle es" "udp_slot (ud_sock (snd st)) (ud_buf (snd st) \<noteq> None) e" "ev_ok (fst st)"
    using assms by (rule servingE)
  have "ev_mask p es = {}" if "\<not> p 0" for p
    using e(2) that by (induction es) (auto simp: idle_def)
  then show "env_rfds (fst st) = {ud_sock (snd st)}" "env_wfds (fst st) = (if ud_buf (snd st) = None then {} else {ud_sock (snd st)})"
    using e(1,3,4) by (auto simp: ev_ok_def udp_slot_def ev_flags split: if_splits)
qed

lemma udp_round_undefined:
  assumes "serving st" "os_ready os = Some (rs, ws)" "rs = {ud_sock (snd st)}" "ws \<subseteq> {ud_sock (snd st)}" "ws \<noteq> {} \<Longrightarrow> ud_buf (snd st) \<noteq> None"
    and "os_recv os = Some (b, a)" "trans_receive rc (Some b) (ud_agent (snd st)) = None"
  shows "udp_round rc os st = None"
proof -
  obtain e es where e: "el_event (fst st) = e # es" "udp_slot (ud_sock (snd st)) (ud_buf (snd st) \<noteq> None) e" "el_start (fst st)"
    using assms(1) by (rule servingE)
  have "snmp_read_handler rc os (marked True (ws \<noteq> {}) (fst st), snd st) = None"
    using assms(6,7) by (simp add: snmp_read_handler_def)
  then have "event_read_cb (udp_call rc os) 0 (marked True (ws \<noteq> {}) (fst st), snd st) = None"
    using e(1,2) by (simp add: event_read_cb_def marked_def rd_def udp_slot_def udp_call_def)
  moreover have "select_poll (os_ready os) (fst st) = marked True (ws \<noteq> {}) (fst st)"
    using select_poll_serving [OF assms(1) _ assms(4,5), of rs] assms(2,3) by simp
  moreover have "[0..<SNMP_MAX_EVENTS] = 0 # [1..<5]"
    by (simp add: SNMP_MAX_EVENTS_def upt_rec)
  ultimately show ?thesis
    using e(3) by (simp add: udp_round_def snmp_event_poll_def event_calls_def)
qed

text \<open>The messages sent and the pending one.\<close>

definition udp_msgs :: "('g, 'a) udp \<Rightarrow> msg list" where
  "udp_msgs u = map snd (ud_sent u) @ (case ud_buf u of None \<Rightarrow> [] | Some m \<Rightarrow> [m])"

lemma udp_out_msgs: "subseq (udp_msgs (udp_out taken u)) (udp_msgs u)"
  by (auto simp: udp_out_def udp_msgs_def split: option.split)

lemma udp_in_msgs: "subseq (udp_msgs (udp_in a g x u)) (udp_msgs u @ map snd (answer_to a x))"
  by (auto simp: udp_in_def udp_msgs_def answer_to_def list_emb_append_mono split: option.split)

lemma udp_data_agent [simp]: "ud_agent (udp_out taken u) = ud_agent u" "ud_agent (udp_in a g x u) = g"
  by (simp_all add: udp_out_def udp_in_def split: option.split)

text \<open>One round: what is pending may be lost or sent, in the order of the answers.\<close>

lemma udp_round_ready:
  assumes "serving st" "os_ok st os" "os_ready os = Some (rs, ws)"
  shows "case serve rc (os_reads os) (ud_agent (snd st)) of
      None \<Rightarrow> udp_round rc os st = None
    | Some (g, out) \<Rightarrow> \<exists>st'. udp_round rc os st = Some st' \<and> ud_agent (snd st') = g \<and> (serving st' \<or> halted st' \<and> \<not> os_send os)
        \<and> subseq (udp_msgs (snd st')) (udp_msgs (snd st) @ map snd out)"
proof -
  have s: "rs \<subseteq> {ud_sock (snd st)}" "ws \<subseteq> {ud_sock (snd st)}" "ws \<noteq> {} \<Longrightarrow> ud_buf (snd st) \<noteq> None"
    using assms(2,3) serving_masks [OF assms(1)] by (auto simp: os_ok_def select_ok_def split: if_splits)
  show ?thesis
  proof (cases "rs = {}")
    case True
    have "\<exists>st'. udp_round rc os st = Some st' \<and> snd st' = (if ws = {} then snd st else udp_out (os_send os) (snd st))
      \<and> (if ws \<noteq> {} \<and> \<not> os_send os then halted st' else serving st')"
      using udp_round_effect [OF assms(1,3) s, of undefined undefined rc undefined undefined] True
      by (cases "ws = {}"; cases "os_send os") simp_all
    moreover have "os_reads os = []"
      using True assms(3) by (simp add: os_reads_def split: option.split)
    ultimately show ?thesis
      using udp_out_msgs [of _ "snd st"] by (auto split: if_splits)
  next
    case False
    then obtain b a where r: "rs = {ud_sock (snd st)}" "os_recv os = Some (b, a)" "os_reads os = [(b, a)]"
      using s(1) assms(2,3) by (fastforce simp: os_ok_def os_reads_def)
    show ?thesis
    proof (cases "trans_receive rc (Some b) (ud_agent (snd st))")
      case None
      then show ?thesis
        using udp_round_undefined [OF assms(1,3) r(1) s(2,3) r(2) None] r(3) by simp
    next
      case (Some gx)
      obtain g x where gx: "gx = (g, x)"
        by force
      obtain st' where
        "udp_round rc os st = Some st'" "snd st' = (if ws = {} then udp_in a g x (snd st) else udp_out (os_send os) (udp_in a g x (snd st)))"
        "if ws \<noteq> {} \<and> \<not> os_send os then halted st' else serving st'"
        using udp_round_effect [OF assms(1,3) s, of b a rc g x] False r(2) Some gx by (cases "ws = {}"; cases "os_send os") auto
      moreover have "subseq (udp_msgs (udp_out taken (udp_in a g x (snd st)))) (udp_msgs (snd st) @ map snd (answer_to a x))" for taken
        by (rule subseq_order.trans [OF udp_out_msgs udp_in_msgs])
      ultimately show ?thesis
        using r(3) Some gx udp_in_msgs [of a g x "snd st"] by (auto split: if_splits)
    qed
  qed
qed

lemma udp_round_step:
  assumes "serving st" "os_ok st os"
  shows "case serve rc (os_reads os) (ud_agent (snd st)) of
      None \<Rightarrow> udp_round rc os st = None
    | Some (g, out) \<Rightarrow> \<exists>st'. udp_round rc os st = Some st' \<and> ud_agent (snd st') = g \<and> (serving st' \<or> halted st' \<and> \<not> os_send os)
        \<and> subseq (udp_msgs (snd st')) (udp_msgs (snd st) @ map snd out)"
proof (cases "os_ready os")
  case None
  let ?os = "os\<lparr>os_ready := Some ({}, {})\<rparr>"
  have "os_ok st ?os" "os_reads os = os_reads ?os"
    using None by (simp_all add: os_ok_def select_ok_def os_reads_def split: option.split)
  then show ?thesis
    using udp_round_ready [OF assms(1), of ?os "{}" "{}" rc] unfolding round_nothing [OF None, of rc st] by (auto split: option.splits)
next
  case (Some rw)
  then show ?thesis
    using udp_round_ready [OF assms, of "fst rw" "snd rw"] by simp
qed

text \<open>C10: Whatever the operating system does, the transport invents, repeats and reorders nothing: the messages sent and the pending one are a
  subsequence of the answers of the abstract server to the datagrams read. The loop serves or has ended, and a round of a serving
  loop is defined if the agent handles its datagram.\<close>

theorem evloop_at_most_once:
  assumes "udp_trace rc st0 ds st" "serving st0" "ud_buf (snd st0) = None"
  shows "(serving st \<or> halted st) \<and>
    (\<exists>out. serve rc ds (ud_agent (snd st0)) = Some (ud_agent (snd st), out) \<and>
       subseq (udp_msgs (snd st)) (map snd (ud_sent (snd st0) @ out))) \<and>
    (\<forall>os. serving st \<and> os_ok st os \<and> serve rc (os_reads os) (ud_agent (snd st)) \<noteq> None \<longrightarrow> udp_round rc os st \<noteq> None)"
proof -
  have "\<forall>os. serving st \<and> os_ok st os \<and> serve rc (os_reads os) (ud_agent (snd st)) \<noteq> None \<longrightarrow> udp_round rc os st \<noteq> None"
    using udp_round_step [of st _ rc] by (fastforce split: option.splits)
  moreover have "(serving st \<or> halted st) \<and> (\<exists>out. serve rc ds (ud_agent (snd st0)) = Some (ud_agent (snd st), out) \<and>
      subseq (udp_msgs (snd st)) (map snd (ud_sent (snd st0) @ out)))"
    using assms(1)
  proof (induction rule: udp_trace.induct)
    case start
    then show ?case
      using assms(2,3) by (simp add: udp_msgs_def)
  next
    case (round ds st os st')
    then obtain out where out: "serving st" "serve rc ds (ud_agent (snd st0)) = Some (ud_agent (snd st), out)"
        "subseq (udp_msgs (snd st)) (map snd (ud_sent (snd st0) @ out))"
      by (auto simp: halted_def)
    obtain out' where "serve rc (os_reads os) (ud_agent (snd st)) = Some (ud_agent (snd st'), out')" "serving st' \<or> halted st'"
        and *: "subseq (udp_msgs (snd st')) (udp_msgs (snd st) @ map snd out')"
      using udp_round_step [OF out(1) round.hyps(3), of rc] round.hyps(4) by (auto split: option.splits)
    moreover have "subseq (udp_msgs (snd st')) (map snd (ud_sent (snd st0) @ out) @ map snd out')"
      by (rule subseq_order.trans [OF * list_emb_append_mono [OF out(3) subseq_order.refl]])
    ultimately show ?case
      using out(2) by (simp add: serve_append)
  qed
  ultimately show ?thesis
    by blast
qed

section \<open>The transport refines the abstract server\<close>

lemma round_quiet:
  assumes "serving st"
  shows "\<exists>st'. udp_round rc os_quiet st = Some st' \<and> serving st' \<and> snd st' = snd st"
  using udp_round_effect [OF assms, of "os_quiet\<lparr>os_ready := Some ({}, {})\<rparr>" "{}" "{}" undefined undefined rc undefined undefined]
    round_nothing [of os_quiet rc st] by (auto simp: os_quiet_def)

lemma halted_stops: "halted st \<Longrightarrow> \<not> udp_running st" "serving st \<Longrightarrow> udp_running st"
  by (simp add: halted_def) (rule servingE)

text \<open>At most one answer may wait: the contract holds as long as no datagram is read before the last answer is sent. A failing \<open>sendto\<close> ends the
  loop.\<close>

interpretation evl: transport rc "udp_ok sock" "\<lambda>st. ud_agent (snd st)" udp_waiting "\<lambda>st. ud_sent (snd st)" "Some 1"
    "\<lambda>st. el_start (fst st)" True "udp_ops sock rc" for rc :: "'g receive" and sock
proof unfold_locales
  fix s :: "('g, 'a) udp_state"
  assume "udp_ok sock s"
  then show "udp_running s"
    by (simp add: udp_ok_def halted_stops(2))
next
  fix s :: "('g, 'a) udp_state" and b a g r
  assume s: "udp_ok sock s" "\<And>c. Some 1 = Some c \<Longrightarrow> length (udp_waiting s) < c"
    "trans_receive rc (Some b) (ud_agent (snd s)) = Some (g, r)"
  then have "ud_buf (snd s) = None"
    by (auto simp: udp_ok_def serving_def udp_waiting_def split: list.splits option.splits)
  moreover from round_in [of s rc b g r a] s(1,3) obtain s' where "on_read (udp_ops sock rc) b a s = Some s'" "serving s'"
      "snd s' = udp_in a g r (snd s)"
    by (auto simp: udp_ok_def udp_ops_def)
  ultimately show "\<exists>s'. on_read (udp_ops sock rc) b a s = Some s' \<and> udp_ok sock s' \<and> ud_agent (snd s') = g \<and> ud_sent (snd s') = ud_sent (snd s)
      \<and> udp_waiting s' = udp_waiting s @ answer_to a r"
    using s(1) by (intro exI [of _ s']) (simp add: udp_ok_def udp_waiting_def answer_to_def udp_in_def split: option.split)
next
  fix s :: "('g, 'a) udp_state" and m ms taken
  assume s: "udp_ok sock s" "udp_waiting s = m # ms"
  then obtain x c where b: "ud_buf (snd s) = Some x" "ud_client (snd s) = Some c" "m = (c, x)" "ms = []"
    by (auto simp: udp_waiting_def split: option.splits)
  with round_out [of s rc taken] s(1) obtain s' where "on_write (udp_ops sock rc) taken s = Some s'"
      "if taken then serving s' else halted s'" "snd s' = udp_out taken (snd s)"
    by (auto simp: udp_ok_def udp_ops_def)
  then show "\<exists>s'. on_write (udp_ops sock rc) taken s = Some s' \<and> (taken \<or> udp_running s' \<longrightarrow> udp_ok sock s') \<and>
      (\<not> taken \<and> True \<longrightarrow> \<not> udp_running s') \<and> ud_agent (snd s') = ud_agent (snd s) \<and>
      ud_sent (snd s') = ud_sent (snd s) @ (if taken then [m] else []) \<and> udp_waiting s' = ms"
    using b s(1) by (cases taken) (auto simp: udp_ok_def udp_waiting_def udp_out_def halted_def)
next
  fix s :: "('g, 'a) udp_state"
  assume s: "udp_ok sock s"
  with round_quiet [of s rc] obtain s' where s': "on_other (udp_ops sock rc) s = Some s'" "serving s'" "snd s' = snd s"
    by (auto simp: udp_ok_def udp_ops_def)
  moreover from s'(3) have "udp_waiting s' = udp_waiting s"
    by (simp add: udp_waiting_def)
  ultimately show "\<exists>s'. on_other (udp_ops sock rc) s = Some s' \<and> udp_ok sock s' \<and> ud_agent (snd s') = ud_agent (snd s) \<and>
      ud_sent (snd s') = ud_sent (snd s) \<and> udp_waiting s' = udp_waiting s"
    using s by (auto simp: udp_ok_def)
qed

lemma event_run_append: "snmp_event_run call ready (xs @ ys) st = do { st' \<leftarrow> snmp_event_run call ready xs st; snmp_event_run call ready ys st' }"
proof (induction xs arbitrary: st)
  case (Cons x xs)
  have "snmp_event_run call ready (xs @ ys) = (\<lambda>st. snmp_event_run call ready xs st \<bind> snmp_event_run call ready ys)"
    using Cons.IH by blast
  then show ?case
    by (cases "el_start (fst st)") (simp add: Option.bind_assoc, cases ys, simp_all)
qed simp

lemma tev_run_rounds:
  "tev_run (\<lambda>st. el_start (fst st)) (udp_ops sock rc) es st = snmp_event_run (udp_call rc) os_ready (map (tev_os sock) es) st"
proof (induction es arbitrary: st)
  case (Cons e es)
  have "tev_step (udp_ops sock rc) e st = udp_round rc (tev_os sock e) st"
    by (cases e) (simp_all add: tev_step_def udp_ops_def tev_os_def)
  moreover have "tev_run (\<lambda>st. el_start (fst st)) (udp_ops sock rc) es = snmp_event_run (udp_call rc) os_ready (map (tev_os sock) es)"
    using Cons.IH by blast
  ultimately show ?case
    by (simp add: udp_round_poll)
qed simp

text \<open>\<open>transport_running\<close> on a table of five events starts to serve.\<close>

lemma running_starts:
  assumes "length (el_event el) = SNMP_MAX_EVENTS" "fd_ok (ud_sock u)" "ud_buf u = None"
  shows "\<exists>el'. snmp_event_add (ud_sock u) SNMP_EV_READ Snmp_Read (snmp_event_init el) = Some (0, el') \<and> serving (el', u)"
proof -
  let ?el = "snmp_event_init el"
  obtain e es where e: "el_event el = e # es" "length es = 4"
    using assms(1) by (cases "el_event el") (auto simp: SNMP_MAX_EVENTS_def)
  obtain ret el' where el': "snmp_event_add (ud_sock u) SNMP_EV_READ Snmp_Read ?el = Some (ret, el')" "ev_ok el'"
    using snmp_event_add_ok [OF snmp_event_init_ok [OF assms(1)] assms(2), of SNMP_EV_READ Snmp_Read] by auto
  have "list_all idle (map event_free es)"
    by (induction es) (simp_all add: idle_def event_free_def)
  then have "serving (el', u)" "ret = 0"
    using el' e assms(2,3)
    by (auto simp: snmp_event_add_def snmp_event_init_def event_free_def select_add_def serving_def udp_slot_def event_set_cb_def
        ev_flags fd_ok_def Let_def split: if_splits)
  then show ?thesis
    using el'(1) by blast
qed

lemma running_serves:
  assumes "length (el_event el) = SNMP_MAX_EVENTS" "fd_ok (ud_sock u)" "ud_buf u = None"
  shows "\<exists>el'. serving (el', u) \<and> evloop_transport_running rc rounds (el, u) = snmp_event_run (udp_call rc) os_ready rounds (el', u)"
  using running_starts [OF assms] by (auto simp: evloop_transport_running_def)

lemma evloop_run:
  assumes "length (el_event el) = SNMP_MAX_EVENTS" "fd_ok (ud_sock u)" "ud_buf u = None"
    and "tev_allowed (Some 1) rc es (ud_agent u) 0"
  shows "\<exists>st' es1 out. evloop_transport_running rc (map (tev_os (ud_sock u)) es) (el, u) = Some st'
    \<and> took_place (udp_running st') es1 es \<and> (udp_running st' \<longrightarrow> serving st')
    \<and> serve rc (datagrams es1) (ud_agent u) = Some (ud_agent (snd st'), out)
    \<and> all_but (if udp_running st' then 0 else 1) (ud_sent u @ out) (ud_sent (snd st') @ udp_waiting st')
    \<and> prefix (ud_sent u) (ud_sent (snd st'))"
proof -
  obtain el' where el': "serving (el', u)"
      "evloop_transport_running rc (map (tev_os (ud_sock u)) es) (el, u) =
        snmp_event_run (udp_call rc) os_ready (map (tev_os (ud_sock u)) es) (el', u)"
    using running_serves [OF assms(1-3)] by blast
  moreover have w: "udp_ok (ud_sock u) (el', u)" "udp_waiting (el', u) = []"
    using el'(1) assms(3) by (simp_all add: udp_ok_def udp_waiting_def)
  moreover have "tev_allowed (Some 1) rc es (ud_agent (snd (el', u))) (length (udp_waiting (el', u)))"
    using w(2) assms(4) by simp
  from evl.run_refines [OF w(1) this] obtain st' es1 out where
      "snmp_event_run (udp_call rc) os_ready (map (tev_os (ud_sock u)) es) (el', u) = Some st'"
      "took_place (udp_running st') es1 es" "udp_running st' \<longrightarrow> udp_ok (ud_sock u) st'"
      "serve rc (datagrams es1) (ud_agent u) = Some (ud_agent (snd st'), out)"
      "all_but (failures es1) (ud_sent u @ out) (ud_sent (snd st') @ udp_waiting st')" "prefix (ud_sent u) (ud_sent (snd st'))"
      "failures es1 = (if udp_running st' then 0 else 1)"
    by (auto simp: tev_run_rounds w(2))
  ultimately show ?thesis
    by (auto simp: udp_ok_def)
qed

text \<open>C9: The agent on the default transport, for any sequence of rounds in each of which a datagram arrives that the agent handles, while no
  answer is pending, or the socket takes or refuses the pending answer, or \<open>select\<close> reports nothing: the datagrams are handled in the order they
  come, and what has been sent and the pending answer are the answers of the abstract server, in order and each to the sender of its datagram. A
  \<open>sendto\<close> that fails ends the loop: then exactly one answer is missing, and the later datagrams are not read.\<close>

theorem evloop_serves:
  assumes "length (el_event el) = SNMP_MAX_EVENTS" "fd_ok (ud_sock u)" "ud_buf u = None"
    and "tev_allowed (Some 1) rc es (ud_agent u) 0"
  shows "\<exists>st' es1 out. evloop_transport_running rc (map (tev_os (ud_sock u)) es) (el, u) = Some st'
    \<and> took_place (udp_running st') es1 es \<and> (udp_running st' \<longrightarrow> serving st')
    \<and> serve rc (datagrams es1) (ud_agent u) = Some (ud_agent (snd st'), out)
    \<and> all_but (if udp_running st' then 0 else 1) (ud_sent u @ out) (ud_sent (snd st') @ udp_waiting st')
    \<and> prefix (ud_sent u) (ud_sent (snd st'))"
  by (rule evloop_run [OF assms])

text \<open>C11: A datagram that is read while an answer is pending spoils the answer: if the datagram is answered, the pending answer is
  never sent, and if it is dropped, the pending answer goes to the sender of the dropped datagram.\<close>

theorem evloop_answer_misdirected:
  assumes "serving st" "udp_waiting st = [(c, m)]" "trans_receive rc (Some b) (ud_agent (snd st)) = Some (g, r)"
  shows "\<exists>st'. snmp_event_run (udp_call rc) os_ready
      [\<lparr>os_ready = Some ({ud_sock (snd st)}, {ud_sock (snd st)}), os_recv = Some (b, a), os_send = True\<rparr>] st = Some st'
    \<and> serving st' \<and> udp_waiting st' = []
    \<and> ud_sent (snd st') = ud_sent (snd st) @ [(a, case r of None \<Rightarrow> m | Some m' \<Rightarrow> m')]"
proof -
  have m: "ud_buf (snd st) = Some m"
    using assms(2) by (auto simp: udp_waiting_def split: option.splits)
  let ?s = "{ud_sock (snd st)}"
  from udp_round_effect [OF assms(1), of "\<lparr>os_ready = Some (?s, ?s), os_recv = Some (b, a), os_send = True\<rparr>" ?s ?s b a rc g r]
  obtain st' where "udp_round rc \<lparr>os_ready = Some (?s, ?s), os_recv = Some (b, a), os_send = True\<rparr> st = Some st'" "serving st'"
      "snd st' = udp_out True (udp_in a g r (snd st))"
    using m assms(3) by auto
  then show ?thesis
    using m by (cases r) (simp_all add: udp_round_def udp_in_def udp_out_def udp_waiting_def del: snmp_event_run.simps)
qed

text \<open>If \<open>sendto\<close> fails, the answer is dropped and the loop ends: the agent handles no further datagram.\<close>

lemma evloop_send_failure:
  assumes "serving st" "udp_waiting st = [(c, m)]"
  shows "\<exists>st'. snmp_event_run (udp_call rc) os_ready (os_out (ud_sock (snd st)) False # rounds) st = Some st'
    \<and> \<not> el_start (fst st') \<and> snd st' = (snd st)\<lparr>ud_buf := None, ud_client := None\<rparr>"
proof -
  have m: "ud_buf (snd st) = Some m" "ud_client (snd st) = Some c"
    using assms(2) by (auto simp: udp_waiting_def split: option.splits)
  let ?os = "os_out (ud_sock (snd st)) False :: 'b os"
  obtain st' where st': "snmp_event_run (udp_call rc) os_ready [?os] st = Some st'" "halted st'" "snd st' = udp_out False (snd st)"
    using round_out [OF assms(1), of rc False] m(1) by (auto simp: udp_round_def simp del: snmp_event_run.simps)
  then have "snmp_event_run (udp_call rc) os_ready rounds st' = Some st'" "\<not> el_start (fst st')"
    by (cases rounds; simp add: halted_def)+
  then show ?thesis
    using st' m event_run_append [of "udp_call rc" os_ready "[?os]" rounds st] by (auto simp: udp_out_def simp del: snmp_event_run.simps)
qed

section \<open>Examples\<close>

definition udp_4 :: "(snmp_datagram \<times> unit, nat) udp" where
  "udp_4 = \<lparr>ud_sock = 4, ud_buf = None, ud_client = None, ud_agent = (snmp_datagram_clear, ()), ud_sent = []\<rparr>"

abbreviation rc_130 :: "(snmp_datagram \<times> unit) receive" where
  "rc_130 \<equiv> snmpd_receive const_handler tree1 db_one"

lemma rc_130_drop: "trans_receive rc_130 (Some [0x31]) g = Some (g, None)"
  by (cases g) (simp add: trans_receive_def snmpd_receive_def snmpd_recv_def rd_def TRANS_BUF_SIZ_def)

lemma el_zero_length: "length (el_event (el_zero :: 'cb event_loop)) = SNMP_MAX_EVENTS"
  by (simp add: el_zero_def SNMP_MAX_EVENTS_def)

lemma udp_4_ok: "fd_ok (ud_sock udp_4)" "ud_buf udp_4 = None" "ud_sent udp_4 = []" "ud_agent udp_4 = (snmp_datagram_clear, ())" "ud_sock udp_4 = 4"
  by (simp_all add: udp_4_def fd_ok_def)

text \<open>A request is read and answered; the answer to the second one is refused.\<close>

theorem evloop_serves_witness:
  "\<exists>st' es1 out. evloop_transport_running rc_130 (map (tev_os 4) [Ev_In get_130 7, Ev_Out True, Ev_Other, Ev_In get_130 8, Ev_Out False])
       (el_zero, udp_4) = Some st' \<and> serve rc_130 (datagrams es1) (snmp_datagram_clear, ()) = Some (ud_agent (snd st'), out) \<and>
     all_but (if udp_running st' then 0 else 1) out (ud_sent (snd st') @ udp_waiting st')"
proof -
  let ?es = "[Ev_In get_130 (7 :: nat), Ev_Out True, Ev_Other, Ev_In get_130 8, Ev_Out False]"
  obtain g1 where 1: "trans_receive rc_130 (Some get_130) (snmp_datagram_clear, ()) = Some ((g1, ()), Some (resp_130, 30))"
    using get_130_received by blast
  obtain g2 where 2: "trans_receive rc_130 (Some get_130) (g1, ()) = Some ((g2, ()), Some (resp_130, 30))"
    using get_130_received by blast
  have "tev_allowed (Some 1) rc_130 ?es (ud_agent udp_4) 0"
    using 1 2 by (simp add: udp_4_ok answer_to_def)
  from evloop_serves [OF el_zero_length udp_4_ok(1,2) this] obtain st' es1 out where
      "evloop_transport_running rc_130 (map (tev_os 4) ?es) (el_zero, udp_4) = Some st'"
      "serve rc_130 (datagrams es1) (snmp_datagram_clear, ()) = Some (ud_agent (snd st'), out)"
      "all_but (if udp_running st' then 0 else 1) out (ud_sent (snd st') @ udp_waiting st')"
    unfolding udp_4_ok append.simps by (elim exE conjE)
  then show ?thesis
    by (intro exI conjI)
qed

text \<open>The first round reads the request of client 7.\<close>

theorem evloop_at_most_once_witness:
  "\<exists>st0 st. udp_trace rc_130 st0 [(get_130, 7 :: nat)] st \<and> ud_sent (snd st0) = [] \<and>
     subseq (udp_msgs (snd st)) [(resp_130, 30)]"
proof -
  obtain el' where el': "serving (el', udp_4)"
    using running_serves [OF el_zero_length udp_4_ok(1,2)] by blast
  obtain sdg where a: "trans_receive rc_130 (Some get_130) (ud_agent (snd (el', udp_4))) = Some ((sdg, ()), Some (resp_130, 30))"
    using get_130_received udp_4_ok(4) by auto
  obtain st where st: "udp_round rc_130 (os_in 4 get_130 7) (el', udp_4) = Some st"
    using round_in [OF el' a, of 7] by (auto simp: udp_4_ok)
  have "os_ok (el', udp_4) (os_in 4 get_130 7)" "os_reads (os_in 4 get_130 7) = [(get_130, 7 :: nat)]"
    using serving_masks [OF el'] el' by (auto simp: os_ok_def os_in_def select_ok_def os_reads_def udp_4_ok serving_def ev_ok_def slot_ok_def
        udp_slot_def fd_ok_def split: list.splits)
  moreover have "el_start el'"
    using el' by (auto elim: servingE)
  ultimately have t: "udp_trace rc_130 (el', udp_4) ([] @ [(get_130, 7)]) st"
    using udp_trace.round [OF udp_trace.start _ _ st] by simp
  then show ?thesis
    using evloop_at_most_once [OF t el'] a by (intro exI [of _ "(el', udp_4)"] exI [of _ st]) (auto simp: udp_4_ok answer_to_def)
qed

text \<open>Client 7 asks, client 8 sends something that is no SNMP message: client 8 gets the answer.\<close>

theorem evloop_answer_misdirected_witness:
  "\<exists>st st'. udp_waiting st = [(7 :: nat, resp_130, 30)] \<and>
     snmp_event_run (udp_call rc_130) os_ready [\<lparr>os_ready = Some ({4}, {4}), os_recv = Some ([0x31], 8), os_send = True\<rparr>] st = Some st' \<and>
     ud_sent (snd st') = [(8, resp_130, 30)]"
proof -
  obtain el' where el': "serving (el', udp_4)"
    using running_serves [OF el_zero_length udp_4_ok(1,2)] by blast
  obtain sdg where a: "trans_receive rc_130 (Some get_130) (ud_agent (snd (el', udp_4))) = Some ((sdg, ()), Some (resp_130, 30))"
    using get_130_received udp_4_ok(4) by auto
  obtain st where st: "serving st" "snd st = udp_4\<lparr>ud_client := Some 7, ud_agent := (sdg, ()), ud_buf := Some (resp_130, 30)\<rparr>"
    using round_in [OF el' a, of 7] by (auto simp: udp_in_def)
  then have w: "udp_waiting st = [(7, resp_130, 30)]"
    by (simp add: udp_waiting_def)
  have s: "ud_sock (snd st) = 4" "ud_sent (snd st) = []"
    using st(2) by (simp_all add: udp_4_ok)
  obtain st' where "snmp_event_run (udp_call rc_130) os_ready [\<lparr>os_ready = Some ({4}, {4}), os_recv = Some ([0x31], 8), os_send = True\<rparr>] st = Some st'"
      "ud_sent (snd st') = [] @ [(8, case None of None \<Rightarrow> (resp_130, 30) | Some m' \<Rightarrow> m')]"
    using evloop_answer_misdirected [OF st(1) w rc_130_drop, of 8, unfolded s] by (elim exE conjE)
  then show ?thesis
    using w by (intro exI conjI) (assumption, assumption, simp)
qed

end
