(* ===== verification/Event_Epoll.thy ===== *)
theory Event_Epoll
  imports Event_Loop
begin

text \<open>
  The event loop with the epoll back end (\<open>core/ev_loop.c\<close> with \<open>core/ev_epoll.h\<close>), an alternative to \<open>select\<close>. The interest list the kernel keeps
  for the epoll descriptor is a map from descriptors to the two kinds of interest; \<open>epoll_ctl\<close> fails, without effect, if the epoll descriptor
  is closed, if it adds a descriptor that is there or if it changes one that is not, and the code does not look at its result. \<open>ep_event\<close> is the array
  \<open>epoll_wait\<close> fills from the front, with the two bits the code looks at. The result of \<open>epoll_wait\<close> is a parameter: the bits of the
  descriptors it reports, in its order. The table of events is that of \<open>Event_Loop\<close>; its descriptor sets belong to the other back end and are
  not used.

  The lemmas show that the operations treat the table as they do with \<open>select\<close>, that the back end works for a program with one descriptor, and
  that it goes wrong with two.
\<close>

section \<open>Definitions\<close>

record epoll_env =
  ep_open :: bool
  ep_interest :: "int \<rightharpoonup> bool \<times> bool"
  ep_event :: "(bool \<times> bool) list"

definition ctl_add :: "int \<Rightarrow> bool \<times> bool \<Rightarrow> epoll_env \<Rightarrow> epoll_env" where
  "ctl_add fd ev env = (if ep_open env \<and> ep_interest env fd = None then env\<lparr>ep_interest := (ep_interest env)(fd \<mapsto> ev)\<rparr> else env)"

definition ctl_mod :: "int \<Rightarrow> bool \<times> bool \<Rightarrow> epoll_env \<Rightarrow> epoll_env" where
  "ctl_mod fd ev env = (if ep_open env \<and> ep_interest env fd \<noteq> None then env\<lparr>ep_interest := (ep_interest env)(fd \<mapsto> ev)\<rparr> else env)"

definition ctl_del :: "int \<Rightarrow> epoll_env \<Rightarrow> epoll_env" where
  "ctl_del fd env = (if ep_open env then env\<lparr>ep_interest := (ep_interest env)(fd := None)\<rparr> else env)"

text \<open>\<open>epoll_create\<close> gives an empty interest list, if it succeeds; closing the epoll descriptor drops the list.\<close>

definition epoll_init :: "bool \<Rightarrow> epoll_env \<Rightarrow> epoll_env" where
  "epoll_init created env = env\<lparr>ep_open := created, ep_interest := Map.empty\<rparr>"

definition epoll_done :: "epoll_env \<Rightarrow> epoll_env" where
  "epoll_done env = env\<lparr>ep_open := False, ep_interest := Map.empty\<rparr>"

definition epoll_add :: "'cb snmp_event \<Rightarrow> u8 \<Rightarrow> epoll_env \<Rightarrow> epoll_env" where
  "epoll_add event flag env =
     (if ev_flag event = SNMP_EV_NONE then ctl_add (ev_fd event) (ev_reads flag, ev_writes flag) env
      else ctl_mod (ev_fd event) (ev_reads flag, ev_writes flag) env)"

definition epoll_remove :: "'cb snmp_event \<Rightarrow> u8 \<Rightarrow> epoll_env \<Rightarrow> epoll_env" where
  "epoll_remove event flag env =
     (let events = (\<not> ev_reads flag, \<not> ev_writes flag) in
      if events = (False, False) then ctl_del (ev_fd event) env else ctl_mod (ev_fd event) events env)"

definition epoll_mark :: "bool \<times> bool \<Rightarrow> 'cb snmp_event \<Rightarrow> 'cb snmp_event" where
  "epoll_mark ee event = event\<lparr>ev_read := ev_read event \<or> fst ee, ev_write := ev_write event \<or> snd ee\<rparr>"

text \<open>After \<open>epoll_wait\<close> all entries of the array are looked at, not only the first \<open>nfds\<close>; entry \<open>i\<close> is taken for event \<open>i\<close>.\<close>

definition epoll_poll :: "(bool \<times> bool) list \<Rightarrow> 'cb snmp_event list \<Rightarrow> epoll_env \<Rightarrow> 'cb snmp_event list \<times> epoll_env" where
  "epoll_poll ready events env =
     (let env1 = env\<lparr>ep_event := ready @ drop (length ready) (ep_event env)\<rparr> in
      (if ready = [] then events else map2 epoll_mark (ep_event env1) events, env1))"

subsection \<open>The operations of the loop\<close>

type_synonym ('cb, 'x) ep_state = "('cb, epoll_env \<times> 'x) ev_state"

definition epoll_event_init :: "bool \<Rightarrow> ('cb, 'x) ep_state \<Rightarrow> ('cb, 'x) ep_state" where
  "epoll_event_init created = (\<lambda>(el, env, x). (snmp_event_init el, epoll_init created env, x))"

definition epoll_event_done :: "('cb, 'x) ep_state \<Rightarrow> ('cb, 'x) ep_state" where
  "epoll_event_done = (\<lambda>(el, env, x). (snmp_event_done el, epoll_done env, x))"

text \<open>\<open>__ev_add\<close> sees the event before its flags are changed.\<close>

primrec epoll_add_loop :: "int \<Rightarrow> u8 \<Rightarrow> 'cb \<Rightarrow> 'cb snmp_event list \<Rightarrow> epoll_env \<Rightarrow> ('cb snmp_event list \<times> bool \<times> epoll_env) option" where
  "epoll_add_loop fd flag cb [] env = None"
| "epoll_add_loop fd flag cb (e # es) env =
     (if ev_fd e = fd then Some (event_set_cb flag cb (e\<lparr>ev_flag := ev_flag e OR flag\<rparr>) # es, False, epoll_add e flag env)
      else if ev_fd e = - 1 then
        Some (event_set_cb flag cb (e\<lparr>ev_fd := fd, ev_flag := flag\<rparr>) # es, True, epoll_add (e\<lparr>ev_fd := fd\<rparr>) flag env)
      else map_option (\<lambda>(es', new, env'). (e # es', new, env')) (epoll_add_loop fd flag cb es env))"

definition epoll_event_add :: "int \<Rightarrow> u8 \<Rightarrow> 'cb \<Rightarrow> ('cb, 'x) ep_state \<Rightarrow> int \<times> ('cb, 'x) ep_state" where
  "epoll_event_add fd flag cb = (\<lambda>(el, env, x).
     (case epoll_add_loop fd flag cb (el_event el) env of
        None \<Rightarrow> (- 1, (el, env, x))
      | Some (es, new, env') \<Rightarrow>
          (0, (el\<lparr>el_event := es, el_max_fd := (if new \<and> fd > el_max_fd el then fd else el_max_fd el)\<rparr>, env', x))))"

primrec epoll_remove_loop :: "int \<Rightarrow> u8 \<Rightarrow> 'cb snmp_event list \<Rightarrow> int \<times> epoll_env \<Rightarrow> 'cb snmp_event list \<times> int \<times> epoll_env" where
  "epoll_remove_loop fd flag [] st = ([], st)"
| "epoll_remove_loop fd flag (e # es) st =
     (let (max_fd, env) = st;
          (e', env1) = (if ev_fd e = fd then (event_remove flag e, epoll_remove e flag env) else (e, env));
          (es', st') = epoll_remove_loop fd flag es (if fd > max_fd then fd else max_fd, env1)
      in (e' # es', st'))"

definition epoll_event_remove :: "int \<Rightarrow> u8 \<Rightarrow> ('cb, 'x) ep_state \<Rightarrow> ('cb, 'x) ep_state" where
  "epoll_event_remove fd flag = (\<lambda>(el, env, x).
     (let (es, max_fd, env') = epoll_remove_loop fd flag (el_event el) (if fd = el_max_fd el then - 1 else el_max_fd el, env)
      in (el\<lparr>el_event := es, el_max_fd := max_fd\<rparr>, env', x)))"

definition epoll_event_poll :: "('cb, epoll_env \<times> 'x) ev_call \<Rightarrow> (bool \<times> bool) list \<Rightarrow> ('cb, 'x) ep_state \<Rightarrow> ('cb, 'x) ep_state option" where
  "epoll_event_poll call ready = (\<lambda>(el, env, x).
     (let (es, env') = epoll_poll ready (el_event el) env
      in event_calls_all call [0..<SNMP_MAX_EVENTS] (el\<lparr>el_event := es\<rparr>, env', x)))"

primrec epoll_event_run :: "('i \<Rightarrow> ('cb, epoll_env \<times> 'x) ev_call) \<Rightarrow> ('i \<Rightarrow> (bool \<times> bool) list) \<Rightarrow> 'i list \<Rightarrow>
    ('cb, 'x) ep_state \<Rightarrow> ('cb, 'x) ep_state option" where
  "epoll_event_run call ready [] st = Some st"
| "epoll_event_run call ready (i # is) st =
     (if el_start (fst st) then do { st' \<leftarrow> epoll_event_poll (call i) (ready i) st; epoll_event_run call ready is st' }
      else Some st)"

section \<open>The table is treated as with \<open>select\<close>\<close>

text \<open>Two loops with the same table; the descriptor sets of the second are those of \<open>select\<close>.\<close>

definition same_table :: "'cb event_loop \<Rightarrow> 'cb event_loop \<Rightarrow> bool" where
  "same_table el el' \<longleftrightarrow> el\<lparr>env_rfds := env_rfds el', env_wfds := env_wfds el'\<rparr> = el'"

lemma same_table_iff:
  "same_table el el' \<longleftrightarrow> el_start el = el_start el' \<and> el_ev_no el = el_ev_no el' \<and> el_max_fd el = el_max_fd el' \<and> el_event el = el_event el'"
  by (cases el; cases el') (simp add: same_table_def)

lemma epoll_add_loop_table:
  "map_option (\<lambda>(es', new, env'). (es', new)) (epoll_add_loop fd flag cb es env) = event_add_loop fd flag cb es"
proof (induction es)
  case (Cons e es)
  then show ?case
    by (cases "epoll_add_loop fd flag cb es env") (auto simp flip: Cons.IH)
qed simp

lemma epoll_event_add_table:
  assumes "same_table el el'" "snmp_event_add fd flag cb el' = Some (r, el1')"
  shows "\<exists>el1 env1. epoll_event_add fd flag cb (el, env, x) = (r, (el1, env1, x)) \<and> same_table el1 el1'"
proof (cases "epoll_add_loop fd flag cb (el_event el') env")
  case None
  then have "event_add_loop fd flag cb (el_event el') = None"
    using epoll_add_loop_table [of fd flag cb "el_event el'" env] by simp
  then show ?thesis
    using None assms by (simp add: epoll_event_add_def snmp_event_add_def same_table_iff)
next
  case (Some y)
  obtain es new env1 where y: "y = (es, new, env1)"
    by (cases y) auto
  then have "event_add_loop fd flag cb (el_event el') = Some (es, new)"
    using Some epoll_add_loop_table [of fd flag cb "el_event el'" env] by simp
  then show ?thesis
    using Some y assms by (auto simp: epoll_event_add_def snmp_event_add_def same_table_iff select_add_def split: if_splits)
qed

lemma epoll_remove_loop_eq:
  "\<exists>env'. epoll_remove_loop fd flag es (m, env) =
     (map (\<lambda>e. if ev_fd e = fd then event_remove flag e else e) es, if es = [] then m else max m fd, env')"
proof (induction es arbitrary: m env)
  case (Cons e es)
  show ?case
    using Cons.IH [of "if fd > m then fd else m" "if ev_fd e = fd then epoll_remove e flag env else env"] by (auto simp: Let_def max_def split: if_splits)
qed simp

lemma epoll_event_remove_table:
  assumes "same_table el el'" "snmp_event_remove fd flag el' = Some el1'" "fd_ok fd"
  shows "\<exists>el1 env1. epoll_event_remove fd flag (el, env, x) = (el1, env1, x) \<and> same_table el1 el1'"
proof -
  obtain env1 where "epoll_remove_loop fd flag (el_event el) (if fd = el_max_fd el then - 1 else el_max_fd el, env) =
      (map (\<lambda>e. if ev_fd e = fd then event_remove flag e else e) (el_event el),
       if el_event el = [] then if fd = el_max_fd el then - 1 else el_max_fd el else max (if fd = el_max_fd el then - 1 else el_max_fd el) fd, env1)"
    using epoll_remove_loop_eq [of fd flag "el_event el" "if fd = el_max_fd el then - 1 else el_max_fd el" env] by blast
  then show ?thesis
    using assms(1,2) unfolding snmp_event_remove_def event_remove_loop_eq [OF assms(3)]
    by (auto simp: epoll_event_remove_def same_table_iff max_def simp del: map_eq_conv split: if_splits)
qed

section \<open>One descriptor\<close>

text \<open>The socket of a transport, in the first event: while it waits for writing, the kernel is not asked about reading, and removing the
  write event restores the interest in reading.\<close>

lemma epoll_write_excludes_read:
  assumes "ev_flag e = SNMP_EV_READ" "ep_interest env (ev_fd e) = Some (True, False)" "ep_open env"
  shows "ep_interest (epoll_add e SNMP_EV_WRITE env) (ev_fd e) = Some (False, True)"
    "ep_interest (epoll_remove (e\<lparr>ev_flag := ev_flag e OR SNMP_EV_WRITE\<rparr>) SNMP_EV_WRITE (epoll_add e SNMP_EV_WRITE env)) (ev_fd e)
       = Some (True, False)"
  using assms by (simp_all add: epoll_add_def epoll_remove_def ctl_mod_def ev_flags)

text \<open>With one descriptor the marks are right: only the first event is marked, by what \<open>epoll_wait\<close> reports.\<close>

lemma epoll_one_descriptor:
  assumes "ep_event env = x # replicate 4 (False, False)" "length events = SNMP_MAX_EVENTS"
  shows "epoll_poll [ee] events env = (epoll_mark ee (hd events) # tl events, env\<lparr>ep_event := ee # replicate 4 (False, False)\<rparr>)"
proof -
  obtain e0 e1 e2 e3 e4 where e: "events = [e0, e1, e2, e3, e4]"
    using assms(2) by (auto simp: SNMP_MAX_EVENTS_def length_Suc_conv numeral_eq_Suc)
  have "epoll_mark (False, False) e = e" for e :: "'a snmp_event"
    by (cases e) (simp add: epoll_mark_def)
  then show ?thesis
    using assms(1) e by (simp add: epoll_poll_def Let_def numeral_eq_Suc)
qed

text \<open>With two descriptors a report about the second marks the first, and a stale entry marks the second again.\<close>

lemma epoll_wrong_event:
  "fst (epoll_poll [(True, False)] [e0, e1] \<lparr>ep_open = True, ep_interest = i, ep_event = [(False, False), (False, True)]\<rparr>) =
     [e0\<lparr>ev_read := True\<rparr>, e1\<lparr>ev_write := True\<rparr>]"
  by (simp add: epoll_poll_def epoll_mark_def Let_def)

text \<open>Removing the only event of a descriptor does not take it out of the interest list: the kernel goes on to report that it can be
  written.\<close>

lemma epoll_remove_keeps:
  "ep_open env \<Longrightarrow> ep_interest env (ev_fd e) = Some (True, False) \<Longrightarrow> ep_interest (epoll_remove e SNMP_EV_READ env) (ev_fd e) = Some (False, True)"
  by (simp add: epoll_remove_def ctl_mod_def ev_flags)

end
