(* ===== verification/Udp_Epoll.thy ===== *)
theory Udp_Epoll
  imports Udp_Evloop Event_Epoll
begin

text \<open>
  The default UDP transport (\<open>core/snmp_udp_evloop_transport.c\<close>) on the event loop with the epoll back end. The handlers are those of
  \<open>Udp_Evloop\<close> with the operations of \<open>Event_Epoll\<close>. A round of this loop is simulated by a round of the loop with \<open>select\<close> on the same table; while an answer is
  pending the kernel is not asked for datagrams, so that, unlike with \<open>select\<close>, no datagram can come in between.

  The theorem: under any behaviour of the operating system the answers are those of the abstract server, each sent to the sender of its datagram.
\<close>

section \<open>Definitions\<close>

type_synonym ('g, 'a) uep_state = "(udp_cb, ('g, 'a) udp) ep_state"

record 'a ep_os =
  eo_ready :: "(bool \<times> bool) list"
  eo_recv :: "(bytes \<times> 'a) option"
  eo_send :: bool

definition ep_write_handler :: "'a ep_os \<Rightarrow> int \<Rightarrow> u8 \<Rightarrow> ('g, 'a) uep_state \<Rightarrow> ('g, 'a) uep_state option" where
  "ep_write_handler os sock flag = (\<lambda>(el, env, u).
     do { m \<leftarrow> ud_buf u;
          c \<leftarrow> ud_client u;
          let (el1, env1, u1) = (if eo_send os then (el, env, u\<lparr>ud_sent := ud_sent u @ [(c, m)]\<rparr>) else epoll_event_done (el, env, u));
          let (el2, env2, u2) = epoll_event_remove sock flag (el1, env1, u1);
          Some (el2, env2, u2\<lparr>ud_buf := None, ud_client := None\<rparr>) })"

definition ep_transport_send :: "msg \<Rightarrow> ('g, 'a) uep_state \<Rightarrow> ('g, 'a) uep_state" where
  "ep_transport_send m = (\<lambda>(el, env, u).
     (let (ret, el1, env1, u1) = epoll_event_add (ud_sock u) SNMP_EV_WRITE Snmp_Write (el, env, u)
      in (el1, env1, u1\<lparr>ud_buf := Some m\<rparr>)))"

definition ep_read_handler :: "'g receive \<Rightarrow> 'a ep_os \<Rightarrow> ('g, 'a) uep_state \<Rightarrow> ('g, 'a) uep_state option" where
  "ep_read_handler rc os = (\<lambda>(el, env, u).
     do { let (el1, env1, u1) = (if eo_recv os = None then epoll_event_done (el, env, u) else (el, env, u));
          let u2 = u1\<lparr>ud_client := map_option snd (eo_recv os)\<rparr>;
          (g, r) \<leftarrow> trans_receive rc (map_option fst (eo_recv os)) (ud_agent u2);
          let u3 = u2\<lparr>ud_agent := g\<rparr>;
          Some (case r of None \<Rightarrow> (el1, env1, u3) | Some m \<Rightarrow> ep_transport_send m (el1, env1, u3)) })"

definition ep_call :: "'g receive \<Rightarrow> 'a ep_os \<Rightarrow> (udp_cb, epoll_env \<times> ('g, 'a) udp) ev_call" where
  "ep_call rc os cb fd flag = (case cb of Snmp_Read \<Rightarrow> ep_read_handler rc os | Snmp_Write \<Rightarrow> ep_write_handler os fd flag)"

definition ep_transport_running :: "'g receive \<Rightarrow> bool \<Rightarrow> 'a ep_os list \<Rightarrow> ('g, 'a) uep_state \<Rightarrow> ('g, 'a) uep_state option" where
  "ep_transport_running rc created rounds st =
     (let (ret, st1) = epoll_event_add (ud_sock (snd (snd st))) SNMP_EV_READ Snmp_Read (epoll_event_init created st)
      in epoll_event_run (ep_call rc) eo_ready rounds st1)"

definition ep_round :: "'g receive \<Rightarrow> 'a ep_os \<Rightarrow> ('g, 'a) uep_state \<Rightarrow> ('g, 'a) uep_state option" where
  "ep_round rc os st = epoll_event_run (ep_call rc) eo_ready [os] st"

text \<open>The documented behaviour of \<open>epoll_wait\<close>: it reports descriptors of the interest list, each once and only with kinds of interest the list
  has. A socket reported as readable gives a datagram.\<close>

definition wait_ok :: "epoll_env \<Rightarrow> (bool \<times> bool) list \<Rightarrow> bool" where
  "wait_ok env ready \<longleftrightarrow> (\<exists>fds. distinct fds \<and> list_all2 (\<lambda>fd (r, w). case ep_interest env fd of None \<Rightarrow> False
     | Some (ir, iw) \<Rightarrow> (r \<longrightarrow> ir) \<and> (w \<longrightarrow> iw)) fds ready)"

definition eo_ok :: "('g, 'a) uep_state \<Rightarrow> 'a ep_os \<Rightarrow> bool" where
  "eo_ok st os \<longleftrightarrow> wait_ok (fst (snd st)) (eo_ready os) \<and> (list_ex fst (eo_ready os) \<longrightarrow> eo_recv os \<noteq> None)"

definition eo_reads :: "'a ep_os \<Rightarrow> (bytes \<times> 'a) list" where
  "eo_reads os = (case eo_recv os of Some d \<Rightarrow> if list_ex fst (eo_ready os) then [d] else [] | None \<Rightarrow> [])"

inductive ep_trace :: "'g receive \<Rightarrow> ('g, 'a) uep_state \<Rightarrow> (bytes \<times> 'a) list \<Rightarrow> ('g, 'a) uep_state \<Rightarrow> bool" for rc st0 where
  start: "ep_trace rc st0 [] st0"
| round: "ep_trace rc st0 ds st \<Longrightarrow> el_start (fst st) \<Longrightarrow> eo_ok st os \<Longrightarrow> ep_round rc os st = Some st' \<Longrightarrow>
    ep_trace rc st0 (ds @ eo_reads os) st'"

section \<open>Simulation by the loop with \<open>select\<close>\<close>

definition one_slot :: "('g, 'a) udp_state \<Rightarrow> bool" where
  "one_slot s = (case el_event (fst s) of [] \<Rightarrow> False | e # es \<Rightarrow>
     list_all idle es \<and> udp_slot (ud_sock (snd s)) (ud_buf (snd s) \<noteq> None) e \<and> fd_ok (ud_sock (snd s)) \<and> ev_ok (fst s))"

definition env_ok :: "int \<Rightarrow> bool \<Rightarrow> epoll_env \<Rightarrow> bool" where
  "env_ok sock pending env \<longleftrightarrow> ep_open env \<and> ep_interest env = [sock \<mapsto> (\<not> pending, pending)] \<and>
     (\<exists>x. ep_event env = x # replicate 4 (False, False))"

definition sim :: "('g, 'a) udp_state \<Rightarrow> ('g, 'a) uep_state \<Rightarrow> bool" where
  "sim s p \<longleftrightarrow> snd (snd p) = snd s \<and> same_table (fst p) (fst s) \<and>
     (el_start (fst s) \<longrightarrow> one_slot s \<and> env_ok (ud_sock (snd s)) (ud_buf (snd s) \<noteq> None) (fst (snd p)))"

definition to_os :: "int \<Rightarrow> 'a ep_os \<Rightarrow> 'a os" where
  "to_os sock os = \<lparr>os_ready = Some (if list_ex fst (eo_ready os) then {sock} else {}, if list_ex snd (eo_ready os) then {sock} else {}),
     os_recv = eo_recv os, os_send = eo_send os\<rparr>"

lemma one_slotE:
  assumes "one_slot s"
  obtains e es where "el_event (fst s) = e # es" "list_all idle es" "udp_slot (ud_sock (snd s)) (ud_buf (snd s) \<noteq> None) e"
    "ev_ok (fst s)" "fd_ok (ud_sock (snd s))"
  using assms by (auto simp: one_slot_def split: list.splits)

lemma sim_same: "sim s p \<Longrightarrow> el_event (fst p) = el_event (fst s)" "sim s p \<Longrightarrow> el_start (fst p) = el_start (fst s)" "sim s p \<Longrightarrow> snd (snd p) = snd s"
  by (simp_all add: sim_def same_table_iff)

lemma sim_send:
  assumes "sim s p" "el_start (fst s)"
  shows "\<exists>s'. evloop_transport_send m s = Some s' \<and> sim s' (ep_transport_send m p) \<and> el_start (fst s')"
proof -
  obtain el env u where p: "p = (el, env, u)"
    by (cases p) auto
  have u: "snd s = u" "same_table el (fst s)" "one_slot s" "env_ok (ud_sock u) (ud_buf u \<noteq> None) env"
    using assms p by (auto simp: sim_def)
  obtain e es where e: "el_event (fst s) = e # es" "list_all idle es" "udp_slot (ud_sock u) (ud_buf u \<noteq> None) e" "ev_ok (fst s)" "fd_ok (ud_sock u)"
    using one_slotE [OF u(3)] u(1) by metis
  obtain el1 e1 where 1: "snmp_event_add (ud_sock u) SNMP_EV_WRITE Snmp_Write (fst s) = Some (0, el1)" "ev_ok el1" "el_event el1 = e1 # es"
      "udp_slot (ud_sock u) True e1" "el_start el1 = el_start (fst s)"
    using add_write [OF e(1,3-5)] by auto
  obtain el2 env2 where 2: "epoll_event_add (ud_sock u) SNMP_EV_WRITE Snmp_Write (el, env, u) = (0, (el2, env2, u))" "same_table el2 el1"
    using epoll_event_add_table [OF u(2) 1(1), of env u] by blast
  have f: "ev_fd e = ud_sock u" "ev_flag e \<noteq> 0"
    using e(3) by (auto simp: udp_slot_def split: if_splits)
  then have "env2 = epoll_add e SNMP_EV_WRITE env"
    using 2(1) e(1) u(2) by (auto simp: epoll_event_add_def same_table_iff)
  then have "env2 = env\<lparr>ep_interest := (ep_interest env)(ud_sock u \<mapsto> (False, True))\<rparr>"
    using u(4) f by (simp add: env_ok_def epoll_add_def ctl_mod_def ev_flags)
  then have "env_ok (ud_sock u) True env2"
    using u(4) by (simp add: env_ok_def)
  then have "sim (el1, u\<lparr>ud_buf := Some m\<rparr>) (ep_transport_send m p)"
    using p 1 2 e(2,5) by (simp add: sim_def ep_transport_send_def one_slot_def)
  then show ?thesis
    using 1(1,5) u(1) assms(2) by (auto simp: evloop_transport_send_def)
qed

lemma sim_read_handler:
  assumes "sim s p" "el_start (fst s)" "eo_recv os \<noteq> None" "snmp_read_handler rc (to_os sock os) s = Some s'"
  shows "\<exists>p'. ep_read_handler rc os p = Some p' \<and> sim s' p'"
proof -
  obtain el env u where p: "p = (el, env, u)"
    by (cases p) auto
  obtain d where d: "eo_recv os = Some d"
    using assms(3) by auto
  obtain g r where r: "trans_receive rc (Some (fst d)) (ud_agent (snd s)) = Some (g, r)"
    using assms(4) d by (auto simp: snmp_read_handler_def to_os_def Option.bind_eq_Some_conv)
  let ?u = "u\<lparr>ud_client := Some (snd d), ud_agent := g\<rparr>"
  have u: "snd s = u"
    using assms(1) p by (simp add: sim_def)
  have "sim (fst s, ?u) (el, env, ?u)"
    using assms(1) p u by (auto simp: sim_def one_slot_def split: list.splits)
  note sim = this
  show ?thesis
  proof (cases r)
    case None
    then show ?thesis
      using assms(4) d r p u sim by (simp add: snmp_read_handler_def ep_read_handler_def to_os_def)
  next
    case (Some m)
    then have "evloop_transport_send m (fst s, ?u) = Some s'" "ep_read_handler rc os p = Some (ep_transport_send m (el, env, ?u))"
      using assms(4) d r p u by (simp_all add: snmp_read_handler_def ep_read_handler_def to_os_def)
    then show ?thesis
      using sim_send [OF sim, of m] assms(2) by auto
  qed
qed

text \<open>Removing the write event restores the interest in reading.\<close>

lemma sim_remove:
  assumes "sim s p" "el_start (fst s)" "ud_buf (snd s) \<noteq> None"
  shows "\<exists>el1 el2 env2. snmp_event_remove (ud_sock (snd s)) SNMP_EV_WRITE (fst s) = Some el1 \<and>
    epoll_event_remove (ud_sock (snd s)) SNMP_EV_WRITE (fst p, fst (snd p), u') = (el2, env2, u') \<and>
    (ud_sock u' = ud_sock (snd s) \<longrightarrow> sim (el1, u'\<lparr>ud_buf := None, ud_client := None\<rparr>) (el2, env2, u'\<lparr>ud_buf := None, ud_client := None\<rparr>))"
proof -
  obtain el env u where p: "p = (el, env, u)"
    by (cases p) auto
  have u: "snd s = u" "same_table el (fst s)" "one_slot s" "env_ok (ud_sock u) True env"
    using assms p by (auto simp: sim_def)
  obtain e es where e: "el_event (fst s) = e # es" "list_all idle es" "udp_slot (ud_sock u) True e" "ev_ok (fst s)" "fd_ok (ud_sock u)"
    using one_slotE [OF u(3)] u(1) assms(3) by metis
  obtain el1 e1 where 1: "snmp_event_remove (ud_sock u) SNMP_EV_WRITE (fst s) = Some el1" "ev_ok el1" "el_event el1 = e1 # es"
      "udp_slot (ud_sock u) False e1" "el_start el1 = el_start (fst s)"
    using remove_write [OF e] by auto
  obtain el2 env2 where 2: "epoll_event_remove (ud_sock u) SNMP_EV_WRITE (el, env, u') = (el2, env2, u')" "same_table el2 el1"
    using epoll_event_remove_table [OF u(2) 1(1) e(5), of env u'] by blast
  have f: "ev_fd e = ud_sock u" "ud_sock u \<noteq> - 1"
    using e(3,5) by (auto simp: udp_slot_def fd_ok_def)
  have idle: "snd (snd (epoll_remove_loop (ud_sock u) SNMP_EV_WRITE es (m, env'))) = env'" for m env'
    using e(2) f(2) by (induction es arbitrary: m) (auto simp: idle_def Let_def split_def)
  have "env2 = epoll_remove e SNMP_EV_WRITE env"
    using 2(1) e(1) u(2) f idle by (auto simp: epoll_event_remove_def same_table_iff Let_def split_def)
  then have "env2 = env\<lparr>ep_interest := (ep_interest env)(ud_sock u \<mapsto> (True, False))\<rparr>"
    using u(4) f by (simp add: env_ok_def epoll_remove_def ctl_mod_def ev_flags del: not_None_eq)
  then have "env_ok (ud_sock u) False env2"
    using u(4) by (simp add: env_ok_def)
  then show ?thesis
    using p u(1) 1 2 e(2,5) by (auto simp: sim_def one_slot_def)
qed

lemma sim_write_handler:
  assumes "sim s p" "el_start (fst s)" "ud_buf (snd s) \<noteq> None" "ud_client (snd s) \<noteq> None"
    and "snmp_write_handler (to_os sock os) (ud_sock (snd s)) SNMP_EV_WRITE s = Some s'"
  shows "\<exists>p'. ep_write_handler os (ud_sock (snd s)) SNMP_EV_WRITE p = Some p' \<and> sim s' p'"
proof -
  obtain el env u where p: "p = (el, env, u)"
    by (cases p) auto
  have u: "snd s = u" "same_table el (fst s)"
    using assms(1) p by (simp_all add: sim_def)
  then obtain m c where mc: "ud_buf u = Some m" "ud_client u = Some c"
    using assms(3,4) by blast
  show ?thesis
  proof (cases "eo_send os")
    case True
    let ?u = "u\<lparr>ud_sent := ud_sent u @ [(c, m)]\<rparr>"
    from sim_remove [OF assms(1-3), of ?u, unfolded u(1) p fst_conv snd_conv]
    obtain el1 el2 env2 where 1: "snmp_event_remove (ud_sock u) SNMP_EV_WRITE (fst s) = Some el1"
        "epoll_event_remove (ud_sock u) SNMP_EV_WRITE (el, env, ?u) = (el2, env2, ?u)"
        "sim (el1, ?u\<lparr>ud_buf := None, ud_client := None\<rparr>) (el2, env2, ?u\<lparr>ud_buf := None, ud_client := None\<rparr>)"
      by (elim exE conjE) simp
    have "snmp_write_handler (to_os sock os) (ud_sock u) SNMP_EV_WRITE s = Some (el1, ?u\<lparr>ud_buf := None, ud_client := None\<rparr>)"
      using True mc u(1) 1(1) by (simp add: snmp_write_handler_def to_os_def)
    then show ?thesis
      using True assms(5) mc u(1) p 1(2,3) by (simp add: ep_write_handler_def)
  next
    case False
    let ?el = "snmp_event_done (fst s)"
    obtain el1 where el1: "snmp_event_remove (ud_sock u) SNMP_EV_WRITE ?el = Some el1" "s' = (el1, u\<lparr>ud_buf := None, ud_client := None\<rparr>)"
      using False assms(5) mc u(1) by (auto simp: snmp_write_handler_def to_os_def Option.bind_eq_Some_conv)
    have "fd_ok (ud_sock u)"
      using assms(1,2) u(1) by (auto simp: sim_def one_slot_def split: list.splits)
    moreover have "same_table (snmp_event_done el) ?el"
      using u(2) by (simp add: same_table_iff snmp_event_done_def)
    ultimately obtain el2 env2 where 2: "epoll_event_remove (ud_sock u) SNMP_EV_WRITE (snmp_event_done el, epoll_done env, u) = (el2, env2, u)" "same_table el2 el1"
      using epoll_event_remove_table [OF _ el1(1), of "snmp_event_done el" "epoll_done env" u] by blast
    have "\<not> el_start el1"
      using el1(1) by (auto simp: snmp_event_remove_def event_remove_loop_eq [OF \<open>fd_ok (ud_sock u)\<close>] snmp_event_done_def split: if_splits)
    then have "sim s' (el2, env2, u\<lparr>ud_buf := None, ud_client := None\<rparr>)"
      using 2(2) el1(2) by (simp add: sim_def)
    then show ?thesis
      using False 2(1) mc u(1) p by (simp add: ep_write_handler_def epoll_event_done_def)
  qed
qed

text \<open>The two callbacks of the first event, after which the mark is reset.\<close>

lemma event_at_write_ok: "ev_ok (fst (event_at 0 (ev_write_update f) st)) = ev_ok (fst st)"
  by (cases "el_event (fst st)") (simp_all add: ev_ok_def slot_ok_def event_at_def)

lemma sim_event_at:
  assumes "sim s p"
  shows "sim (event_at 0 (ev_read_update f) s) (event_at 0 (ev_read_update f) p)"
    "sim (event_at 0 (ev_write_update f) s) (event_at 0 (ev_write_update f) p)"
proof -
  have "one_slot (event_at 0 (ev_read_update f) s)" "one_slot (event_at 0 (ev_write_update f) s)" if "one_slot s"
    using that event_at_ok [of f s] event_at_write_ok [of f s]
    by (auto simp: one_slot_def event_at_def udp_slot_def split: list.splits)
  then show "sim (event_at 0 (ev_read_update f) s) (event_at 0 (ev_read_update f) p)"
      "sim (event_at 0 (ev_write_update f) s) (event_at 0 (ev_write_update f) p)"
    using assms by (auto simp: sim_def same_table_iff event_at_def)
qed

lemma sim_read_cb:
  assumes "sim s p" "el_start (fst s)" "event_read_cb (udp_call rc (to_os sock os)) 0 s = Some s'"
    and "\<And>e. rd (el_event (fst s)) 0 = Some e \<Longrightarrow> ev_read e \<Longrightarrow> eo_recv os \<noteq> None"
  shows "\<exists>p'. event_read_cb (ep_call rc os) 0 p = Some p' \<and> sim s' p'"
proof -
  obtain e where e: "rd (el_event (fst s)) 0 = Some e" "rd (el_event (fst p)) 0 = Some e" "ev_rcb e = Some Snmp_Read"
    using assms(1,2) sim_same(1) [OF assms(1)] by (auto simp: sim_def rd_def udp_slot_def elim!: one_slotE)
  show ?thesis
  proof (cases "ev_read e")
    case True
    obtain s1 where s1: "snmp_read_handler rc (to_os sock os) s = Some s1" "s' = event_at 0 (ev_read_update (\<lambda>_. False)) s1"
      using assms(3) e(1,3) True by (auto simp: event_read_cb_def udp_call_def)
    obtain p1 where "ep_read_handler rc os p = Some p1" "sim s1 p1"
      using sim_read_handler [OF assms(1,2) assms(4) [OF e(1) True] s1(1)] by blast
    then show ?thesis
      using e(2,3) True s1(2) sim_event_at(1) [of s1 p1] by (simp add: event_read_cb_def ep_call_def)
  qed (use assms(1,3) e in \<open>simp add: event_read_cb_def\<close>)
qed

lemma sim_write_cb:
  assumes "sim s p" "read_done w s" "w \<Longrightarrow> ud_buf (snd s) \<noteq> None" "event_write_cb (udp_call rc (to_os sock os)) 0 s = Some s'"
  shows "\<exists>p'. event_write_cb (ep_call rc os) 0 p = Some p' \<and> sim s' p'"
proof -
  obtain e where e: "rd (el_event (fst s)) 0 = Some e" "rd (el_event (fst p)) 0 = Some e" "ev_write e = w" "ev_fd e = ud_sock (snd s)"
      "w \<Longrightarrow> ev_wcb e = Some Snmp_Write" "w \<Longrightarrow> ud_client (snd s) \<noteq> None" "el_start (fst s)"
    using assms(2,3) sim_same(1) [OF assms(1)] by (auto simp: read_done_def rd_def udp_slot_def split: list.splits)
  show ?thesis
  proof (cases w)
    case True
    obtain s1 where s1: "snmp_write_handler (to_os sock os) (ud_sock (snd s)) SNMP_EV_WRITE s = Some s1" "s' = event_at 0 (ev_write_update (\<lambda>_. False)) s1"
      using assms(4) e True by (auto simp: event_write_cb_def udp_call_def)
    obtain p1 where "ep_write_handler os (ud_sock (snd s)) SNMP_EV_WRITE p = Some p1" "sim s1 p1"
      using sim_write_handler [OF assms(1) e(7) assms(3) [OF True] e(6) [OF True] s1(1)] by blast
    then show ?thesis
      using e True s1(2) sim_event_at(2) [of s1 p1] by (simp add: event_write_cb_def ep_call_def)
  qed (use assms(1,4) e in \<open>cases "ev_wcb e"; simp add: event_write_cb_def\<close>)
qed

section \<open>Rounds of the loop\<close>

lemma wait_one:
  assumes "env_ok sock pending env" "wait_ok env ready"
  obtains "ready = []" | r w where "ready = [(r, w)]" "r \<longrightarrow> \<not> pending" "w \<longrightarrow> pending"
proof -
  obtain fds where fds: "distinct fds" "list_all2 (\<lambda>fd (r, w). case ep_interest env fd of None \<Rightarrow> False
     | Some (ir, iw) \<Rightarrow> (r \<longrightarrow> ir) \<and> (w \<longrightarrow> iw)) fds ready"
    using assms(2) by (auto simp: wait_ok_def)
  have *: "fd = sock \<and> (r \<longrightarrow> \<not> pending) \<and> (w \<longrightarrow> pending)"
    if "case ep_interest env fd of None \<Rightarrow> False | Some (ir, iw) \<Rightarrow> (r \<longrightarrow> ir) \<and> (w \<longrightarrow> iw)" for fd r w
    using that assms(1) by (auto simp: env_ok_def split: if_splits)
  show thesis
  proof (cases ready)
    case (Cons x xs)
    then obtain fd fds' where f: "fds = fd # fds'" "list_all2 (\<lambda>fd (r, w). case ep_interest env fd of None \<Rightarrow> False
     | Some (ir, iw) \<Rightarrow> (r \<longrightarrow> ir) \<and> (w \<longrightarrow> iw)) fds' xs" "fd = sock" "fst x \<longrightarrow> \<not> pending" "snd x \<longrightarrow> pending"
      using fds(2) * [where r = "fst x" and w = "snd x"] by (auto simp: list_all2_Cons2 split_def)
    then have "xs = []"
      using fds(1) * by (cases xs) (fastforce simp: list_all2_Cons2)+
    then show ?thesis
      using that(2) [of "fst x" "snd x"] Cons f(4,5) by simp
  qed (use that in simp)
qed

lemma sim_marked:
  assumes "serving s" "sim s p" "env_ok (ud_sock (snd s)) (ud_buf (snd s) \<noteq> None) env"
  shows "sim (marked r w (fst s), snd s) (marked r w (fst p), env, snd (snd p))"
proof -
  have "one_slot (marked r w (fst s), snd s)"
    using assms(1) by (auto simp: serving_def one_slot_def marked_def ev_ok_def slot_ok_def split: list.splits)
  then show ?thesis
    using assms(2,3) by (simp add: sim_def same_table_iff marked_def)
qed

lemma sim_poll:
  assumes "serving s" "sim s p" "eo_ready os = [] \<or> eo_ready os = [(r, w)]"
  defines "r' \<equiv> list_ex fst (eo_ready os)" and "w' \<equiv> list_ex snd (eo_ready os)"
  shows "\<exists>env. epoll_poll (eo_ready os) (el_event (fst p)) (fst (snd p)) = (el_event (marked r' w' (fst p)), env) \<and>
    sim (marked r' w' (fst s), snd s) (marked r' w' (fst p), env, snd (snd p))"
proof -
  obtain e es where e: "el_event (fst s) = e # es" "length es = 4" "\<not> ev_read e" "\<not> ev_write e" "el_start (fst s)"
    using assms(1) by (rule servingE)
  then have ok: "env_ok (ud_sock (snd s)) (ud_buf (snd s) \<noteq> None) (fst (snd p))" and t: "el_event (fst p) = e # es"
    using assms(2) sim_same(1) [OF assms(2)] by (auto simp: sim_def)
  then obtain x where x: "ep_event (fst (snd p)) = x # replicate 4 (False, False)"
    by (auto simp: env_ok_def)
  have e': "e\<lparr>ev_read := False, ev_write := False\<rparr> = e"
    using e(3,4) by (cases e) simp
  show ?thesis
  proof (cases "eo_ready os = []")
    case True
    moreover have "el_event (marked False False (fst p)) = e # es"
      using t e' by (simp add: marked_def)
    ultimately show ?thesis
      using t sim_marked [OF assms(1,2) ok, of False False] by (simp add: r'_def w'_def epoll_poll_def)
  next
    case False
    then have m: "eo_ready os = [(r, w)]" "r' = r" "w' = w"
      using assms(3) by (simp_all add: r'_def w'_def)
    have "epoll_mark (r, w) e = e\<lparr>ev_read := r, ev_write := w\<rparr>"
      using e(3,4) by (simp add: epoll_mark_def)
    then have "epoll_poll [(r, w)] (e # es) (fst (snd p)) = (e\<lparr>ev_read := r, ev_write := w\<rparr> # es, (fst (snd p))\<lparr>ep_event := (r, w) # replicate 4 (False, False)\<rparr>)"
      using epoll_one_descriptor [OF x, of "e # es" "(r, w)"] e(2) by (simp add: SNMP_MAX_EVENTS_def)
    moreover have "env_ok (ud_sock (snd s)) (ud_buf (snd s) \<noteq> None) ((fst (snd p))\<lparr>ep_event := (r, w) # replicate 4 (False, False)\<rparr>)"
      using ok by (simp add: env_ok_def)
    ultimately show ?thesis
      using t m sim_marked [OF assms(1,2)] by (simp add: marked_def)
  qed
qed

text \<open>As with \<open>select\<close>, a round is what the first event does.\<close>

lemma ep_poll_first:
  assumes "epoll_poll ready (el_event el) env = (es0, env0)" "event_calls call 0 (el\<lparr>el_event := es0\<rparr>, env0, x) = Some st'"
    and "el_event (fst st') = e # es" "length es = 4" "list_all idle es"
  shows "epoll_event_poll call ready (el, env, x) = Some st'"
proof -
  have "snmp_event_poll call None (el\<lparr>el_event := es0\<rparr>, env0, x) = Some st'"
    using assms(2-5) by (intro poll_first) (simp_all add: select_poll_def)
  then show ?thesis
    using assms(1) by (simp add: epoll_event_poll_def snmp_event_poll_def select_poll_def)
qed

lemma ep_round_poll: "el_start (fst st) \<Longrightarrow> ep_round rc os st = epoll_event_poll (ep_call rc os) (eo_ready os) st"
  by (cases "epoll_event_poll (ep_call rc os) (eo_ready os) st") (simp_all add: ep_round_def)

text \<open>The data of the transport after a round: a datagram is read only if no answer is pending, so the answers keep their receivers.\<close>

lemma ep_round_effect:
  assumes "serving s" "sim s p" "eo_ok p os"
    and "list_ex fst (eo_ready os) \<Longrightarrow> eo_recv os = Some (b, a) \<and> trans_receive rc (Some b) (ud_agent (snd s)) = Some (g, x)"
  defines "r \<equiv> list_ex fst (eo_ready os)" and "w \<equiv> list_ex snd (eo_ready os)"
  defines "u \<equiv> if r then udp_in a g x (snd s) else snd s"
  shows "(r \<longrightarrow> ud_buf (snd s) = None) \<and> (w \<longrightarrow> ud_buf (snd s) \<noteq> None) \<and>
    (\<exists>s' p'. ep_round rc os p = Some p' \<and> sim s' p' \<and> (if w \<and> \<not> eo_send os then halted s' else serving s') \<and>
      snd s' = (if w then udp_out (eo_send os) u else u))"
proof -
  have start: "el_start (fst s)"
    using assms(1) by (rule servingE)
  then have "env_ok (ud_sock (snd s)) (ud_buf (snd s) \<noteq> None) (fst (snd p))" "wait_ok (fst (snd p)) (eo_ready os)"
    using assms(2,3) by (auto simp: sim_def eo_ok_def)
  then have "(eo_ready os = [] \<or> eo_ready os = [(r, w)]) \<and> (r \<longrightarrow> ud_buf (snd s) = None) \<and> (w \<longrightarrow> ud_buf (snd s) \<noteq> None)"
    by (rule wait_one) (simp_all add: r_def w_def del: not_None_eq)
  then have k: "eo_ready os = [] \<or> eo_ready os = [(r, w)]" "r \<longrightarrow> ud_buf (snd s) = None" "w \<longrightarrow> ud_buf (snd s) \<noteq> None"
    by blast+
  let ?os = "to_os (ud_sock (snd s)) os"
  obtain env where env: "epoll_poll (eo_ready os) (el_event (fst p)) (fst (snd p)) = (el_event (marked r w (fst p)), env)"
      "sim (marked r w (fst s), snd s) (marked r w (fst p), env, snd (snd p))"
    using sim_poll [OF assms(1,2) k(1)] by (auto simp: r_def w_def)
  have recv: "r \<Longrightarrow> os_recv ?os = Some (b, a) \<and> trans_receive rc (Some b) (ud_agent (snd s)) = Some (g, x)"
    using assms(4) by (simp add: to_os_def r_def)
  obtain s1 where s1: "event_read_cb (udp_call rc ?os) 0 (marked r w (fst s), snd s) = Some s1" "read_done w s1" "snd s1 = u"
    using read_stage [OF assms(1), of r ?os b a rc g x w] recv unfolding u_def by blast
  have m: "el_start (fst (marked r w (fst s), snd s))"
    using start by simp
  have "ev_read e = r" if "rd (el_event (fst (marked r w (fst s), snd s))) 0 = Some e" for e
    using that by (cases "el_event (fst s)") (auto simp: marked_def rd_def)
  then have "eo_recv os \<noteq> None" if "rd (el_event (fst (marked r w (fst s), snd s))) 0 = Some e" "ev_read e" for e
    using that recv by (simp add: to_os_def)
  then obtain p1 where p1: "event_read_cb (ep_call rc os) 0 (marked r w (fst p), env, snd (snd p)) = Some p1" "sim s1 p1"
    using sim_read_cb [OF env(2) m s1(1)] by blast
  have b: "w \<Longrightarrow> ud_buf (snd s1) \<noteq> None"
    using s1(3) k(2,3) by (auto simp: u_def)
  obtain s' where s': "event_write_cb (udp_call rc ?os) 0 s1 = Some s'" "if w \<and> \<not> eo_send os then halted s' else serving s'"
      "snd s' = (if w then udp_out (eo_send os) u else u)"
    using write_stage [OF s1(2) b, of rc ?os] unfolding s1(3) by (auto simp: to_os_def)
  obtain p' where p': "event_write_cb (ep_call rc os) 0 p1 = Some p'" "sim s' p'"
    using sim_write_cb [OF p1(2) s1(2) b s'(1)] by blast
  have "event_calls (ep_call rc os) 0 ((fst p)\<lparr>el_event := el_event (marked r w (fst p))\<rparr>, env, snd (snd p)) = Some p'"
    using p1(1) p'(1) by (simp add: event_calls_def marked_def)
  moreover obtain e es where "el_event (fst p') = e # es" "length es = 4" "list_all idle es"
    using s'(2) sim_same(1) [OF p'(2)]
    by (cases "el_event (fst s')") (auto simp: serving_def halted_def ev_ok_def SNMP_MAX_EVENTS_def split: if_splits)
  ultimately have "epoll_event_poll (ep_call rc os) (eo_ready os) (fst p, fst (snd p), snd (snd p)) = Some p'"
    using env(1) by (intro ep_poll_first)
  then have "ep_round rc os p = Some p'"
    using ep_round_poll [of p rc os] start sim_same(2) [OF assms(2)] by simp
  then show ?thesis
    using k(2,3) p'(2) s'(2,3) by blast
qed

lemma ep_round_undefined:
  assumes "serving s" "sim s p" "eo_ok p os" "list_ex fst (eo_ready os)" "eo_recv os = Some (b, a)"
    and "trans_receive rc (Some b) (ud_agent (snd s)) = None"
  shows "ep_round rc os p = None"
proof -
  obtain e es where e: "el_event (fst s) = e # es" "udp_slot (ud_sock (snd s)) (ud_buf (snd s) \<noteq> None) e" "el_start (fst s)"
    using assms(1) by (rule servingE)
  have "env_ok (ud_sock (snd s)) (ud_buf (snd s) \<noteq> None) (fst (snd p))" "wait_ok (fst (snd p)) (eo_ready os)"
    using assms(2,3) e(3) by (auto simp: sim_def eo_ok_def)
  then obtain r w where k: "eo_ready os = [(r, w)]" r
    by (rule wait_one) (use assms(4) in auto)
  obtain env where env: "epoll_poll (eo_ready os) (el_event (fst p)) (fst (snd p)) = (el_event (marked r w (fst p)), env)"
    using sim_poll [OF assms(1,2), of os r w] k(1) by auto
  have "ep_read_handler rc os (marked r w (fst p), env, snd (snd p)) = None"
    using assms(5,6) sim_same(3) [OF assms(2)] by (simp add: ep_read_handler_def)
  then have "event_read_cb (ep_call rc os) 0 (marked r w (fst p), env, snd (snd p)) = None"
    using e(1,2) k(2) sim_same(1) [OF assms(2)] by (simp add: event_read_cb_def marked_def rd_def udp_slot_def ep_call_def)
  moreover have "(fst p)\<lparr>el_event := el_event (marked r w (fst p))\<rparr> = marked r w (fst p)"
    by (simp add: marked_def)
  moreover have "[0..<SNMP_MAX_EVENTS] = 0 # [1..<5]"
    by (simp add: SNMP_MAX_EVENTS_def upt_rec)
  ultimately have "epoll_event_poll (ep_call rc os) (eo_ready os) (fst p, fst (snd p), snd (snd p)) = None"
    using env by (simp add: epoll_event_poll_def event_calls_def split_def)
  then show ?thesis
    using ep_round_poll [of p rc os] e(3) sim_same(2) [OF assms(2)] by simp
qed

text \<open>One round in terms of the abstract server: nothing is lost but the answer whose \<open>sendto\<close> fails.\<close>

definition round_serves :: "'g receive \<Rightarrow> 'a ep_os \<Rightarrow> ('g, 'a) udp_state \<Rightarrow> ('g, 'a) uep_state \<Rightarrow> bool" where
  "round_serves rc os s p = (case serve rc (eo_reads os) (ud_agent (snd s)) of
      None \<Rightarrow> ep_round rc os p = None
    | Some (g, out) \<Rightarrow> \<exists>s' p'. ep_round rc os p = Some p' \<and> sim s' p' \<and> ud_agent (snd s') = g \<and>
        (serving s' \<and> ud_sent (snd s') @ udp_waiting s' = ud_sent (snd s) @ udp_waiting s @ out \<or>
         halted s' \<and> \<not> eo_send os \<and> (\<exists>m. ud_sent (snd s') @ [m] = ud_sent (snd s) @ udp_waiting s @ out)))"

lemma ep_round_read:
  assumes "serving s" "sim s p" "eo_ok p os" "list_ex fst (eo_ready os)"
  shows "round_serves rc os s p"
proof -
  obtain b a where d: "eo_recv os = Some (b, a)" "eo_reads os = [(b, a)]"
    using assms(3,4) by (auto simp: eo_ok_def eo_reads_def)
  show ?thesis
  proof (cases "trans_receive rc (Some b) (ud_agent (snd s))")
    case None
    then show ?thesis
      using ep_round_undefined [OF assms d(1)] d(2) by (simp add: round_serves_def)
  next
    case (Some gx)
    obtain g x where gx: "gx = (g, x)"
      by force
    from ep_round_effect [OF assms(1-3), of b a rc g x] assms(4) d(1) Some gx
    obtain s' p' where n: "ud_buf (snd s) = None" "ep_round rc os p = Some p'" "sim s' p'" "serving s'" "snd s' = udp_in a g x (snd s)"
      by auto
    have "udp_waiting s = []" "udp_waiting s' = answer_to a x"
      using n(1,5) by (simp_all add: udp_waiting_def udp_in_def answer_to_def split: option.split)
    moreover have "ud_sent (snd s') = ud_sent (snd s)" "ud_agent (snd s') = g"
      using n(5) by (simp_all add: udp_in_def)
    moreover have "serve rc (eo_reads os) (ud_agent (snd s)) = Some (g, answer_to a x)"
      using d(2) Some gx by simp
    ultimately show ?thesis
      using n(2-4) by (auto simp: round_serves_def simp del: split_paired_Ex)
  qed
qed

lemma ep_round_quiet:
  assumes "serving s" "sim s p" "eo_ok p os" "\<not> list_ex fst (eo_ready os)"
  shows "round_serves rc os s p"
proof -
  have d: "eo_reads os = []"
    using assms(4) by (simp add: eo_reads_def split: option.split)
  show ?thesis
  proof (cases "list_ex snd (eo_ready os)")
    case True
    from ep_round_effect [OF assms(1-3), of undefined undefined rc undefined undefined] assms(4) True
    obtain s' p' where n: "ud_buf (snd s) \<noteq> None" "ep_round rc os p = Some p'" "sim s' p'"
        "if \<not> eo_send os then halted s' else serving s'" "snd s' = udp_out (eo_send os) (snd s)"
      by auto
    obtain m c where mc: "ud_buf (snd s) = Some m" "ud_client (snd s) = Some c"
      using n(1) assms(1) by (auto simp: serving_def split: list.splits)
    then have "ud_agent (snd s') = ud_agent (snd s)" "udp_waiting s = [(c, m)]" "udp_waiting s' = []"
        "ud_sent (snd s') = ud_sent (snd s) @ (if eo_send os then [(c, m)] else [])"
      using n(5) by (simp_all add: udp_out_def udp_waiting_def)
    moreover have "serve rc (eo_reads os) (ud_agent (snd s)) = Some (ud_agent (snd s), [])"
      using d by simp
    ultimately show ?thesis
      using n(2-4) by (cases "eo_send os") (auto simp: round_serves_def simp del: split_paired_Ex)
  next
    case False
    from ep_round_effect [OF assms(1-3), of undefined undefined rc undefined undefined] assms(4) False
    obtain s' p' where "ep_round rc os p = Some p'" "sim s' p'" "serving s'" "snd s' = snd s"
      by auto
    moreover from this(4) have "udp_waiting s' = udp_waiting s"
      by (simp add: udp_waiting_def)
    moreover have "serve rc (eo_reads os) (ud_agent (snd s)) = Some (ud_agent (snd s), [])"
      using d by simp
    ultimately show ?thesis
      by (auto simp: round_serves_def simp del: split_paired_Ex)
  qed
qed

lemmas ep_round_step = ep_round_read ep_round_quiet

text \<open>\<open>transport_running\<close> on a table of five events starts to serve, if \<open>epoll_create\<close> succeeds.\<close>

lemma ep_running_serves:
  assumes "length (el_event el) = SNMP_MAX_EVENTS" "fd_ok (ud_sock u)" "ud_buf u = None" "ep_event env = x # replicate 4 (False, False)"
  shows "\<exists>s p. serving s \<and> sim s p \<and> snd s = u \<and> ep_transport_running rc True rounds (el, env, u) = epoll_event_run (ep_call rc) eo_ready rounds p"
proof -
  obtain el' where el': "serving (el', u)" "snmp_event_add (ud_sock u) SNMP_EV_READ Snmp_Read (snmp_event_init el) = Some (0, el')"
    using running_starts [OF assms(1-3)] by blast
  obtain e es where e: "el_event el = e # es"
    using assms(1) by (cases "el_event el") (auto simp: SNMP_MAX_EVENTS_def)
  have "same_table (snmp_event_init el) (snmp_event_init el)"
    by (simp add: same_table_iff)
  from epoll_event_add_table [OF this el'(2), of "epoll_init True env" u] obtain el1 env1 where
    1: "epoll_event_add (ud_sock u) SNMP_EV_READ Snmp_Read (snmp_event_init el, epoll_init True env, u) = (0, (el1, env1, u))" "same_table el1 el'"
    by blast
  have "env1 = epoll_add ((event_free e)\<lparr>ev_fd := ud_sock u\<rparr>) SNMP_EV_READ (epoll_init True env)"
    using 1(1) e assms(2) by (auto simp: epoll_event_add_def snmp_event_init_def event_free_def fd_ok_def)
  then have "env_ok (ud_sock u) False env1"
    using assms(4) by (simp add: env_ok_def epoll_add_def event_free_def ctl_add_def epoll_init_def ev_flags)
  moreover have "one_slot (el', u)"
    using el'(1) by (auto simp: serving_def one_slot_def split: list.splits)
  ultimately have "sim (el', u) (el1, env1, u)"
    using 1(2) assms(3) by (simp add: sim_def)
  then show ?thesis
    using el'(1) 1(1) by (intro exI [of _ "(el', u)"] exI [of _ "(el1, env1, u)"]) (simp add: ep_transport_running_def epoll_event_init_def)
qed

text \<open>C12: With the epoll back end the agent keeps its answers apart whatever the operating system does: after the transport is started, in every reachable state the
  datagrams read have been handled in order, and what has been sent and the pending answer are the answers of the abstract server, each to the sender
  of its datagram; if the loop has ended, exactly the answer whose \<open>sendto\<close> failed is missing. A round of a serving loop is defined if the agent
  handles its datagram.\<close>

theorem epoll_serves:
  assumes "length (el_event el) = SNMP_MAX_EVENTS" "fd_ok (ud_sock u)" "ud_buf u = None" "ep_event env = x # replicate 4 (False, False)"
    and "ep_transport_running rc True [] (el, env, u) = Some st0" "ep_trace rc st0 ds st"
  shows "\<exists>out. serve rc ds (ud_agent u) = Some (ud_agent (snd (snd st)), out) \<and>
      (if el_start (fst st) then ud_sent (snd (snd st)) @ udp_waiting (fst st, snd (snd st)) = ud_sent u @ out
       else \<exists>m. ud_sent (snd (snd st)) @ [m] = ud_sent u @ out) \<and>
      (\<forall>os. el_start (fst st) \<and> eo_ok st os \<and> serve rc (eo_reads os) (ud_agent (snd (snd st))) \<noteq> None \<longrightarrow> ep_round rc os st \<noteq> None)"
proof -
  obtain s0 where s0: "serving s0" "sim s0 st0" "snd s0 = u"
    using ep_running_serves [OF assms(1-4), of rc "[]"] assms(5) by auto
  have w0: "udp_waiting s0 = []"
    using s0(3) assms(3) by (simp add: udp_waiting_def)
  have "\<exists>s out. sim s st \<and> serve rc ds (ud_agent u) = Some (ud_agent (snd s), out) \<and>
      (serving s \<and> ud_sent (snd s) @ udp_waiting s = ud_sent u @ out \<or> halted s \<and> (\<exists>m. ud_sent (snd s) @ [m] = ud_sent u @ out))"
    using assms(6)
  proof (induction rule: ep_trace.induct)
    case start
    then show ?case
      using s0 w0 by (intro exI [of _ s0] exI [of _ "[]"]) simp
  next
    case (round ds st os st')
    then obtain s out where 1: "sim s st" "serving s" "serve rc ds (ud_agent u) = Some (ud_agent (snd s), out)"
        "ud_sent (snd s) @ udp_waiting s = ud_sent u @ out"
      using sim_same(2) by (fastforce simp: halted_def)
    have step: "round_serves rc os s st"
      using ep_round_step [OF 1(2,1) round.hyps(3)] by blast
    then obtain g out' where out': "serve rc (eo_reads os) (ud_agent (snd s)) = Some (g, out')"
      using round.hyps(4) by (cases "serve rc (eo_reads os) (ud_agent (snd s))") (auto simp: round_serves_def)
    then obtain s' where "sim s' st'" "g = ud_agent (snd s')"
        "serving s' \<and> ud_sent (snd s') @ udp_waiting s' = (ud_sent (snd s) @ udp_waiting s) @ out' \<or>
         halted s' \<and> (\<exists>m. ud_sent (snd s') @ [m] = (ud_sent (snd s) @ udp_waiting s) @ out')"
      using step round.hyps(4) by (simp only: round_serves_def option.case prod.case option.inject append.assoc) blast
    then show ?case
      using 1(3) out' unfolding 1(4) by (intro exI [of _ s'] exI [of _ "out @ out'"]) (simp add: serve_append)
  qed
  then obtain s out where s: "sim s st" "serve rc ds (ud_agent u) = Some (ud_agent (snd s), out)"
      "serving s \<and> ud_sent (snd s) @ udp_waiting s = ud_sent u @ out \<or> halted s \<and> (\<exists>m. ud_sent (snd s) @ [m] = ud_sent u @ out)"
    by blast
  have d: "snd (snd st) = snd s" "el_start (fst st) = el_start (fst s)" "udp_waiting (fst st, snd (snd st)) = udp_waiting s"
    using sim_same [OF s(1)] by (simp_all add: udp_waiting_def)
  have h: "halted s \<Longrightarrow> \<not> el_start (fst s)" "serving s \<Longrightarrow> el_start (fst s)"
    by (simp add: halted_def) (rule servingE)
  have "\<forall>os. el_start (fst st) \<and> eo_ok st os \<and> serve rc (eo_reads os) (ud_agent (snd (snd st))) \<noteq> None \<longrightarrow> ep_round rc os st \<noteq> None"
    using ep_round_step [OF _ s(1), of _ rc] s(3) h d(1,2) by (fastforce simp: round_serves_def split: option.splits)
  then show ?thesis
    using s(2,3) h unfolding d(2,3) unfolding d(1) by (cases "el_start (fst s)") auto
qed

section \<open>Examples\<close>

definition ep_zero :: epoll_env where
  "ep_zero = \<lparr>ep_open = False, ep_interest = Map.empty, ep_event = replicate 5 (False, False)\<rparr>"

lemma ep_zero_event: "ep_event ep_zero = (False, False) # replicate 4 (False, False)"
  by (simp add: ep_zero_def numeral_eq_Suc)

text \<open>The first round reads the request of client 7.\<close>

theorem epoll_serves_witness:
  "\<exists>st0 st. ep_transport_running rc_130 True [] (el_zero, ep_zero, udp_4) = Some st0 \<and> ep_trace rc_130 st0 [(get_130, 7 :: nat)] st \<and>
     ud_sent (snd (snd st)) @ udp_waiting (fst st, snd (snd st)) = [(7, resp_130, 30)]"
proof -
  let ?os = "\<lparr>eo_ready = [(True, False)], eo_recv = Some (get_130, 7 :: nat), eo_send = True\<rparr>"
  obtain s p where p: "serving s" "sim s p" "snd s = udp_4" "ep_transport_running rc_130 True [] (el_zero, ep_zero, udp_4) = Some p"
    using ep_running_serves [OF el_zero_length udp_4_ok(1,2) ep_zero_event, of rc_130 "[]"] by auto
  have start: "el_start (fst s)"
    using p(1) by (rule servingE)
  then have "ep_interest (fst (snd p)) = [4 \<mapsto> (True, False)]"
    using p(2,3) by (simp add: sim_def env_ok_def udp_4_ok)
  then have ok: "eo_ok p ?os"
    by (auto simp: eo_ok_def wait_ok_def intro!: exI [of _ "[4]"])
  obtain sdg where a: "trans_receive rc_130 (Some get_130) (ud_agent (snd s)) = Some ((sdg, ()), Some (resp_130, 30))"
    using get_130_received udp_4_ok(4) p(3) by auto
  obtain s' st where st: "ep_round rc_130 ?os p = Some st" "sim s' st" "serving s'"
    using ep_round_effect [OF p(1,2) ok, of get_130 7 rc_130 "(sdg, ())" "Some (resp_130, 30)"] a by auto
  have "ep_trace rc_130 p ([] @ eo_reads ?os) st"
    using start sim_same(2) [OF p(2)] by (intro ep_trace.round [OF ep_trace.start _ ok st(1)]) simp
  then have t: "ep_trace rc_130 p [(get_130, 7)] st"
    by (simp add: eo_reads_def)
  have "el_start (fst st)"
    using st(3) sim_same(2) [OF st(2)] by (auto elim: servingE)
  then have "ud_sent (snd (snd st)) @ udp_waiting (fst st, snd (snd st)) = [(7, resp_130, 30)]"
    using epoll_serves [OF el_zero_length udp_4_ok(1,2) ep_zero_event p(4) t] a p(3) by (auto simp: udp_4_ok answer_to_def)
  then show ?thesis
    using p(4) t by blast
qed

end
