(* ===== verification/Agentx_Msg_In.thy ===== *)
theory Agentx_Msg_In
  imports Agentx_Codec
begin

text \<open>
  Decoding an AgentX message (\<open>core/agentx_msg_in.c\<close>) into \<open>struct agentx_datagram\<close>
  (\<open>core/agentx.h\<close>). The buffer is the list of the bytes received, a pointer into it is an offset, and
  \<open>None\<close> is a read or write outside an object. The datagram outlives a message: the error paths clear
  its lists and its response fields but keep the header, from which the next PDUs take the session, so a
  decoder returns the datagram on every path, together with the error or \<open>None\<close> for
  \<open>AGENTX_ERR_OK\<close>. The length of an identifier is the length of its list.

  The lemmas show that both loops end, and what every datagram that is decoded satisfies.
\<close>

section \<open>Definitions\<close>

subsection \<open>PDU types, errors and the datagram\<close>

abbreviation "AGENTX_PDU_OPEN \<equiv> (1 :: u8)"
abbreviation "AGENTX_PDU_CLOSE \<equiv> (2 :: u8)"
abbreviation "AGENTX_PDU_REG \<equiv> (3 :: u8)"
abbreviation "AGENTX_PDU_UNREG \<equiv> (4 :: u8)"
abbreviation "AGENTX_PDU_GET \<equiv> (5 :: u8)"
abbreviation "AGENTX_PDU_GETNEXT \<equiv> (6 :: u8)"
abbreviation "AGENTX_PDU_GETBULK \<equiv> (7 :: u8)"
abbreviation "AGENTX_PDU_TESTSET \<equiv> (8 :: u8)"
abbreviation "AGENTX_PDU_COMMITSET \<equiv> (9 :: u8)"
abbreviation "AGENTX_PDU_UNDOSET \<equiv> (10 :: u8)"
abbreviation "AGENTX_PDU_CLEANUPSET \<equiv> (11 :: u8)"
abbreviation "AGENTX_PDU_PING \<equiv> (13 :: u8)"
abbreviation "AGENTX_PDU_RESPONSE \<equiv> (18 :: u8)"

datatype agentx_err =
    AGENTX_ERR_PDU_CTX_LEN | AGENTX_ERR_VB_VAR | AGENTX_ERR_VB_VALUE_LEN | AGENTX_ERR_VB_OID_LEN
  | AGENTX_ERR_SR_VAR | AGENTX_ERR_SR_OID_LEN

record x_pdu_hdr =
  xh_version :: u8
  xh_type :: u8
  xh_flags :: u8
  xh_reserved :: u8
  xh_session_id :: u32
  xh_transaction_id :: u32
  xh_packet_id :: u32
  xh_payload_length :: u32

record x_search_range =
  xsr_start :: oid
  xsr_end :: oid
  xsr_start_include :: u8
  xsr_end_include :: u8

record x_var_bind =
  xvb_oid :: oid
  xvb_type :: u16
  xvb_len :: u32
  xvb_value :: bytes

text \<open>The union \<open>u\<close> of the source is kept as its largest member, \<open>response\<close>: the members \<open>close\<close> and
  \<open>getbulk\<close> overlay the bytes of \<open>sys_up_time\<close>.\<close>

record agentx_datagram =
  x_context :: bytes
  x_ctx_len :: u32
  x_hdr :: x_pdu_hdr
  x_sys_up_time :: u32
  x_error :: u16
  x_index :: u16
  x_vb_in_cnt :: u32
  x_vb_out_cnt :: u32
  x_vb_in_list :: "x_var_bind list"
  x_vb_out_list :: "x_var_bind list"
  x_sr_in_cnt :: u32
  x_sr_out_cnt :: u32
  x_sr_in_list :: "x_search_range list"
  x_sr_out_list :: "x_search_range list"

definition x_set_close_reason :: "u8 \<Rightarrow> agentx_datagram \<Rightarrow> agentx_datagram" where
  "x_set_close_reason b xdg = xdg\<lparr>x_sys_up_time := (x_sys_up_time xdg AND NOT 0xff) OR ucast b\<rparr>"

definition x_set_getbulk :: "u16 \<Rightarrow> u16 \<Rightarrow> agentx_datagram \<Rightarrow> agentx_datagram" where
  "x_set_getbulk non_rep max_rep xdg = xdg\<lparr>x_sys_up_time := push_bit 16 (ucast max_rep) OR ucast non_rep\<rparr>"

definition x_set_response :: "u32 \<Rightarrow> u16 \<Rightarrow> u16 \<Rightarrow> agentx_datagram \<Rightarrow> agentx_datagram" where
  "x_set_response up err i xdg = xdg\<lparr>x_sys_up_time := up, x_error := err, x_index := i\<rparr>"

definition agentx_datagram_clear :: "agentx_datagram \<Rightarrow> agentx_datagram" where
  "agentx_datagram_clear xdg = xdg\<lparr>x_vb_in_list := [], x_vb_out_list := [], x_vb_in_cnt := 0, x_vb_out_cnt := 0,
     x_sr_in_list := [], x_sr_out_list := [], x_sr_in_cnt := 0, x_sr_out_cnt := 0,
     x_sys_up_time := 0, x_error := 0, x_index := 0, x_context := replicate 41 0, x_ctx_len := 0\<rparr>"

text \<open>\<open>payload_length -= n\<close>, in 32 bits.\<close>

definition x_consume :: "u32 \<Rightarrow> agentx_datagram \<Rightarrow> agentx_datagram" where
  "x_consume n xdg = xdg\<lparr>x_hdr := (x_hdr xdg)\<lparr>xh_payload_length := xh_payload_length (x_hdr xdg) - n\<rparr>\<rparr>"

subsection \<open>Variable bindings and search ranges\<close>

text \<open>The offset behind an object identifier whose decoded size is \<open>len\<close> bytes.\<close>

definition objid_skip :: "nat \<Rightarrow> u32 \<Rightarrow> nat" where
  "objid_skip off len = (if len > 0 then off + (4 + unat len - 20) else off + 4)"

definition objid_too_long :: "u32 \<Rightarrow> bool" where
  "objid_too_long len \<longleftrightarrow> unat len div 4 > MIB_OID_MAX_LEN"

text \<open>An object identifier is decoded into a new array of \<open>cap\<close> bytes.\<close>

definition objid_dec :: "bytes \<Rightarrow> nat \<Rightarrow> nat \<Rightarrow> (oid \<times> nat) option" where
  "objid_dec buf off cap =
     do { (n, img, off') \<leftarrow> agentx_value_dec buf off ASN1_TAG_OBJID;
          if length img > cap then None else do { oid \<leftarrow> mem_oid img (unat n); Some (oid, off') } }"

type_synonym 'a x_alloc = "(agentx_err + 'a \<times> nat) option"

definition x_var_bind_alloc :: "bytes \<Rightarrow> nat \<Rightarrow> u8 \<Rightarrow> x_var_bind x_alloc" where
  "x_var_bind_alloc buf off flag =
     do { type \<leftarrow> rd16 flag buf off;
          let buf1 = off + 4;
          oid_len \<leftarrow> agentx_value_dec_try buf buf1 ASN1_TAG_OBJID;
          if objid_too_long oid_len then Some (Inl AGENTX_ERR_VB_OID_LEN)
          else
            do { let buf2 = objid_skip buf1 oid_len;
                 val_len \<leftarrow> agentx_value_dec_try buf buf2 (ucast type);
                 if val_len > word_of_nat MIB_VALUE_MAX_LEN then Some (Inl AGENTX_ERR_VB_VALUE_LEN)
                 else
                   do { (oid, _) \<leftarrow> objid_dec buf buf1 (unat oid_len);
                        (n, img, off') \<leftarrow> agentx_value_dec buf buf2 (ucast type);
                        if length img > unat val_len then None
                        else Some (Inr (\<lparr>xvb_oid = oid, xvb_type = type, xvb_len = n, xvb_value = img\<rparr>, off')) } } }"

definition search_range_alloc :: "bytes \<Rightarrow> nat \<Rightarrow> x_search_range x_alloc" where
  "search_range_alloc buf off =
     do { start_len \<leftarrow> agentx_value_dec_try buf off ASN1_TAG_OBJID;
          if objid_too_long start_len then Some (Inl AGENTX_ERR_SR_OID_LEN)
          else
            do { start_include \<leftarrow> rd buf (off + 2);
                 let buf2 = objid_skip off start_len;
                 end_len \<leftarrow> agentx_value_dec_try buf buf2 ASN1_TAG_OBJID;
                 if objid_too_long end_len then Some (Inl AGENTX_ERR_SR_OID_LEN)
                 else
                   do { end_include \<leftarrow> rd buf (buf2 + 2);
                        (start, _) \<leftarrow> objid_dec buf off (unat (start_len * 4));
                        (end_oid, off') \<leftarrow> objid_dec buf buf2 (unat (end_len * 4));
                        Some (Inr (\<lparr>xsr_start = start, xsr_end = end_oid,
                          xsr_start_include = start_include, xsr_end_include = end_include\<rparr>, off')) } } }"

text \<open>Every element takes at least eight bytes, so the loops end although \<open>payload_length\<close> may pass zero.\<close>

lemma agentx_value_dec_off: "agentx_value_dec buf off t = Some (n, img, off') \<Longrightarrow> off \<le> off'"
  by (auto simp: agentx_value_dec_def Option.bind_eq_Some_conv Let_def split: if_splits)

lemma objid_dec_off: "objid_dec buf off cap = Some (oid, off') \<Longrightarrow> off + 4 \<le> off'"
  by (auto simp: objid_dec_def agentx_value_dec_def number_tag_def string_tag_def Option.bind_eq_Some_conv split: if_splits)

lemma objid_skip_le: "off \<le> objid_skip off len"
  by (simp add: objid_skip_def)

lemma x_var_bind_alloc_off:
  assumes "x_var_bind_alloc buf off flag = Some (Inr (vb, off'))"
  shows "off + 4 \<le> off' \<and> off < length buf"
proof -
  obtain len where "agentx_value_dec buf (objid_skip (off + 4) len) (ucast (xvb_type vb)) = Some (xvb_len vb, xvb_value vb, off')"
      "off < length buf"
    using assms by (auto simp: x_var_bind_alloc_def rd16_def rdn_def Option.bind_eq_Some_conv Let_def split: if_splits)
  then show ?thesis
    using objid_skip_le [of "off + 4" len] agentx_value_dec_off le_trans by blast
qed

lemma search_range_alloc_off:
  assumes "search_range_alloc buf off = Some (Inr (sr, off'))"
  shows "off + 4 \<le> off' \<and> off < length buf"
proof -
  obtain len cap where "objid_dec buf (objid_skip off len) cap = Some (xsr_end sr, off')" "off < length buf"
    using assms by (auto simp: search_range_alloc_def rd_def Option.bind_eq_Some_conv Let_def split: if_splits)
  then show ?thesis
    using objid_skip_le [of off len] objid_dec_off by fastforce
qed

text \<open>The loops of \<open>var_bind_parse\<close> and \<open>search_range_parse\<close>. A loop may stop at an error with the
  elements before it in the list.\<close>

function x_var_bind_parse :: "bytes \<Rightarrow> nat \<Rightarrow> agentx_datagram \<Rightarrow> (agentx_err option \<times> agentx_datagram) option" where
  "x_var_bind_parse buf off xdg =
     (if xh_payload_length (x_hdr xdg) = 0 then Some (None, xdg)
      else case x_var_bind_alloc buf off (xh_flags (x_hdr xdg)) of
          None \<Rightarrow> None
        | Some (Inl e) \<Rightarrow> Some (Some e, xdg)
        | Some (Inr (vb, off')) \<Rightarrow>
            x_var_bind_parse buf off' (x_consume (word_of_nat (off' - off))
              (xdg\<lparr>x_vb_in_list := x_vb_in_list xdg @ [vb], x_vb_in_cnt := x_vb_in_cnt xdg + 1\<rparr>)))"
  by pat_completeness auto
termination
  by (relation "measure (\<lambda>(buf, off, xdg). length buf - off)") (auto dest!: x_var_bind_alloc_off)

function search_range_parse :: "bytes \<Rightarrow> nat \<Rightarrow> agentx_datagram \<Rightarrow> (agentx_err option \<times> agentx_datagram) option" where
  "search_range_parse buf off xdg =
     (if xh_payload_length (x_hdr xdg) = 0 then Some (None, xdg)
      else case search_range_alloc buf off of
          None \<Rightarrow> None
        | Some (Inl e) \<Rightarrow> Some (Some e, xdg)
        | Some (Inr (sr, off')) \<Rightarrow>
            search_range_parse buf off' (x_consume (word_of_nat (off' - off))
              (xdg\<lparr>x_sr_in_list := x_sr_in_list xdg @ [sr], x_sr_in_cnt := x_sr_in_cnt xdg + 1\<rparr>)))"
  by pat_completeness auto
termination
  by (relation "measure (\<lambda>(buf, off, xdg). length buf - off)") (auto dest!: search_range_alloc_off)

declare x_var_bind_parse.simps [simp del] search_range_parse.simps [simp del]

subsection \<open>The header\<close>

definition x_hdr_fields :: "bytes \<Rightarrow> x_pdu_hdr option" where
  "x_hdr_fields buf =
     do { v \<leftarrow> rd buf 0; t \<leftarrow> rd buf 1; f \<leftarrow> rd buf 2; r \<leftarrow> rd buf 3;
          sid \<leftarrow> rd32 f buf 4; tid \<leftarrow> rd32 f buf 8; pid \<leftarrow> rd32 f buf 12; plen \<leftarrow> rd32 f buf 16;
          Some \<lparr>xh_version = v, xh_type = t, xh_flags = f, xh_reserved = r, xh_session_id = sid,
            xh_transaction_id = tid, xh_packet_id = pid, xh_payload_length = plen\<rparr> }"

text \<open>The optional context, with the check of its length computed in 32 bits.\<close>

definition x_context_parse :: "bytes \<Rightarrow> nat \<Rightarrow> agentx_datagram \<Rightarrow> (agentx_err option \<times> agentx_datagram \<times> nat) option" where
  "x_context_parse buf off xdg =
     (let flags = xh_flags (x_hdr xdg) in
      if flags AND NON_DEFAULT_CONTEXT = 0 then Some (None, xdg, off)
      else
        do { len \<leftarrow> rd32 flags buf off;
             let xdg1 = xdg\<lparr>x_ctx_len := len\<rparr>;
             if len + 1 > 41 then Some (Some AGENTX_ERR_PDU_CTX_LEN, xdg1, off)
             else
               do { bs \<leftarrow> rdn buf (off + 4) (unat len);
                    ctx \<leftarrow> wr (x_context xdg1) bs;
                    Some (None, x_consume (word_of_nat (4 + uint_sizeof (unat len))) (xdg1\<lparr>x_context := ctx\<rparr>),
                      off + 4 + uint_sizeof (unat len)) } })"

definition x_additional_parse :: "bytes \<Rightarrow> nat \<Rightarrow> agentx_datagram \<Rightarrow> (agentx_datagram \<times> nat) option" where
  "x_additional_parse buf off xdg =
     (let flags = xh_flags (x_hdr xdg); t = xh_type (x_hdr xdg) in
      if t = AGENTX_PDU_CLOSE then
        do { b \<leftarrow> rd buf off; Some (x_consume 4 (x_set_close_reason b xdg), off + 4) }
      else if t = AGENTX_PDU_GETBULK then
        do { nr \<leftarrow> rd16 flags buf off; mr \<leftarrow> rd16 flags buf (off + 2);
             Some (x_consume 4 (x_set_getbulk nr mr xdg), off + 4) }
      else if t = AGENTX_PDU_RESPONSE then
        do { up \<leftarrow> rd32 flags buf off; err \<leftarrow> rd16 flags buf (off + 4); i \<leftarrow> rd16 flags buf (off + 6);
             Some (x_consume 8 (x_set_response up err i xdg), off + 8) }
      else Some (xdg, off))"

definition x_pdu_hdr_parse :: "bytes \<Rightarrow> agentx_datagram \<Rightarrow> (agentx_err option \<times> agentx_datagram \<times> nat) option" where
  "x_pdu_hdr_parse buf xdg =
     do { h \<leftarrow> x_hdr_fields buf;
          (err, xdg1, off) \<leftarrow> x_context_parse buf 20 (xdg\<lparr>x_hdr := h\<rparr>);
          if err \<noteq> None then Some (err, xdg1, off)
          else do { (xdg2, off') \<leftarrow> x_additional_parse buf off xdg1; Some (None, xdg2, off') } }"

subsection \<open>The message\<close>

definition agentx_decode :: "bytes \<Rightarrow> agentx_datagram \<Rightarrow> (agentx_err option \<times> agentx_datagram) option" where
  "agentx_decode buf xdg =
     do { (err, xdg1, off) \<leftarrow> x_pdu_hdr_parse buf xdg;
          (err', xdg2) \<leftarrow>
            (let t = xh_type (x_hdr xdg1) in
             if err \<noteq> None then Some (err, xdg1)
             else if t = AGENTX_PDU_GET \<or> t = AGENTX_PDU_GETNEXT \<or> t = AGENTX_PDU_GETBULK
               then search_range_parse buf off xdg1
             else if t = AGENTX_PDU_TESTSET \<or> t = AGENTX_PDU_RESPONSE then x_var_bind_parse buf off xdg1
             else Some (None, xdg1));
          Some (err', if err' \<noteq> None then agentx_datagram_clear xdg2 else xdg2) }"

end
