(* ===== verification/Agentx_Msg_Out.thy ===== *)
theory Agentx_Msg_Out
  imports Agentx_Msg_In
begin

text \<open>
  Building AgentX messages (\<open>core/agentx_msg_out.c\<close>). Every function of the source computes the size of
  its PDU, allocates that many bytes, sets them to zero and writes the fields one after the other; the
  integers have the byte order of the (little-endian) host. Here a function returns the whole
  buffer; \<open>None\<close> is a failed assertion, a read outside an object, or a write past the end of the buffer. The
  requests of the sub-agent count up \<open>packet_id\<close>, so they also return the datagram.
\<close>

section \<open>Definitions\<close>

subsection \<open>Buffers, headers, strings\<close>

text \<open>A zeroed buffer of \<open>len\<close> bytes with the bytes \<open>bs\<close> written to it.\<close>

definition x_pdu_buf :: "u32 \<Rightarrow> bytes \<Rightarrow> bytes option" where
  "x_pdu_buf len bs = wr (replicate (unat len) 0) bs"

text \<open>The memory image of \<open>struct x_pdu_hdr\<close>, and the header of a PDU of type \<open>t\<close> and size \<open>len\<close>.\<close>

definition x_hdr_img :: "x_pdu_hdr \<Rightarrow> bytes" where
  "x_hdr_img h = [xh_version h, xh_type h, xh_flags h, xh_reserved h] @ le32 (xh_session_id h) @
     le32 (xh_transaction_id h) @ le32 (xh_packet_id h) @ le32 (xh_payload_length h)"

definition x_pdu_hdr_for :: "x_pdu_hdr \<Rightarrow> u8 \<Rightarrow> u8 \<Rightarrow> u32 \<Rightarrow> x_pdu_hdr" where
  "x_pdu_hdr_for h t flags len =
     h\<lparr>xh_type := t, xh_flags := flags, xh_reserved := 0, xh_payload_length := len - 20\<rparr>"

definition x_next_packet :: "agentx_datagram \<Rightarrow> agentx_datagram" where
  "x_next_packet xdg = xdg\<lparr>x_hdr := (x_hdr xdg)\<lparr>xh_packet_id := xh_packet_id (x_hdr xdg) + 1\<rparr>\<rparr>"

text \<open>A length rounded up in 32 bits, and a string written behind it: the source announces the rounded length, not
  the length of the string.\<close>

definition x_round :: "u32 \<Rightarrow> u32" where
  "x_round len = word_of_nat (uint_sizeof (unat len))"

definition x_octstr :: "u32 \<Rightarrow> bytes \<Rightarrow> bytes option" where
  "x_octstr len str = map_option ((@) (le32 len)) (wr (replicate (unat len) 0) str)"

subsection \<open>Requests of the sub-agent\<close>

definition agentx_open_pdu :: "agentx_datagram \<Rightarrow> oid \<Rightarrow> bytes \<Rightarrow> u32 \<Rightarrow> bytes option" where
  "agentx_open_pdu xdg oid descr descr_len =
     (if \<not> (oid = [] \<or> length oid > 4 \<and> length oid + 5 \<le> MIB_OID_MAX_LEN \<and> unat descr_len \<le> MIB_VALUE_MAX_LEN) then None
      else
        let dlen = x_round descr_len;
            len = 20 + 4 + 4 + (if oid = [] then 0 else word_of_nat (4 * (length oid - 5))) + (4 + dlen);
            h = x_pdu_hdr_for ((x_hdr xdg)\<lparr>xh_version := 1, xh_packet_id := 1\<rparr>) AGENTX_PDU_OPEN 0 len
        in do { s \<leftarrow> x_octstr dlen descr;
                x_pdu_buf len (x_hdr_img h @ replicate 4 0 @ objid_enc oid @ s) })"

definition agentx_close_pdu :: "agentx_datagram \<Rightarrow> u32 \<Rightarrow> (bytes \<times> agentx_datagram) option" where
  "agentx_close_pdu xdg reason =
     (let len = 20 + 4; xdg' = x_next_packet xdg;
          h = x_pdu_hdr_for (x_hdr xdg') AGENTX_PDU_CLOSE (xh_flags (x_hdr xdg)) len
      in do { bs \<leftarrow> x_pdu_buf len (x_hdr_img h @ le32 reason); Some (bs, xdg') })"

text \<open>Registration and deregistration differ in the type and in the first byte of the special fields.\<close>

definition x_region_pdu ::
  "u8 \<Rightarrow> u8 \<Rightarrow> agentx_datagram \<Rightarrow> oid \<Rightarrow> bytes \<Rightarrow> u32 \<Rightarrow> u8 \<Rightarrow> u8 \<Rightarrow> u32 \<Rightarrow> (bytes \<times> agentx_datagram) option" where
  "x_region_pdu t special xdg oid context ctx_len priority range_subid upper_bound =
     (if \<not> (length oid > 4 \<and> length oid + 5 \<le> MIB_OID_MAX_LEN \<and> unat ctx_len \<le> 40) then None
      else
        let clen = x_round ctx_len;
            len = 20 + (if clen \<noteq> 0 then 4 + clen else 0) + (4 + 4 + word_of_nat (4 * (length oid - 5)))
                  + (if range_subid \<noteq> 0 then 4 else 0);
            xdg' = x_next_packet xdg;
            h = x_pdu_hdr_for (x_hdr xdg') t (xh_flags (x_hdr xdg) OR INSTANCE_REGISTRATION) len
        in do { s \<leftarrow> (if clen \<noteq> 0 then x_octstr clen context else Some []);
                bs \<leftarrow> x_pdu_buf len (x_hdr_img h @ s @ [special, priority, range_subid, 0] @ objid_enc oid @
                  (if range_subid \<noteq> 0 then le32 upper_bound else []));
                Some (bs, xdg') })"

definition agentx_register_pdu ::
  "agentx_datagram \<Rightarrow> oid \<Rightarrow> bytes \<Rightarrow> u32 \<Rightarrow> u8 \<Rightarrow> u8 \<Rightarrow> u8 \<Rightarrow> u32 \<Rightarrow> (bytes \<times> agentx_datagram) option" where
  "agentx_register_pdu xdg oid context ctx_len timeout priority range_subid upper_bound =
     x_region_pdu AGENTX_PDU_REG timeout xdg oid context ctx_len priority range_subid upper_bound"

definition agentx_unregister_pdu ::
  "agentx_datagram \<Rightarrow> oid \<Rightarrow> bytes \<Rightarrow> u32 \<Rightarrow> u8 \<Rightarrow> u8 \<Rightarrow> u8 \<Rightarrow> u32 \<Rightarrow> (bytes \<times> agentx_datagram) option" where
  "agentx_unregister_pdu xdg oid context ctx_len timeout priority range_subid upper_bound =
     x_region_pdu AGENTX_PDU_UNREG 0 xdg oid context ctx_len priority range_subid upper_bound"

definition agentx_ping_pdu :: "agentx_datagram \<Rightarrow> bytes \<Rightarrow> u32 \<Rightarrow> (bytes \<times> agentx_datagram) option" where
  "agentx_ping_pdu xdg context context_len =
     (if \<not> unat context_len < 40 then None
      else
        let clen = x_round context_len;
            len = 20 + (if clen \<noteq> 0 then 4 + clen else 0);
            xdg' = x_next_packet xdg;
            h = x_pdu_hdr_for (x_hdr xdg') AGENTX_PDU_PING (xh_flags (x_hdr xdg)) len
        in do { s \<leftarrow> (if clen \<noteq> 0 then x_octstr clen context else Some []);
                bs \<leftarrow> x_pdu_buf len (x_hdr_img h @ s);
                Some (bs, xdg') })"

subsection \<open>Responses\<close>

text \<open>The type of a variable binding has 16 bits and is compared in 16 bits.\<close>

definition number_type :: "u16 \<Rightarrow> bool" where
  "number_type t \<longleftrightarrow> t = ucast ASN1_TAG_INT \<or> t = ucast ASN1_TAG_CNT \<or> t = ucast ASN1_TAG_GAU \<or> t = ucast ASN1_TAG_TIMETICKS"

definition string_type :: "u16 \<Rightarrow> bool" where
  "string_type t \<longleftrightarrow> t = ucast ASN1_TAG_OCTSTR \<or> t = ucast ASN1_TAG_IPADDR"

text \<open>The sizes that the first loop of \<open>agentx_response_pdu\<close> adds up for one variable binding, in 32 bits.\<close>

definition x_vb_size :: "x_var_bind \<Rightarrow> u32" where
  "x_vb_size vb =
     (let t = xvb_type vb; len = xvb_len vb in
      (if length (xvb_oid vb) > 5 then 4 + 4 + word_of_nat (4 * (length (xvb_oid vb) - 5)) else 4 + 4) +
      (if number_type t then 4
       else if t = ucast ASN1_TAG_CNT64 then 8
       else if string_type t then 4 + x_round len
       else if t = ucast ASN1_TAG_OBJID then (if len > 20 then 4 + len - 20 else 4)
       else 0))"

text \<open>The data of a variable binding. The length of a value is in bytes; an object identifier is written like
  \<open>objid_enc\<close> does, with the sub-identifiers copied from the value.\<close>

definition x_vb_data :: "x_var_bind \<Rightarrow> bytes option" where
  "x_vb_data vb =
     (let t = xvb_type vb; len = unat (xvb_len vb); mem = xvb_value vb in
      if number_type t then rdn mem 0 4
      else if t = ucast ASN1_TAG_CNT64 then rdn mem 0 8
      else if string_type t then
        do { s \<leftarrow> rdn mem 0 len; Some (le32 (xvb_len vb) @ s @ replicate (uint_sizeof len - len) 0) }
      else if t = ucast ASN1_TAG_OBJID then
        do { p \<leftarrow> (if len > 16 then map_option (\<lambda>w. ucast (of_le32 w)) (rdn mem 16 4) else Some 0);
             ids \<leftarrow> (if len div 4 > 5 then rdn mem 20 (4 * (len div 4 - 5)) else Some []);
             Some ([if len > 20 then word_of_nat ((len - 20) div 4) else 0, p, 0, 0] @ ids @
               (if len > 20 then replicate (len mod 4) 0 else [])) }
      else Some [])"

definition x_vb_enc :: "x_var_bind \<Rightarrow> bytes option" where
  "x_vb_enc vb = do { d \<leftarrow> x_vb_data vb; Some (le16 (xvb_type vb) @ [0, 0] @ objid_enc (xvb_oid vb) @ d) }"

primrec x_vbs_enc :: "x_var_bind list \<Rightarrow> bytes option" where
  "x_vbs_enc [] = Some []"
| "x_vbs_enc (vb # vbs) = do { b \<leftarrow> x_vb_enc vb; bs \<leftarrow> x_vbs_enc vbs; Some (b @ bs) }"

definition x_response_len :: "agentx_datagram \<Rightarrow> u32" where
  "x_response_len xdg = foldl (\<lambda>len vb. len + x_vb_size vb) (20 + 4 + 2 * 2) (x_vb_out_list xdg)"

definition agentx_response_pdu :: "agentx_datagram \<Rightarrow> bytes option" where
  "agentx_response_pdu xdg =
     (let len = x_response_len xdg;
          h = x_pdu_hdr_for (x_hdr xdg) AGENTX_PDU_RESPONSE (xh_flags (x_hdr xdg)) len
      in do { vbs \<leftarrow> x_vbs_enc (x_vb_out_list xdg);
              x_pdu_buf len (x_hdr_img h @ replicate 4 0 @ le16 (x_error xdg) @ le16 (x_index xdg) @ vbs) })"

text \<open>\<open>agentx_response\<close> sends the buffer; a failure to send is only logged.\<close>

definition agentx_response :: "agentx_datagram \<Rightarrow> bytes option" where
  "agentx_response xdg = agentx_response_pdu xdg"

end
