(* ===== verification/Agentx_Msg_Proc.thy ===== *)
theory Agentx_Msg_Proc
  imports Agentx_Msg_Out Mib_Get Answer_Loop
begin

text \<open>
  Processing an AgentX request (\<open>core/agentx_msg_proc.c\<close>), its entry point (\<open>agentx_recv\<close> and
  \<open>agentx_request_dispatch\<close> in \<open>core/agentx_msg_in.c\<close>), and the session of the sub-agent with
  its master (\<open>core/agentx.c\<close>). There is no access control on this side: every search uses the view 1.3.6.1. The
  handlers are the parameter \<open>lua\<close> with their state, as in \<open>Mib_Search\<close>; the socket is the
  parameter \<open>net\<close> of the session operations.
\<close>

section \<open>Definitions\<close>

subsection \<open>Searching\<close>

definition agentx_dummy_view :: oid where
  "agentx_dummy_view = [1, 3, 6, 1]"

type_synonym 'w x_search = "oid_search_res \<Rightarrow> 'w \<Rightarrow> (oid_search_res \<times> 'w) option"

definition x_tree_search :: "'w lua \<Rightarrow> mib_node \<Rightarrow> oid \<Rightarrow> 'w x_search" where
  "x_tree_search lua root oid r w =
     do { (_, r', w') \<leftarrow> mib_tree_search lua root agentx_dummy_view oid r w; Some (r', w') }"

definition x_mib_get :: "'w lua \<Rightarrow> mib_node \<Rightarrow> x_search_range \<Rightarrow> 'w x_search" where
  "x_mib_get lua root sr_in r w = x_tree_search lua root (xsr_start sr_in) r w"

text \<open>A value was found: no error and no exception tag.\<close>

definition x_valid :: "oid_search_res \<Rightarrow> bool" where
  "x_valid r \<longleftrightarrow> sr_err_stat r = 0 \<and> MIB_TAG_VALID (var_tag (sr_var r))"

text \<open>The identifier found is beyond the end of the range.\<close>

definition x_exceeds :: "x_search_range \<Rightarrow> oid \<Rightarrow> bool" where
  "x_exceeds sr_in oid \<longleftrightarrow>
     (xsr_end_include sr_in \<noteq> 0 \<and> oid_cmp oid (xsr_end sr_in) > 0) \<or>
     (xsr_end_include sr_in = 0 \<and> oid_cmp oid (xsr_end sr_in) \<ge> 0)"

definition x_mib_getnext :: "'w lua \<Rightarrow> mib_node \<Rightarrow> x_search_range \<Rightarrow> 'w x_search" where
  "x_mib_getnext lua root sr_in r w =
     do { (r1, w1) \<leftarrow> (if xsr_start_include sr_in \<noteq> 0 then x_tree_search lua root (xsr_start sr_in) r w else Some (r, w));
          if xsr_start_include sr_in = 0 \<or> \<not> x_valid r1 then
            do { (r2, w2) \<leftarrow> mib_tree_search_next lua root agentx_dummy_view (xsr_start sr_in) r1 w1;
                 if \<not> x_valid r2 then Some (r2, w2)
                 else
                   do { oid \<leftarrow> rdn (sr_oid r2) 0 (sr_id_len r2);
                        if \<not> x_exceeds sr_in oid then Some (r2, w2)
                        else
                          do { buf \<leftarrow> oid_cpy (sr_oid r2) (xsr_start sr_in);
                               Some (set_tag ASN1_TAG_END_OF_MIB_VIEW
                                 (r2\<lparr>sr_oid := buf, sr_id_len := length (xsr_start sr_in), sr_inst_id := 0,
                                     sr_inst_id_len := 0\<rparr>), w2) } } }
          else Some (r1, w1) }"

definition x_mib_set :: "'w lua \<Rightarrow> mib_node \<Rightarrow> x_var_bind \<Rightarrow> 'w x_search" where
  "x_mib_set lua root vb_in r w = x_tree_search lua root (xvb_oid vb_in) r w"

subsection \<open>One variable binding of the answer\<close>

text \<open>The new variable binding with a value of \<open>n\<close> elements; a value longer than the \<open>val_len\<close> bytes allocated for
  it overruns the heap object.\<close>

definition x_vb_out :: "oid_search_res \<Rightarrow> u16 \<Rightarrow> (u32 \<Rightarrow> u32) \<Rightarrow> x_var_bind option" where
  "x_vb_out r type n =
     (let var = sr_var r; val_len = agentx_value_enc_try (ucast (var_len var)) (var_tag var) in
      do { oid \<leftarrow> rdn (sr_oid r) 0 (sr_id_len r);
           bs \<leftarrow> agentx_value_enc (var_mem var) (n val_len) (var_tag var);
           if length bs \<le> unat val_len
           then Some \<lparr>xvb_oid = oid, xvb_type = type, xvb_len = word_of_nat (length bs), xvb_value = bs\<rparr>
           else None })"

text \<open>The first error is recorded. The status is a C \<open>int\<close>, the fields have 16 bits.\<close>

definition x_mark_error :: "int \<Rightarrow> nat \<Rightarrow> agentx_datagram \<Rightarrow> agentx_datagram" where
  "x_mark_error e cnt xdg =
     (if (word_of_int e :: u32) \<noteq> 0 \<and> x_error xdg = 0
      then xdg\<lparr>x_error := word_of_int e, x_index := word_of_nat cnt\<rparr> else xdg)"

definition x_vb_add :: "x_var_bind \<Rightarrow> agentx_datagram \<Rightarrow> agentx_datagram" where
  "x_vb_add vb xdg = xdg\<lparr>x_vb_out_list := x_vb_out_list xdg @ [vb], x_vb_out_cnt := x_vb_out_cnt xdg + 1\<rparr>"

type_synonym 'w x_proc = "agentx_datagram \<times> oid_search_res \<times> 'w"

definition x_read_step :: "(x_search_range \<Rightarrow> 'w x_search) \<Rightarrow> nat \<Rightarrow> x_search_range \<Rightarrow> 'w x_proc \<Rightarrow> 'w x_proc option" where
  "x_read_step search cnt sr_in = (\<lambda>(xdg, r, w).
     do { (r1, w1) \<leftarrow> search sr_in r w;
          vb \<leftarrow> x_vb_out r1 (ucast (var_tag (sr_var r1))) (\<lambda>_. ucast (var_len (sr_var r1)));
          Some (x_vb_add vb (x_mark_error (sr_err_stat r1) cnt xdg), r1, w1) })"

text \<open>The value of a SET is copied ahead of the search; the answer is encoded with the size in bytes as
  the number of elements, and with the type of the request.\<close>

definition x_set_value :: "x_var_bind \<Rightarrow> oid_search_res \<Rightarrow> oid_search_res option" where
  "x_set_value vb_in r =
     (let t = ucast (xvb_type vb_in); len = ucast (xvb_len vb_in) :: u16;
          val_len = agentx_value_enc_try (ucast len) t in
      do { bs \<leftarrow> rdn (xvb_value vb_in) 0 (unat val_len);
           mem \<leftarrow> wr (var_mem (sr_var r)) bs;
           Some (r\<lparr>sr_var := \<lparr>var_tag = t, var_len = len, var_mem = mem\<rparr>\<rparr>) })"

abbreviation AGENTX_ERR_STAT_NOT_WRITABLE :: int where
  "AGENTX_ERR_STAT_NOT_WRITABLE \<equiv> 17"

definition x_set_step :: "(x_var_bind \<Rightarrow> 'w x_search) \<Rightarrow> nat \<Rightarrow> x_var_bind \<Rightarrow> 'w x_proc \<Rightarrow> 'w x_proc option" where
  "x_set_step search cnt vb_in = (\<lambda>(xdg, r, w).
     do { r0 \<leftarrow> x_set_value vb_in r;
          (r1, w1) \<leftarrow> search vb_in r0 w;
          vb \<leftarrow> x_vb_out r1 (xvb_type vb_in) (\<lambda>val_len. val_len);
          let r2 = (if sr_err_stat r1 = 0 \<and> \<not> MIB_TAG_VALID (var_tag (sr_var r1))
                    then r1\<lparr>sr_err_stat := AGENTX_ERR_STAT_NOT_WRITABLE\<rparr> else r1);
          Some (x_vb_add vb (x_mark_error (sr_err_stat r2) cnt xdg), r2, w1) })"

subsection \<open>Requests\<close>

text \<open>The datagram after a request, the state of the handlers, and the message sent if there is one.\<close>

type_synonym 'w x_reply = "agentx_datagram \<times> 'w \<times> bytes option"

definition x_respond :: "'w x_proc \<Rightarrow> 'w x_reply option" where
  "x_respond = (\<lambda>(xdg, r, w). do { bs \<leftarrow> agentx_response xdg; Some (xdg, w, Some bs) })"

definition agentx_get :: "'w lua \<Rightarrow> mib_node \<Rightarrow> agentx_datagram \<Rightarrow> 'w \<Rightarrow> 'w x_reply option" where
  "agentx_get lua root xdg w =
     do { st \<leftarrow> each_vb (x_read_step (x_mib_get lua root)) 0 (x_sr_in_list xdg) (xdg, res_zero MIB_REQ_GET, w);
          x_respond st }"

definition agentx_getnext :: "'w lua \<Rightarrow> mib_node \<Rightarrow> agentx_datagram \<Rightarrow> 'w \<Rightarrow> 'w x_reply option" where
  "agentx_getnext lua root xdg w =
     do { st \<leftarrow> each_vb (x_read_step (x_mib_getnext lua root)) 0 (x_sr_in_list xdg) (xdg, res_zero MIB_REQ_GETNEXT, w);
          x_respond st }"

definition agentx_set :: "'w lua \<Rightarrow> mib_node \<Rightarrow> agentx_datagram \<Rightarrow> 'w \<Rightarrow> 'w x_reply option" where
  "agentx_set lua root xdg w =
     do { st \<leftarrow> each_vb (x_set_step (x_mib_set lua root)) 0 (x_vb_in_list xdg) (xdg, res_zero MIB_REQ_SET, w);
          x_respond st }"

definition agentx_request_dispatch :: "'w lua \<Rightarrow> mib_node \<Rightarrow> agentx_datagram \<Rightarrow> 'w \<Rightarrow> 'w x_reply option" where
  "agentx_request_dispatch lua root xdg w =
     (let t = xh_type (x_hdr xdg) in
      if t = AGENTX_PDU_GET then agentx_get lua root xdg w
      else if t = AGENTX_PDU_GETNEXT \<or> t = AGENTX_PDU_GETBULK then agentx_getnext lua root xdg w
      else if t = AGENTX_PDU_TESTSET then agentx_set lua root xdg w
      else if t = AGENTX_PDU_COMMITSET \<or> t = AGENTX_PDU_UNDOSET \<or> t = AGENTX_PDU_CLEANUPSET then
        do { bs \<leftarrow> agentx_response xdg; Some (xdg, w, Some bs) }
      else Some (xdg, w, None))"

text \<open>\<open>agentx_recv\<close>: the assertion on the buffer, decoding, dispatch. The first component is the return
  value, \<open>None\<close> for \<open>AGENTX_ERR_OK\<close>.\<close>

definition agentx_recv ::
  "'w lua \<Rightarrow> mib_node \<Rightarrow> agentx_datagram \<Rightarrow> bytes \<Rightarrow> 'w \<Rightarrow> (agentx_err option \<times> 'w x_reply) option" where
  "agentx_recv lua root xdg buffer w =
     (if buffer = [] then None
      else do { (err, xdg1) \<leftarrow> agentx_decode buffer (agentx_datagram_clear xdg);
                if err \<noteq> None then Some (err, xdg1, w, None)
                else do { rep \<leftarrow> agentx_request_dispatch lua root xdg1 w; Some (None, rep) } })"

end
