(* ===== verification/Agentx_Msg_Codec.thy ===== *)
theory Agentx_Msg_Codec
  imports Agentx_Msg_Out
begin

text \<open>
  What the AgentX decoder promises about the datagrams it accepts, and the round trip of a response:
  the decoder of \<open>core/agentx_msg_in.c\<close> reads what the encoder of \<open>core/agentx_msg_out.c\<close> writes.
\<close>

section \<open>Bounds\<close>

text \<open>An identifier that can be decoded: the null identifier, or one below 1.3.6.1 with its fifth sub-identifier in
  one byte.\<close>

definition x_oid_ok :: "oid \<Rightarrow> bool" where
  "x_oid_ok oid \<longleftrightarrow> length oid \<le> MIB_OID_MAX_LEN \<and> (oid = [] \<or> length oid > 4 \<and> take 4 oid = [1, 3, 6, 1] \<and> oid ! 4 < 256)"

lemma mem_oid_append: "mem_oid (oid_img a @ m) (length a + k) = map_option ((@) a) (mem_oid m k)"
  by (induction a) (auto simp: oid_img_def option.map_comp comp_def option.map_ident)

lemma mem_oid_head:
  assumes "mem_oid (oid_img a @ m) k = Some oid" "k = length a + n"
  obtains rest where "oid = a @ rest" "mem_oid m n = Some rest"
  using assms by (auto simp: mem_oid_append)

lemma ucast8_less: "(ucast (p :: u8) :: u32) < 256"
  using unat8_less [of p] by (simp add: word_less_nat_alt)

text \<open>The size that is checked is the size of the identifier that is decoded, and the offset computed from it
  is where the decoder stops.\<close>

lemma objid_dec_ok:
  assumes "objid_dec buf off cap = Some (oid, off')" "agentx_value_dec_try buf off ASN1_TAG_OBJID = Some len"
  shows "off' = objid_skip off len" "\<not> objid_too_long len \<Longrightarrow> x_oid_ok oid"
proof -
  obtain n p where np: "rd buf off = Some n" "rd buf (off + 1) = Some p"
    using assms(2) by (auto simp: agentx_value_dec_try_def Option.bind_eq_Some_conv)
  note dec = assms [unfolded objid_dec_def agentx_objid_dec [OF np]]
  have "off' = objid_skip off len \<and> (\<not> objid_too_long len \<longrightarrow> x_oid_ok oid)"
  proof (cases "n = 0 \<and> p = 0")
    case True
    then show ?thesis
      using dec by (auto simp: objid_skip_def x_oid_ok_def)
  next
    case False
    then have len: "unat len = 4 * (unat n + 5)"
      using dec(2) unat_objid_size [of n] unfolding if_not_P [OF False] by simp
    obtain ids where ids: "mem_oid (oid_img [1, 3, 6, 1, ucast p] @ ids) (5 + unat n) = Some oid" "off' = off + 4 + 4 * unat n"
      using dec(1) unfolding if_not_P [OF False] by (auto simp: Option.bind_eq_Some_conv unat_objid_cnt split: if_splits)
    obtain rest where rest: "oid = [1, 3, 6, 1, ucast p] @ rest" "mem_oid ids (unat n) = Some rest"
      by (rule mem_oid_head [OF ids(1)]) simp
    have "len > 0"
      using len by (simp add: word_less_nat_alt)
    then show ?thesis
      using len rest mem_oid_length [OF rest(2)] ids(2) ucast8_less [of p]
      by (auto simp: objid_skip_def objid_too_long_def x_oid_ok_def)
  qed
  then show "off' = objid_skip off len" "\<not> objid_too_long len \<Longrightarrow> x_oid_ok oid"
    by simp_all
qed

definition x_sr_ok :: "x_search_range \<Rightarrow> bool" where
  "x_sr_ok sr \<longleftrightarrow> x_oid_ok (xsr_start sr) \<and> x_oid_ok (xsr_end sr)"

definition x_vb_ok :: "x_var_bind \<Rightarrow> bool" where
  "x_vb_ok vb \<longleftrightarrow> x_oid_ok (xvb_oid vb) \<and> length (xvb_value vb) \<le> MIB_VALUE_MAX_LEN"

lemma search_range_alloc_ok:
  assumes "search_range_alloc buf off = Some (Inr (sr, off'))"
  shows "x_sr_ok sr"
proof -
  obtain len1 len2 cap1 cap2 off1 off2 where
      "agentx_value_dec_try buf off ASN1_TAG_OBJID = Some len1" "\<not> objid_too_long len1"
      "agentx_value_dec_try buf off1 ASN1_TAG_OBJID = Some len2" "\<not> objid_too_long len2"
      "objid_dec buf off cap1 = Some (xsr_start sr, off2)" "objid_dec buf off1 cap2 = Some (xsr_end sr, off')"
    using assms by (auto simp: search_range_alloc_def Option.bind_eq_Some_conv Let_def split: if_splits)
  then show ?thesis
    unfolding x_sr_ok_def using objid_dec_ok(2) by blast
qed

lemma x_var_bind_alloc_ok:
  assumes "x_var_bind_alloc buf off flag = Some (Inr (vb, off'))"
  shows "x_vb_ok vb"
proof -
  obtain len1 cap1 off1 where
      "agentx_value_dec_try buf (off + 4) ASN1_TAG_OBJID = Some len1" "\<not> objid_too_long len1"
      "objid_dec buf (off + 4) cap1 = Some (xvb_oid vb, off1)"
    using assms by (auto simp: x_var_bind_alloc_def Option.bind_eq_Some_conv Let_def not_less split: if_splits)
  moreover obtain val_len :: u32 where "length (xvb_value vb) \<le> unat val_len" "val_len \<le> word_of_nat MIB_VALUE_MAX_LEN"
    using assms by (clarsimp simp: x_var_bind_alloc_def Option.bind_eq_Some_conv Let_def not_less split: if_splits)
  moreover have "unat (word_of_nat MIB_VALUE_MAX_LEN :: u32) = MIB_VALUE_MAX_LEN"
    by (simp add: MIB_VALUE_MAX_LEN_def)
  ultimately show ?thesis
    unfolding x_vb_ok_def using objid_dec_ok(2) by (metis word_le_nat_alt le_trans)
qed

section \<open>The loops over the payload\<close>

text \<open>Both loops of the decoder have the same shape: while there is payload left, an element is decoded at the
  current offset, added to a list of the datagram, and its size is taken off the payload. The locale states
  this shape for any element; \<open>add xs\<close> appends elements to the list and counts them.\<close>

definition x_set_payload :: "u32 \<Rightarrow> agentx_datagram \<Rightarrow> agentx_datagram" where
  "x_set_payload n xdg = xdg\<lparr>x_hdr := (x_hdr xdg)\<lparr>xh_payload_length := n\<rparr>\<rparr>"

text \<open>The elements \<open>xs\<close> stand in the buffer one after the other, from offset \<open>off\<close> to \<open>off'\<close>.\<close>

primrec elems_at :: "(bytes \<Rightarrow> nat \<Rightarrow> u8 \<Rightarrow> 'a x_alloc) \<Rightarrow> bytes \<Rightarrow> u8 \<Rightarrow> nat \<Rightarrow> 'a list \<Rightarrow> nat \<Rightarrow> bool" where
  "elems_at alloc buf flag off [] off' \<longleftrightarrow> off' = off"
| "elems_at alloc buf flag off (x # xs) off' \<longleftrightarrow> (\<exists>off1. alloc buf off flag = Some (Inr (x, off1)) \<and> elems_at alloc buf flag off1 xs off')"

locale payload_loop =
  fixes alloc :: "bytes \<Rightarrow> nat \<Rightarrow> u8 \<Rightarrow> 'a x_alloc"
    and loop :: "bytes \<Rightarrow> nat \<Rightarrow> agentx_datagram \<Rightarrow> (agentx_err option \<times> agentx_datagram) option"
    and add :: "'a list \<Rightarrow> agentx_datagram \<Rightarrow> agentx_datagram" and ok :: "'a \<Rightarrow> bool"
  assumes loop_eq: "loop buf off xdg =
      (if xh_payload_length (x_hdr xdg) = 0 then Some (None, xdg)
       else case alloc buf off (xh_flags (x_hdr xdg)) of
           None \<Rightarrow> None
         | Some (Inl e) \<Rightarrow> Some (Some e, xdg)
         | Some (Inr (x, off')) \<Rightarrow> loop buf off' (x_consume (word_of_nat (off' - off)) (add [x] xdg)))"
    and alloc_ok: "alloc buf off flag = Some (Inr (x, off')) \<Longrightarrow> ok x \<and> off < off' \<and> off < length buf"
    and add_nil: "add [] xdg = xdg" and add_add: "add ys (add xs xdg) = add (xs @ ys) xdg"
    and add_hdr: "x_hdr (add xs xdg) = x_hdr xdg"
    and add_payload: "add xs (x_set_payload n xdg) = x_set_payload n (add xs xdg)"
begin

lemma consume_add:
  "x_consume k (add xs xdg) = x_set_payload (xh_payload_length (x_hdr xdg) - k) (add xs xdg)"
  by (simp add: x_consume_def x_set_payload_def add_hdr)

lemma set_payload_twice: "x_set_payload n (x_set_payload k xdg) = x_set_payload n xdg"
  by (simp add: x_set_payload_def)

lemma set_payload_same: "xh_payload_length (x_hdr xdg) = n \<Longrightarrow> x_set_payload n xdg = xdg"
  by (auto simp: x_set_payload_def)

text \<open>A loop without an error ends exactly at the end of the payload.\<close>

lemma loop_adds:
  "loop buf off xdg = Some (err, xdg') \<Longrightarrow>
   \<exists>xs n. xdg' = x_set_payload n (add xs xdg) \<and> list_all ok xs \<and> (err = None \<longrightarrow> n = 0)"
proof (induction "length buf - off" arbitrary: off xdg rule: less_induct)
  case less
  show ?case
  proof (cases "xh_payload_length (x_hdr xdg) = 0")
    case True
    then show ?thesis
      using less.prems loop_eq [of buf off xdg] by (intro exI [of _ "[]"] exI [of _ 0]) (simp add: add_nil set_payload_same)
  next
    case False
    consider (err) e where "alloc buf off (xh_flags (x_hdr xdg)) = Some (Inl e)"
      | (elem) x off' where "alloc buf off (xh_flags (x_hdr xdg)) = Some (Inr (x, off'))"
      using less.prems False loop_eq [of buf off xdg] by (auto split: option.splits sum.splits)
    then show ?thesis
    proof cases
      case err
      then show ?thesis
        using less.prems False loop_eq [of buf off xdg]
        by (intro exI [of _ "[]"] exI [of _ "xh_payload_length (x_hdr xdg)"]) (auto simp: add_nil set_payload_same)
    next
      case elem
      then have l: "loop buf off' (x_consume (word_of_nat (off' - off)) (add [x] xdg)) = Some (err, xdg')"
        using less.prems False loop_eq [of buf off xdg] by simp
      have "length buf - off' < length buf - off"
        using alloc_ok [OF elem] by linarith
      from less.hyps [OF this l] obtain xs n where "xdg' = x_set_payload n (add xs (x_consume (word_of_nat (off' - off)) (add [x] xdg)))"
          "list_all ok xs" "err = None \<longrightarrow> n = 0"
        by blast
      then show ?thesis
        using alloc_ok [OF elem]
        by (intro exI [of _ "x # xs"] exI [of _ n]) (simp add: consume_add add_payload set_payload_twice add_add)
    qed
  qed
qed

text \<open>The elements of a loop without an error fill the rest of the payload.\<close>

lemma loop_fills:
  "loop buf off xdg = Some (None, xdg') \<Longrightarrow>
   \<exists>xs off'. xdg' = x_set_payload 0 (add xs xdg) \<and> elems_at alloc buf (xh_flags (x_hdr xdg)) off xs off' \<and> off \<le> off' \<and>
     xh_payload_length (x_hdr xdg) = word_of_nat (off' - off)"
proof (induction "length buf - off" arbitrary: off xdg rule: less_induct)
  case less
  show ?case
  proof (cases "xh_payload_length (x_hdr xdg) = 0")
    case True
    then show ?thesis
      using less.prems loop_eq [of buf off xdg] by (intro exI [of _ "[]"] exI [of _ off]) (simp add: add_nil set_payload_same)
  next
    case False
    obtain x off1 where x: "alloc buf off (xh_flags (x_hdr xdg)) = Some (Inr (x, off1))"
      using less.prems False loop_eq [of buf off xdg] by (auto split: option.splits sum.splits)
    let ?xdg = "x_consume (word_of_nat (off1 - off)) (add [x] xdg)"
    have l: "loop buf off1 ?xdg = Some (None, xdg')"
      using less.prems False x loop_eq [of buf off xdg] by simp
    have o: "off < off1" "length buf - off1 < length buf - off"
      using alloc_ok [OF x] by linarith+
    have h: "xh_flags (x_hdr ?xdg) = xh_flags (x_hdr xdg)"
        "xh_payload_length (x_hdr ?xdg) = xh_payload_length (x_hdr xdg) - word_of_nat (off1 - off)"
      by (simp_all add: x_consume_def add_hdr)
    obtain xs off' where xs: "xdg' = x_set_payload 0 (add xs ?xdg)" "elems_at alloc buf (xh_flags (x_hdr xdg)) off1 xs off'" "off1 \<le> off'"
        "xh_payload_length (x_hdr xdg) - word_of_nat (off1 - off) = word_of_nat (off' - off1)"
      using less.hyps [OF o(2) l] unfolding h by blast
    have "xh_payload_length (x_hdr xdg) = word_of_nat (off' - off1) + word_of_nat (off1 - off)"
      using xs(4) by (simp add: diff_eq_eq)
    also have "\<dots> = word_of_nat (off' - off)"
      using o(1) xs(3) by (simp flip: of_nat_add)
    finally show ?thesis
      using x o(1) xs
      by (intro exI [of _ "x # xs"] exI [of _ off']) (auto simp: consume_add add_payload set_payload_twice add_add)
  qed
qed

text \<open>A payload of encoded elements is decoded to these elements: \<open>enc\<close> gives the encoding of the elements that
  satisfy \<open>sendable\<close>, and \<open>dec\<close> what the decoder makes of them.\<close>

lemma loop_decodes:
  assumes "\<And>pre x rest. sendable x \<Longrightarrow> alloc (pre @ enc x @ rest) (length pre) flags =
      Some (Inr (dec x, length pre + length (enc x)))"
    and "\<forall>x \<in> set xs. sendable x" "xh_flags (x_hdr xdg) = flags"
    and "length (concat (map enc xs)) < 2 ^ 32"
    and "xh_payload_length (x_hdr xdg) = word_of_nat (length (concat (map enc xs)))"
  shows "loop (pre @ concat (map enc xs)) (length pre) xdg = Some (None, x_set_payload 0 (add (map dec xs) xdg))"
  using assms(2-)
proof (induction xs arbitrary: pre xdg)
  case Nil
  then show ?case
    using loop_eq [of pre "length pre" xdg] by (simp add: add_nil set_payload_same)
next
  case (Cons x xs)
  have a: "alloc (pre @ enc x @ concat (map enc xs)) (length pre) flags = Some (Inr (dec x, length pre + length (enc x)))"
    using assms(1) Cons.prems(1) by simp
  have "length (enc x) > 0"
    using alloc_ok [OF a] by simp
  then have "unat (xh_payload_length (x_hdr xdg)) > 0"
    unfolding Cons.prems(4) unat_word_of_nat [OF Cons.prems(3)] by simp
  then have p: "xh_payload_length (x_hdr xdg) \<noteq> 0"
    by auto
  let ?xdg = "x_consume (word_of_nat (length (enc x))) (add [dec x] xdg)"
  have h: "xh_flags (x_hdr ?xdg) = flags" "xh_payload_length (x_hdr ?xdg) = word_of_nat (length (concat (map enc xs)))"
    using Cons.prems(2,4) by (simp_all add: x_consume_def add_hdr)
  have "loop (pre @ concat (map enc (x # xs))) (length pre) xdg = loop ((pre @ enc x) @ concat (map enc xs)) (length (pre @ enc x)) ?xdg"
    using loop_eq [of "pre @ enc x @ concat (map enc xs)" "length pre" xdg] a p Cons.prems(2) by simp
  also have "\<dots> = Some (None, x_set_payload 0 (add (map dec xs) ?xdg))"
    using Cons.IH [OF _ h(1) _ h(2), of "pre @ enc x"] Cons.prems(1,3) by simp
  finally show ?case
    by (simp add: consume_add add_payload set_payload_twice add_add)
qed

end

definition x_add_vbs :: "x_var_bind list \<Rightarrow> agentx_datagram \<Rightarrow> agentx_datagram" where
  "x_add_vbs vbs xdg = xdg\<lparr>x_vb_in_list := x_vb_in_list xdg @ vbs, x_vb_in_cnt := x_vb_in_cnt xdg + word_of_nat (length vbs)\<rparr>"

definition x_add_srs :: "x_search_range list \<Rightarrow> agentx_datagram \<Rightarrow> agentx_datagram" where
  "x_add_srs srs xdg = xdg\<lparr>x_sr_in_list := x_sr_in_list xdg @ srs, x_sr_in_cnt := x_sr_in_cnt xdg + word_of_nat (length srs)\<rparr>"

interpretation vb_payload: payload_loop x_var_bind_alloc x_var_bind_parse x_add_vbs x_vb_ok
proof
  show "x_var_bind_parse buf off xdg =
      (if xh_payload_length (x_hdr xdg) = 0 then Some (None, xdg)
       else case x_var_bind_alloc buf off (xh_flags (x_hdr xdg)) of
           None \<Rightarrow> None
         | Some (Inl e) \<Rightarrow> Some (Some e, xdg)
         | Some (Inr (x, off')) \<Rightarrow> x_var_bind_parse buf off' (x_consume (word_of_nat (off' - off)) (x_add_vbs [x] xdg)))"
    for buf off xdg
    by (subst x_var_bind_parse.simps) (simp add: x_add_vbs_def cong: option.case_cong sum.case_cong)
  show "x_vb_ok x \<and> off < off' \<and> off < length buf" if "x_var_bind_alloc buf off flag = Some (Inr (x, off'))" for buf off flag x off'
    using x_var_bind_alloc_ok [OF that] x_var_bind_alloc_off [OF that] by simp
qed (simp_all add: x_add_vbs_def x_set_payload_def add.assoc)

interpretation sr_payload: payload_loop "\<lambda>buf off flag. search_range_alloc buf off" search_range_parse x_add_srs x_sr_ok
proof
  show "search_range_parse buf off xdg =
      (if xh_payload_length (x_hdr xdg) = 0 then Some (None, xdg)
       else case search_range_alloc buf off of
           None \<Rightarrow> None
         | Some (Inl e) \<Rightarrow> Some (Some e, xdg)
         | Some (Inr (x, off')) \<Rightarrow> search_range_parse buf off' (x_consume (word_of_nat (off' - off)) (x_add_srs [x] xdg)))"
    for buf off xdg
    by (subst search_range_parse.simps) (simp add: x_add_srs_def cong: option.case_cong sum.case_cong)
  show "x_sr_ok x \<and> off < off' \<and> off < length buf" if "search_range_alloc buf off = Some (Inr (x, off'))" for buf off x off'
    using search_range_alloc_ok [OF that] search_range_alloc_off [OF that] by simp
qed (simp_all add: x_add_srs_def x_set_payload_def add.assoc)

section \<open>Accepted datagrams\<close>

text \<open>The invariant of a datagram: decoded elements are within the limits and counted, and the context is a
  terminated string in its array.\<close>

definition x_dg_ok :: "agentx_datagram \<Rightarrow> bool" where
  "x_dg_ok xdg \<longleftrightarrow> list_all x_sr_ok (x_sr_in_list xdg) \<and> x_sr_in_cnt xdg = word_of_nat (length (x_sr_in_list xdg)) \<and>
     list_all x_vb_ok (x_vb_in_list xdg) \<and> x_vb_in_cnt xdg = word_of_nat (length (x_vb_in_list xdg)) \<and>
     length (x_context xdg) = 41 \<and> x_context xdg ! 40 = 0"

lemma x_dg_ok_clear [simp]: "x_dg_ok (agentx_datagram_clear xdg)"
  by (simp add: x_dg_ok_def agentx_datagram_clear_def)

lemma x_dg_ok_hdr: "x_dg_ok (xdg\<lparr>x_hdr := h\<rparr>) = x_dg_ok xdg"
  by (simp add: x_dg_ok_def)

lemma x_dg_ok_payload [simp]: "x_dg_ok (x_set_payload n xdg) = x_dg_ok xdg" "x_dg_ok (x_consume n xdg) = x_dg_ok xdg"
  by (simp_all add: x_dg_ok_def x_set_payload_def x_consume_def)

lemma x_context_parse_ok:
  assumes "x_context_parse buf off xdg = Some (err, xdg', off')" "x_dg_ok xdg"
  shows "x_dg_ok xdg'"
proof -
  have "length bs \<le> 40" if "wr (x_context xdg) bs = Some ctx" "rdn buf i (unat len) = Some bs" "\<not> (41 :: u32) < len + 1" for bs ctx i len
  proof -
    have l: "length bs = unat len" "unat len \<le> 41"
      using that rdn_length wr_fits assms(2) by (fastforce simp: x_dg_ok_def wr_def split: if_splits)+
    then have "unat (len + 1) = unat len + 1"
      by (simp add: unat_word_ariths)
    then show ?thesis
      using that(3) l by (simp add: word_less_nat_alt)
  qed
  then show ?thesis
    using assms
    by (fastforce simp: x_context_parse_def Let_def Option.bind_eq_Some_conv wr_def x_dg_ok_def x_consume_def nth_append
        split: if_splits)
qed

lemma x_additional_parse_ok:
  "x_additional_parse buf off xdg = Some (xdg', off') \<Longrightarrow> x_dg_ok xdg \<Longrightarrow> x_dg_ok xdg'"
  by (auto simp: x_additional_parse_def Let_def Option.bind_eq_Some_conv x_dg_ok_def x_consume_def x_set_close_reason_def
      x_set_getbulk_def x_set_response_def split: if_splits)

lemma x_pdu_hdr_parse_ok:
  assumes "x_pdu_hdr_parse buf xdg = Some (err, xdg', off)" "x_dg_ok xdg"
  shows "x_dg_ok xdg'"
  using assms
  by (auto simp: x_pdu_hdr_parse_def Option.bind_eq_Some_conv x_dg_ok_hdr split: if_splits
      dest!: x_context_parse_ok x_additional_parse_ok)

lemma x_add_ok:
  "list_all x_vb_ok vbs \<Longrightarrow> x_dg_ok xdg \<Longrightarrow> x_dg_ok (x_add_vbs vbs xdg)"
  "list_all x_sr_ok srs \<Longrightarrow> x_dg_ok xdg \<Longrightarrow> x_dg_ok (x_add_srs srs xdg)"
  by (simp_all add: x_dg_ok_def x_add_vbs_def x_add_srs_def)

definition x_has_payload :: "u8 \<Rightarrow> bool" where
  "x_has_payload t \<longleftrightarrow> t \<in> {AGENTX_PDU_GET, AGENTX_PDU_GETNEXT, AGENTX_PDU_GETBULK, AGENTX_PDU_TESTSET, AGENTX_PDU_RESPONSE}"

lemma x_payload_ok:
  assumes "search_range_parse buf off xdg = Some (err, xdg') \<or> x_var_bind_parse buf off xdg = Some (err, xdg')" "x_dg_ok xdg"
  shows "x_dg_ok xdg'"
  using assms x_add_ok
  by (auto simp: x_set_payload_def x_dg_ok_hdr dest!: sr_payload.loop_adds vb_payload.loop_adds)

text \<open>The elements of a message in \<open>buf\<close> stand one after the other from the end of its header on, and end where the announced
  payload ends, counted in 32 bits from the end of the 20 bytes of the fixed header.\<close>

definition x_filled :: "bytes \<Rightarrow> agentx_datagram \<Rightarrow> agentx_datagram \<Rightarrow> bool" where
  "x_filled buf xdg xdg' \<longleftrightarrow> (\<exists>h xdg1 off n. x_hdr_fields buf = Some h \<and> x_pdu_hdr_parse buf xdg = Some (None, xdg1, off) \<and>
     (if xh_type h \<in> {AGENTX_PDU_TESTSET, AGENTX_PDU_RESPONSE}
      then elems_at x_var_bind_alloc buf (xh_flags h) off (x_vb_in_list xdg') n \<and> x_sr_in_list xdg' = []
      else elems_at (\<lambda>buf off flag. search_range_alloc buf off) buf (xh_flags h) off (x_sr_in_list xdg') n \<and> x_vb_in_list xdg' = []) \<and>
     20 \<le> off \<and> off \<le> n \<and> xh_payload_length h = word_of_nat (n - 20))"

lemma x_pdu_hdr_parse_fields:
  assumes "x_pdu_hdr_parse buf xdg = Some (None, xdg1, off)"
  shows "\<exists>h. x_hdr_fields buf = Some h \<and> xh_type (x_hdr xdg1) = xh_type h \<and> xh_flags (x_hdr xdg1) = xh_flags h \<and> 20 \<le> off \<and>
    xh_payload_length h = xh_payload_length (x_hdr xdg1) + word_of_nat (off - 20) \<and>
    x_vb_in_list xdg1 = x_vb_in_list xdg \<and> x_sr_in_list xdg1 = x_sr_in_list xdg"
proof -
  obtain h xdg0 off0 where h: "x_hdr_fields buf = Some h" "x_context_parse buf 20 (xdg\<lparr>x_hdr := h\<rparr>) = Some (None, xdg0, off0)"
      "x_additional_parse buf off0 xdg0 = Some (xdg1, off)"
    using assms by (auto simp: x_pdu_hdr_parse_def Option.bind_eq_Some_conv split: if_splits)
  have "20 \<le> off0 \<and> x_hdr xdg0 = h\<lparr>xh_payload_length := xh_payload_length h - word_of_nat (off0 - 20)\<rparr> \<and>
      x_vb_in_list xdg0 = x_vb_in_list xdg \<and> x_sr_in_list xdg0 = x_sr_in_list xdg"
    using h(2) by (auto simp: x_context_parse_def x_consume_def Let_def Option.bind_eq_Some_conv split: if_splits)
  moreover have "off0 \<le> off \<and> x_hdr xdg1 = (x_hdr xdg0)\<lparr>xh_payload_length := xh_payload_length (x_hdr xdg0) - word_of_nat (off - off0)\<rparr> \<and>
      x_vb_in_list xdg1 = x_vb_in_list xdg0 \<and> x_sr_in_list xdg1 = x_sr_in_list xdg0"
    using h(3) by (auto simp: x_additional_parse_def x_consume_def x_set_close_reason_def x_set_getbulk_def x_set_response_def Let_def
        Option.bind_eq_Some_conv split: if_splits)
  moreover from calculation have "word_of_nat (off - 20) = word_of_nat (off - off0) + (word_of_nat (off0 - 20) :: u32)"
    by (simp flip: of_nat_add)
  ultimately show ?thesis
    using h(1) by simp
qed

lemma x_payload_filled:
  assumes "x_pdu_hdr_parse buf (agentx_datagram_clear xdg) = Some (None, xdg1, off)"
    and "xh_type (x_hdr xdg1) \<in> {AGENTX_PDU_GET, AGENTX_PDU_GETNEXT, AGENTX_PDU_GETBULK} \<and> search_range_parse buf off xdg1 = Some (None, xdg') \<or>
      xh_type (x_hdr xdg1) \<in> {AGENTX_PDU_TESTSET, AGENTX_PDU_RESPONSE} \<and> x_var_bind_parse buf off xdg1 = Some (None, xdg')"
  shows "x_filled buf (agentx_datagram_clear xdg) xdg'"
proof -
  obtain h where h: "x_hdr_fields buf = Some h" "xh_type (x_hdr xdg1) = xh_type h" "xh_flags (x_hdr xdg1) = xh_flags h" "20 \<le> off"
      "xh_payload_length h = xh_payload_length (x_hdr xdg1) + word_of_nat (off - 20)" "x_vb_in_list xdg1 = []" "x_sr_in_list xdg1 = []"
    using x_pdu_hdr_parse_fields [OF assms(1)] by (auto simp: agentx_datagram_clear_def)
  have p: "xh_payload_length h = word_of_nat (n - 20)" if "xh_payload_length (x_hdr xdg1) = word_of_nat (n - off)" "off \<le> n" for n
    using that h(4,5) by (simp flip: of_nat_add)
  from assms(2) show ?thesis
  proof
    assume s: "xh_type (x_hdr xdg1) \<in> {AGENTX_PDU_GET, AGENTX_PDU_GETNEXT, AGENTX_PDU_GETBULK} \<and> search_range_parse buf off xdg1 = Some (None, xdg')"
    then obtain xs n where "xdg' = x_set_payload 0 (x_add_srs xs xdg1)" "off \<le> n"
        "elems_at (\<lambda>buf off flag. search_range_alloc buf off) buf (xh_flags h) off xs n" "xh_payload_length (x_hdr xdg1) = word_of_nat (n - off)"
      using sr_payload.loop_fills [of buf off xdg1 xdg'] h(3) by auto
    then show ?thesis
      using s assms(1) h p unfolding x_filled_def
      by (intro exI [of _ h] exI [of _ xdg1] exI [of _ off] exI [of _ n]) (auto simp: x_add_srs_def x_set_payload_def)
  next
    assume s: "xh_type (x_hdr xdg1) \<in> {AGENTX_PDU_TESTSET, AGENTX_PDU_RESPONSE} \<and> x_var_bind_parse buf off xdg1 = Some (None, xdg')"
    then obtain xs n where "xdg' = x_set_payload 0 (x_add_vbs xs xdg1)" "off \<le> n"
        "elems_at x_var_bind_alloc buf (xh_flags h) off xs n" "xh_payload_length (x_hdr xdg1) = word_of_nat (n - off)"
      using vb_payload.loop_fills [of buf off xdg1 xdg'] h(3) by auto
    then show ?thesis
      using s assms(1) h p unfolding x_filled_def
      by (intro exI [of _ h] exI [of _ xdg1] exI [of _ off] exI [of _ n]) (auto simp: x_add_vbs_def x_set_payload_def)
  qed
qed

text \<open>C23: If the decoder does not read past the end of the received buffer (then \<open>agentx_decode\<close> is \<open>None\<close>, which a truncated message
  can cause), it leaves a datagram whose identifiers are null or below 1.3.6.1 and have at
  most 64 sub-identifiers, whose values have at most 1024 bytes, whose counters count its lists and whose context is a
  terminated string in its array. If it reports an error, all lists are empty. If it accepts a GET, GETNEXT, GETBULK, TESTSET or response, the
  elements of its list stand in the buffer one after the other behind the header and end exactly where the announced payload ends, modulo \<open>2 ^ 32\<close>.\<close>

theorem agentx_decode_bounds:
  assumes "agentx_decode buf (agentx_datagram_clear xdg) = Some (err, xdg')"
  shows "x_dg_ok xdg' \<and>
    (err \<noteq> None \<longrightarrow> x_sr_in_list xdg' = [] \<and> x_vb_in_list xdg' = [] \<and> x_error xdg' = 0) \<and>
    (err = None \<and> x_has_payload (xh_type (x_hdr xdg')) \<longrightarrow> x_filled buf (agentx_datagram_clear xdg) xdg')"
proof -
  obtain e1 xdg1 off xdg2 where p: "x_pdu_hdr_parse buf (agentx_datagram_clear xdg) = Some (e1, xdg1, off)"
      and x: "(let t = xh_type (x_hdr xdg1) in
             if e1 \<noteq> None then Some (e1, xdg1)
             else if t = AGENTX_PDU_GET \<or> t = AGENTX_PDU_GETNEXT \<or> t = AGENTX_PDU_GETBULK
               then search_range_parse buf off xdg1
             else if t = AGENTX_PDU_TESTSET \<or> t = AGENTX_PDU_RESPONSE then x_var_bind_parse buf off xdg1
             else Some (None, xdg1)) = Some (err, xdg2)"
      and e: "xdg' = (if err \<noteq> None then agentx_datagram_clear xdg2 else xdg2)"
    using assms unfolding agentx_decode_def by (auto simp: Option.bind_eq_Some_conv)
  have "x_dg_ok xdg1"
    using x_pdu_hdr_parse_ok [OF p] by simp
  then have "x_dg_ok xdg2"
    using x x_payload_ok [of buf off xdg1 err xdg2] by (auto simp: Let_def split: if_splits)
  moreover have "x_filled buf (agentx_datagram_clear xdg) xdg2" if "err = None" "x_has_payload (xh_type (x_hdr xdg2))"
    using x that p x_payload_filled [of buf xdg xdg1 off xdg2] by (auto simp: Let_def x_has_payload_def split: if_splits)
  ultimately show ?thesis
    unfolding e by (simp add: agentx_datagram_clear_def [of xdg2] x_dg_ok_def)
qed

text \<open>The datagram before the first message, and a GET request for 1.3.6.1.2.1 with a null end.\<close>

definition x_dg_zero :: agentx_datagram where
  "x_dg_zero = \<lparr>x_context = replicate 41 0, x_ctx_len = 0,
     x_hdr = \<lparr>xh_version = 0, xh_type = 0, xh_flags = 0, xh_reserved = 0, xh_session_id = 0, xh_transaction_id = 0,
       xh_packet_id = 0, xh_payload_length = 0\<rparr>,
     x_sys_up_time = 0, x_error = 0, x_index = 0, x_vb_in_cnt = 0, x_vb_out_cnt = 0, x_vb_in_list = [], x_vb_out_list = [],
     x_sr_in_cnt = 0, x_sr_out_cnt = 0, x_sr_in_list = [], x_sr_out_list = []\<rparr>"

definition x_get_buf :: bytes where
  "x_get_buf = [1, 5, 0, 0, 7, 0, 0, 0, 0, 0, 0, 0, 1, 0, 0, 0, 12, 0, 0, 0,
     1, 2, 0, 0, 1, 0, 0, 0, 0, 0, 0, 0]"

lemma x_get_decode:
  "agentx_decode x_get_buf (agentx_datagram_clear x_dg_zero) = Some (None, x_dg_zero\<lparr>
     x_hdr := \<lparr>xh_version = 1, xh_type = 5, xh_flags = 0, xh_reserved = 0, xh_session_id = 7, xh_transaction_id = 0,
       xh_packet_id = 1, xh_payload_length = 0\<rparr>,
     x_sr_in_cnt := 1,
     x_sr_in_list := [\<lparr>xsr_start = [1, 3, 6, 1, 2, 1], xsr_end = [], xsr_start_include = 0, xsr_end_include = 0\<rparr>]\<rparr>)"
  by code_simp

theorem agentx_decode_bounds_witness:
  "\<exists>xdg'. agentx_decode x_get_buf (agentx_datagram_clear x_dg_zero) = Some (None, xdg') \<and> x_dg_ok xdg' \<and>
     xsr_start (x_sr_in_list xdg' ! 0) = [1, 3, 6, 1, 2, 1] \<and> x_filled x_get_buf (agentx_datagram_clear x_dg_zero) xdg'"
  using agentx_decode_bounds [OF x_get_decode] x_get_decode by (simp add: x_has_payload_def)

end
