(* ===== verification/Agentx_Roundtrip.thy ===== *)
theory Agentx_Roundtrip
  imports Agentx_Msg_Codec
begin

text \<open>
  The round trip of an AgentX response: which variable bindings the encoder of \<open>core/agentx_msg_out.c\<close> writes
  faithfully, and that the decoder of \<open>core/agentx_msg_in.c\<close> reads them back.
\<close>

section \<open>Object identifiers\<close>

text \<open>The identifiers that survive: 1.3.6.1.0 does not, because its encoding is that of the null identifier.\<close>

definition objid_exact :: "oid \<Rightarrow> bool" where
  "objid_exact oid \<longleftrightarrow> x_oid_ok oid \<and> oid \<noteq> [1, 3, 6, 1, 0]"

lemma length_objid_enc: "length (objid_enc oid) = 4 + 4 * (length oid - 5)"
  by (simp add: objid_enc_def)

lemma oid_img_append: "oid_img (a @ b) = oid_img a @ oid_img b"
  by (simp add: oid_img_def)

lemma ucast_ucast_small: "(w :: u32) < 256 \<Longrightarrow> ucast (ucast w :: u8) = w"
  by (simp add: word_unat_eq_iff unsigned_ucast_eq unsigned_take_bit_eq word_less_nat_alt take_bit_nat_eq_self)

lemma unat_u8_of_nat: "n < 256 \<Longrightarrow> unat (word_of_nat n :: u8) = n"
  by (simp add: unsigned_of_nat take_bit_nat_eq_self)

lemma objid_enc_rd:
  "rd (pre @ objid_enc oid @ rest) (length pre) = Some (if length oid > 5 then word_of_nat (length oid - 5) else 0)"
  "rd (pre @ objid_enc oid @ rest) (length pre + 1) = Some (if length oid > 4 then ucast (oid ! 4) else 0)"
  "rdn (pre @ objid_enc oid @ rest) (length pre + 4) (4 * (length oid - 5)) = Some (oid_img (drop 5 oid))"
  by (simp_all add: rd_def rdn_def objid_enc_def nth_append)

text \<open>An identifier that can be decoded, split the way it is encoded.\<close>

lemma x_oid_split:
  assumes "x_oid_ok oid" "oid \<noteq> []"
  obtains p rest where "oid = [1, 3, 6, 1, p] @ rest" "p < 256" "length rest \<le> 59"
proof -
  have "oid = take 4 oid @ oid ! 4 # drop 5 oid"
    using assms id_take_nth_drop [of 4 oid] by (simp add: x_oid_ok_def)
  then show thesis
    using assms that [of "oid ! 4" "drop 5 oid"] by (auto simp: x_oid_ok_def MIB_OID_MAX_LEN_def)
qed

lemma objid_roundtrip:
  assumes "objid_exact oid"
  shows "\<exists>len. agentx_value_dec_try (pre @ objid_enc oid @ rest) (length pre) ASN1_TAG_OBJID = Some len \<and> unat len = 4 * length oid"
    and "agentx_value_dec (pre @ objid_enc oid @ rest) (length pre) ASN1_TAG_OBJID =
      Some (word_of_nat (length oid), oid_img oid, length pre + length (objid_enc oid))"
proof -
  note dec = agentx_objid_dec [OF objid_enc_rd(1,2), of pre oid rest]
  consider (null) "oid = []" | (oid) p ids where "oid = [1, 3, 6, 1, p] @ ids" "p < 256" "length ids \<le> 59"
    using assms x_oid_split unfolding objid_exact_def by metis
  then have "(\<exists>len. agentx_value_dec_try (pre @ objid_enc oid @ rest) (length pre) ASN1_TAG_OBJID = Some len \<and> unat len = 4 * length oid)
    \<and> agentx_value_dec (pre @ objid_enc oid @ rest) (length pre) ASN1_TAG_OBJID =
      Some (word_of_nat (length oid), oid_img oid, length pre + length (objid_enc oid))"
  proof cases
    case null
    then show ?thesis
      unfolding dec by (simp add: objid_enc_def oid_img_def)
  next
    case oid
    let ?n = "word_of_nat (length ids) :: u8" and ?p = "ucast p :: u8"
    have n: "unat ?n = length ids" "ucast ?p = p"
      using oid unat_u8_of_nat ucast_ucast_small by auto
    have nz: "\<not> (?n = 0 \<and> ?p = 0)"
    proof
      assume z: "?n = 0 \<and> ?p = 0"
      then have "ids = []" "p = 0"
        using n by auto
      then show False
        using assms oid by (simp add: objid_exact_def)
    qed
    have "(if length oid > 5 then word_of_nat (length oid - 5) else 0) = ?n"
        "(if length oid > 4 then ucast (oid ! 4) else 0) = ?p"
      using oid by (simp_all add: nth_append)
    moreover have "rdn (pre @ objid_enc oid @ rest) (length pre + 4) (4 * length ids) = Some (oid_img ids)"
      using objid_enc_rd(3) [of pre oid rest] oid by simp
    moreover have "(ucast ?n + 5 :: u32) = word_of_nat (length oid)"
    proof -
      have "(ucast ?n :: u32) = word_of_nat (length ids)"
        using n oid(3) by (simp add: word_unat_eq_iff unat_word_of_nat)
      then show ?thesis
        using oid by simp
    qed
    ultimately show ?thesis
      unfolding dec using n nz unat_objid_size [of ?n] oid oid_img_append [of "[1, 3, 6, 1, p]" ids]
      by (simp add: length_objid_enc del: distrib_right_numeral)
  qed
  then show "\<exists>len. agentx_value_dec_try (pre @ objid_enc oid @ rest) (length pre) ASN1_TAG_OBJID = Some len \<and> unat len = 4 * length oid"
    "agentx_value_dec (pre @ objid_enc oid @ rest) (length pre) ASN1_TAG_OBJID =
      Some (word_of_nat (length oid), oid_img oid, length pre + length (objid_enc oid))"
    by simp_all
qed

section \<open>Variable bindings\<close>

text \<open>The values the encoder writes faithfully. The length of a value is in bytes here, and in elements after decoding.\<close>

definition x_val_ok :: "x_var_bind \<Rightarrow> bool" where
  "x_val_ok vb =
     (let t = xvb_type vb; n = length (xvb_value vb) in
      unat (xvb_len vb) = n \<and>
      (number_type t \<and> n = 4 \<or> t = ucast ASN1_TAG_CNT64 \<and> n = 8 \<or> string_type t \<and> n \<le> MIB_VALUE_MAX_LEN \<or>
       t = ucast ASN1_TAG_OBJID \<and> (\<exists>oid. xvb_value vb = oid_img oid \<and> objid_exact oid) \<or>
       t \<in> {ucast ASN1_TAG_NUL, ucast ASN1_TAG_NO_SUCH_OBJ, ucast ASN1_TAG_NO_SUCH_INST, ucast ASN1_TAG_END_OF_MIB_VIEW} \<and> n = 0))"

definition x_elems :: "x_var_bind \<Rightarrow> u32" where
  "x_elems vb =
     (let t = xvb_type vb in
      if number_type t \<or> t = ucast ASN1_TAG_CNT64 then 1
      else if string_type t then xvb_len vb
      else if t = ucast ASN1_TAG_OBJID then word_of_nat (unat (xvb_len vb) div 4)
      else 0)"

definition x_sendable :: "x_var_bind \<Rightarrow> bool" where
  "x_sendable vb \<longleftrightarrow> objid_exact (xvb_oid vb) \<and> x_val_ok vb"

lemma x_val_cases:
  assumes "x_val_ok vb"
  obtains (number) "number_type (xvb_type vb)" "length (xvb_value vb) = 4"
    | (cnt64) "xvb_type vb = ucast ASN1_TAG_CNT64" "length (xvb_value vb) = 8"
    | (str) "string_type (xvb_type vb)" "length (xvb_value vb) = unat (xvb_len vb)" "unat (xvb_len vb) \<le> MIB_VALUE_MAX_LEN"
    | (objid) oid where "xvb_type vb = ucast ASN1_TAG_OBJID" "xvb_value vb = oid_img oid" "objid_exact oid"
        "unat (xvb_len vb) = 4 * length oid"
    | (none) "xvb_type vb \<in> {ucast ASN1_TAG_NUL, ucast ASN1_TAG_NO_SUCH_OBJ, ucast ASN1_TAG_NO_SUCH_INST, ucast ASN1_TAG_END_OF_MIB_VIEW}"
        "xvb_value vb = []" "xvb_len vb = 0"
  using assms unfolding x_val_ok_def Let_def by (metis length_0_conv length_oid_img unat_eq_zero)

lemma drop_oid_img: "drop (4 * k) (oid_img oid) = oid_img (drop k oid)"
proof (induction oid arbitrary: k)
  case (Cons x oid)
  then show ?case
    by (cases k) (auto simp: oid_img_def)
qed (simp add: oid_img_def)

text \<open>The data of an object identifier is the encoding of that identifier.\<close>

lemma x_vb_data_objid:
  assumes "xvb_type vb = ucast ASN1_TAG_OBJID" "xvb_value vb = oid_img oid" "unat (xvb_len vb) = 4 * length oid"
  shows "x_vb_data vb = Some (objid_enc oid)"
proof -
  note d = drop_oid_img [of _ oid]
  have 1: "(if length oid > 4 then map_option (\<lambda>w. ucast (of_le32 w)) (rdn (oid_img oid) 16 4) else Some 0)
      = Some (if length oid > 4 then ucast (oid ! 4) else 0 :: u8)"
  proof (cases "length oid > 4")
    case True
    then have "drop 16 (oid_img oid) = le32 (oid ! 4) @ oid_img (drop 5 oid)"
      using d [of 4] Cons_nth_drop_Suc [of 4 oid, symmetric] by (simp add: oid_img_def)
    then show ?thesis
      using True by (simp add: rdn_def)
  qed simp
  have 2: "(if length oid > 5 then rdn (oid_img oid) 20 (4 * (length oid - 5)) else Some []) = Some (oid_img (drop 5 oid))"
    using d [of 5] by (auto simp: rdn_def oid_img_def [of "[]"])
  have t: "\<not> number_type (ucast ASN1_TAG_OBJID)" "\<not> string_type (ucast ASN1_TAG_OBJID)"
      "(ucast ASN1_TAG_OBJID :: u16) \<noteq> ucast ASN1_TAG_CNT64"
    by (simp_all add: number_type_def string_type_def)
  have "x_vb_data vb = do { p \<leftarrow> (if length oid > 4 then map_option (\<lambda>w. ucast (of_le32 w)) (rdn (oid_img oid) 16 4) else Some 0);
      ids \<leftarrow> (if length oid > 5 then rdn (oid_img oid) 20 (4 * (length oid - 5)) else Some []);
      Some ([if length oid > 5 then word_of_nat (length oid - 5) else 0, p, 0, 0] @ ids) }"
  proof -
    have "(16 < 4 * n) = (4 < n)" "(20 < 4 * n) = (5 < n)" "(4 * n - 20) div 4 = n - 5" for n :: nat
      by linarith+
    then show ?thesis
      unfolding x_vb_data_def Let_def assms using t by (simp cong: if_cong)
  qed
  then show ?thesis
    unfolding 1 2 by (simp add: objid_enc_def)
qed

lemma x_tag_of:
  "number_type t \<Longrightarrow> number_tag (ucast t)"
  "string_type t \<Longrightarrow> string_tag (ucast t) \<and> \<not> number_tag (ucast t) \<and> \<not> number_type t"
  by (auto simp: number_type_def number_tag_def string_type_def string_tag_def)

text \<open>What the decoder makes of the data of a variable binding, wherever it stands.\<close>

definition x_data_decodes :: "x_var_bind \<Rightarrow> bytes \<Rightarrow> bool" where
  "x_data_decodes vb d \<longleftrightarrow> (\<forall>pre rest. \<exists>len.
     agentx_value_dec_try (pre @ d @ rest) (length pre) (ucast (xvb_type vb)) = Some len \<and>
     length (xvb_value vb) \<le> unat len \<and> unat len \<le> MIB_VALUE_MAX_LEN \<and>
     agentx_value_dec (pre @ d @ rest) (length pre) (ucast (xvb_type vb)) =
       Some (x_elems vb, xvb_value vb, length pre + length d))"

lemma rdn_at: "rdn (pre @ xs @ rest) (length pre) (length xs) = Some xs"
  using rdn_append [of pre "xs @ rest" 0] by (simp add: rdn_0)

lemma rdn_at': "rdn (pre @ xs @ ys @ rest) (length pre + length xs) (length ys) = Some ys"
  using rdn_at [of "pre @ xs" ys rest] by simp

lemma x_data_number:
  assumes "number_type (xvb_type vb)" "length (xvb_value vb) = 4"
  shows "x_vb_data vb = Some (xvb_value vb)" "x_data_decodes vb (xvb_value vb)"
  using assms x_tag_of(1) [OF assms(1)] rdn_at [where xs = "xvb_value vb"]
  by (simp_all add: x_vb_data_def rdn_def x_data_decodes_def agentx_value_dec_try_def agentx_value_dec_def x_elems_def
      MIB_VALUE_MAX_LEN_def)

lemma x_data_cnt64:
  assumes "xvb_type vb = ucast ASN1_TAG_CNT64" "length (xvb_value vb) = 8"
  shows "x_vb_data vb = Some (xvb_value vb)" "x_data_decodes vb (xvb_value vb)"
  using assms rdn_at [where xs = "xvb_value vb"]
  by (simp_all add: x_vb_data_def rdn_def x_data_decodes_def agentx_value_dec_try_def agentx_value_dec_def x_elems_def
      MIB_VALUE_MAX_LEN_def number_type_def number_tag_def)

lemma x_data_string:
  assumes "string_type (xvb_type vb)" "length (xvb_value vb) = unat (xvb_len vb)" "unat (xvb_len vb) \<le> MIB_VALUE_MAX_LEN"
  defines "d \<equiv> le32 (xvb_len vb) @ xvb_value vb @ replicate (uint_sizeof (unat (xvb_len vb)) - unat (xvb_len vb)) 0"
  shows "x_vb_data vb = Some d" "x_data_decodes vb d"
proof -
  have t: "string_tag (ucast (xvb_type vb))" "\<not> number_tag (ucast (xvb_type vb))" "\<not> number_type (xvb_type vb)"
      "(ucast (xvb_type vb) :: u8) \<noteq> ASN1_TAG_CNT64" "xvb_type vb \<noteq> ucast ASN1_TAG_CNT64"
    using assms(1) x_tag_of(2) by (auto simp: string_type_def)
  show "x_vb_data vb = Some d"
    using assms(1,2) t by (simp add: x_vb_data_def Let_def rdn_def d_def)
  have r: "rdn (pre @ d @ rest) (length pre) 4 = Some (le32 (xvb_len vb))"
    "rdn (pre @ d @ rest) (length pre + 4) (unat (xvb_len vb)) = Some (xvb_value vb)" for pre rest
    using rdn_at [of pre "le32 (xvb_len vb)"] rdn_at' [of pre "le32 (xvb_len vb)" "xvb_value vb"] assms(2) by (simp_all add: d_def)
  have "length d = 4 + uint_sizeof (unat (xvb_len vb))"
    using assms(2) uint_sizeof_bounds(1) [of "unat (xvb_len vb)"] by (simp add: d_def)
  then show "x_data_decodes vb d"
    using assms(1-3) t r by (simp add: x_data_decodes_def agentx_value_dec_try_def agentx_value_dec_def x_elems_def Let_def)
qed

lemma x_data_objid:
  assumes "xvb_type vb = ucast ASN1_TAG_OBJID" "xvb_value vb = oid_img oid" "objid_exact oid" "unat (xvb_len vb) = 4 * length oid"
  shows "x_data_decodes vb (objid_enc oid)"
proof -
  have "4 * length oid \<le> MIB_VALUE_MAX_LEN"
    using assms(3) by (simp add: objid_exact_def x_oid_ok_def MIB_OID_MAX_LEN_def MIB_VALUE_MAX_LEN_def)
  moreover have "x_elems vb = word_of_nat (length oid)"
    using assms by (simp add: x_elems_def number_type_def string_type_def)
  ultimately show ?thesis
    unfolding x_data_decodes_def using assms(1,2) objid_roundtrip [OF assms(3)]
    by (simp add: length_objid_enc) (metis order_refl)
qed

lemma x_data_roundtrip:
  assumes "x_val_ok vb"
  shows "\<exists>d. x_vb_data vb = Some d \<and> x_data_decodes vb d"
  using assms
proof (cases rule: x_val_cases)
  case (objid oid)
  then show ?thesis
    using x_vb_data_objid x_data_objid by blast
next
  case none
  then show ?thesis
    by (auto simp: x_vb_data_def x_data_decodes_def agentx_value_dec_try_def agentx_value_dec_def x_elems_def
        number_type_def string_type_def number_tag_def string_tag_def MIB_VALUE_MAX_LEN_def)
qed (blast intro: x_data_number x_data_cnt64 x_data_string)+

text \<open>A variable binding is decoded to itself, with the number of elements for the number of bytes.\<close>

definition x_vb_dec :: "x_var_bind \<Rightarrow> x_var_bind" where
  "x_vb_dec vb = vb\<lparr>xvb_len := x_elems vb\<rparr>"

definition x_vb_bytes :: "x_var_bind \<Rightarrow> bytes" where
  "x_vb_bytes vb = (case x_vb_enc vb of Some b \<Rightarrow> b | None \<Rightarrow> [])"

lemma rd16_le16:
  "\<not> net_order flags \<Longrightarrow> rd16 flags (pre @ le16 t @ rest) (length pre) = Some t"
  using rdn_at [of pre "le16 t" rest] by (simp add: rd16_def)

lemma objid_dec_enc:
  assumes "objid_exact oid" "4 * length oid \<le> cap"
  shows "objid_dec (pre @ objid_enc oid @ rest) (length pre) cap = Some (oid, length pre + length (objid_enc oid))"
proof -
  have "length oid < 2 ^ 32"
    using assms(1) by (simp add: objid_exact_def x_oid_ok_def MIB_OID_MAX_LEN_def)
  then show ?thesis
    using assms(2) objid_roundtrip(2) [OF assms(1)] mem_oid_img [of oid "[]"]
    by (simp add: objid_dec_def unat_word_of_nat)
qed

lemma x_vb_roundtrip:
  assumes "x_sendable vb" "\<not> net_order flags"
  shows "x_var_bind_alloc (pre @ x_vb_bytes vb @ rest) (length pre) flags =
    Some (Inr (x_vb_dec vb, length pre + length (x_vb_bytes vb)))"
proof -
  let ?oid = "xvb_oid vb"
  obtain d where d: "x_vb_data vb = Some d" "x_data_decodes vb d"
    using x_data_roundtrip assms(1) unfolding x_sendable_def by blast
  define hd where "hd = pre @ le16 (xvb_type vb) @ [0, 0]"
  have b: "x_vb_bytes vb = le16 (xvb_type vb) @ [0, 0] @ objid_enc ?oid @ d"
    using d(1) by (simp add: x_vb_bytes_def x_vb_enc_def)
  have hd: "pre @ x_vb_bytes vb @ rest = hd @ objid_enc ?oid @ d @ rest" "length pre + 4 = length hd"
    by (simp_all add: b hd_def)
  have exact: "objid_exact ?oid"
    using assms(1) by (simp add: x_sendable_def)
  obtain len where len: "agentx_value_dec_try (hd @ objid_enc ?oid @ d @ rest) (length hd) ASN1_TAG_OBJID = Some len"
      "unat len = 4 * length ?oid"
    using objid_roundtrip(1) [OF exact] by blast
  have ok: "\<not> objid_too_long len"
    using exact len(2) by (simp add: objid_too_long_def objid_exact_def x_oid_ok_def)
  have o: "objid_dec (hd @ objid_enc ?oid @ d @ rest) (length hd) (unat len) = Some (?oid, length (hd @ objid_enc ?oid))"
    using objid_dec_enc [OF exact, of "unat len"] len(2) by simp
  have skip: "objid_skip (length hd) len = length (hd @ objid_enc ?oid)"
    using objid_dec_ok(1) [OF o len(1)] by simp
  obtain vl where v: "agentx_value_dec_try ((hd @ objid_enc ?oid) @ d @ rest) (length (hd @ objid_enc ?oid)) (ucast (xvb_type vb)) = Some vl"
      "length (xvb_value vb) \<le> unat vl" "unat vl \<le> MIB_VALUE_MAX_LEN"
      "agentx_value_dec ((hd @ objid_enc ?oid) @ d @ rest) (length (hd @ objid_enc ?oid)) (ucast (xvb_type vb)) =
        Some (x_elems vb, xvb_value vb, length (hd @ objid_enc ?oid) + length d)"
    using d(2) unfolding x_data_decodes_def by meson
  have "\<not> vl > word_of_nat MIB_VALUE_MAX_LEN"
    using v(3) by (simp add: word_less_nat_alt MIB_VALUE_MAX_LEN_def)
  moreover have "rd16 flags (hd @ objid_enc ?oid @ d @ rest) (length pre) = Some (xvb_type vb)"
    using rd16_le16 [OF assms(2), of pre "xvb_type vb" "[0, 0] @ objid_enc ?oid @ d @ rest"] by (simp add: hd_def)
  moreover have "length (hd @ objid_enc ?oid) + length d = length pre + length (x_vb_bytes vb)"
    by (simp add: hd_def b)
  ultimately show ?thesis
    using len(1) ok o skip v unfolding hd(1)
    by (simp add: x_var_bind_alloc_def Let_def hd(2) x_vb_dec_def)
qed

section \<open>Sizes\<close>

text \<open>The size computed for a variable binding is the number of bytes written for it.\<close>

lemma x_vb_size_ok:
  assumes "x_sendable vb"
  shows "x_vb_enc vb = Some (x_vb_bytes vb)" "x_vb_size vb = word_of_nat (length (x_vb_bytes vb))"
proof -
  let ?n = "length (xvb_oid vb)"
  obtain d where d: "x_vb_data vb = Some d"
    using x_data_roundtrip assms unfolding x_sendable_def by blast
  then show "x_vb_enc vb = Some (x_vb_bytes vb)"
    by (simp add: x_vb_bytes_def x_vb_enc_def)
  have l: "length (x_vb_bytes vb) = (if ?n > 5 then 4 + 4 + 4 * (?n - 5) else 4 + 4) + length d"
    using d by (simp add: x_vb_bytes_def x_vb_enc_def length_objid_enc)
  have "x_val_ok vb"
    using assms by (simp add: x_sendable_def)
  then have "x_vb_size vb = (if ?n > 5 then 4 + 4 + word_of_nat (4 * (?n - 5)) else 4 + 4) + word_of_nat (length d)"
  proof (cases rule: x_val_cases)
    case number
    then show ?thesis
      using d x_data_number(1) by (simp add: x_vb_size_def)
  next
    case cnt64
    then show ?thesis
      using d x_data_cnt64(1) by (simp add: x_vb_size_def number_type_def)
  next
    case str
    have "4 + x_round (xvb_len vb) = word_of_nat (length d)"
      using d x_data_string(1) [OF str] str(2) uint_sizeof_bounds(1) [of "unat (xvb_len vb)"] by (auto simp: x_round_def)
    moreover have "xvb_type vb \<noteq> ucast ASN1_TAG_CNT64"
      using str(1) by (auto simp: string_type_def)
    ultimately show ?thesis
      using str(1) x_tag_of(2) by (simp add: x_vb_size_def)
  next
    case (objid oid)
    have "length d = 4 + 4 * (length oid - 5)"
      using d x_vb_data_objid [OF objid(1,2,4)] length_objid_enc [of oid] by simp
    moreover have "xvb_len vb = word_of_nat (4 * length oid)"
      unfolding objid(4) [symmetric] by simp
    moreover have "(xvb_len vb > 20) = (length oid > 5)"
      using objid(4) by (simp add: word_less_nat_alt)
    ultimately show ?thesis
      using objid(1) by (auto simp: x_vb_size_def number_type_def string_type_def of_nat_diff)
  next
    case none
    then show ?thesis
      using d by (auto simp: x_vb_size_def x_vb_data_def number_type_def string_type_def)
  qed
  then show "x_vb_size vb = word_of_nat (length (x_vb_bytes vb))"
    unfolding l by simp
qed

section \<open>Responses\<close>

lemma x_vbs_enc_ok: "\<forall>vb \<in> set vbs. x_sendable vb \<Longrightarrow> x_vbs_enc vbs = Some (concat (map x_vb_bytes vbs))"
  by (induction vbs) (simp_all add: x_vb_size_ok(1))

lemma x_response_len_ok:
  assumes "\<forall>vb \<in> set (x_vb_out_list xdg). x_sendable vb"
  shows "x_response_len xdg = word_of_nat (28 + length (concat (map x_vb_bytes (x_vb_out_list xdg))))"
proof -
  have "foldl (\<lambda>len vb. len + x_vb_size vb) k vbs = k + word_of_nat (length (concat (map x_vb_bytes vbs)))"
    if "\<forall>vb \<in> set vbs. x_sendable vb" for k vbs
    using that by (induction vbs arbitrary: k) (simp_all add: x_vb_size_ok(2) add.assoc)
  then show ?thesis
    using assms by (simp add: x_response_len_def)
qed

lemma length_x_hdr_img [simp]: "length (x_hdr_img h) = 20"
  by (simp add: x_hdr_img_def)

lemma rd32_le32: "\<not> net_order f \<Longrightarrow> rd32 f (pre @ le32 w @ rest) (length pre) = Some w"
  using rdn_at [of pre "le32 w" rest] by (simp add: rd32_def)

lemma x_hdr_fields_img:
  assumes "\<not> net_order (xh_flags h)"
  shows "x_hdr_fields (x_hdr_img h @ rest) = Some h"
proof -
  let ?a = "[xh_version h, xh_type h, xh_flags h, xh_reserved h]" and ?s = "le32 (xh_session_id h)"
    and ?t = "le32 (xh_transaction_id h)" and ?p = "le32 (xh_packet_id h)" and ?l = "le32 (xh_payload_length h)"
  have "rd32 (xh_flags h) (x_hdr_img h @ rest) 4 = Some (xh_session_id h)"
    using rd32_le32 [OF assms, of ?a "xh_session_id h" "?t @ ?p @ ?l @ rest"] by (simp add: x_hdr_img_def eval_nat_numeral)
  moreover have "rd32 (xh_flags h) (x_hdr_img h @ rest) 8 = Some (xh_transaction_id h)"
    using rd32_le32 [OF assms, of "?a @ ?s" "xh_transaction_id h" "?p @ ?l @ rest"] by (simp add: x_hdr_img_def)
  moreover have "rd32 (xh_flags h) (x_hdr_img h @ rest) 12 = Some (xh_packet_id h)"
    using rd32_le32 [OF assms, of "?a @ ?s @ ?t" "xh_packet_id h" "?l @ rest"] by (simp add: x_hdr_img_def)
  moreover have "rd32 (xh_flags h) (x_hdr_img h @ rest) 16 = Some (xh_payload_length h)"
    using rd32_le32 [OF assms, of "?a @ ?s @ ?t @ ?p" "xh_payload_length h" rest] by (simp add: x_hdr_img_def)
  ultimately show ?thesis
    by (simp add: x_hdr_fields_def) (simp add: x_hdr_img_def rd_def)
qed

text \<open>The header of a response up to its variable bindings.\<close>

lemma x_response_hdr_parse:
  assumes "\<not> net_order (xh_flags h)" "xh_flags h AND NON_DEFAULT_CONTEXT = 0" "xh_type h = AGENTX_PDU_RESPONSE"
  shows "x_pdu_hdr_parse (x_hdr_img h @ replicate 4 0 @ le16 err @ le16 i @ rest) xdg =
    Some (None, x_consume 8 (x_set_response 0 err i (xdg\<lparr>x_hdr := h\<rparr>)), 28)"
proof -
  let ?buf = "x_hdr_img h @ replicate 4 0 @ le16 err @ le16 i @ rest"
  have z: "replicate 4 0 = le32 0"
    by (simp add: le32_def be32_def eval_nat_numeral)
  have "rd32 (xh_flags h) ?buf 20 = Some 0"
    using rd32_le32 [OF assms(1), of "x_hdr_img h" 0] by (simp add: z)
  moreover have "rd16 (xh_flags h) ?buf 24 = Some err"
    using rd16_le16 [OF assms(1), of "x_hdr_img h @ replicate 4 0" err] by simp
  moreover have "rd16 (xh_flags h) ?buf 26 = Some i"
    using rd16_le16 [OF assms(1), of "x_hdr_img h @ replicate 4 0 @ le16 err" i] by simp
  ultimately show ?thesis
    using x_hdr_fields_img [OF assms(1)] assms(2,3)
    by (simp add: x_pdu_hdr_parse_def x_context_parse_def x_additional_parse_def)
qed


definition x_dg_answer :: agentx_datagram where
  "x_dg_answer = x_dg_zero\<lparr>x_vb_out_list := [\<lparr>xvb_oid = [1, 3, 6, 1, 2, 1], xvb_type = 2, xvb_len = 4, xvb_value = [42, 0, 0, 0]\<rparr>],
     x_error := 5, x_index := 1\<rparr>"


end
