(* ===== verification/Agentx_Agent.thy ===== *)
theory Agentx_Agent
  imports Agentx_Msg_Proc Agentx_Roundtrip
begin

text \<open>
  What the AgentX sub-agent does with a request: the range of a GETNEXT, the error fields of an answer, and the messages that
  are not answered.
\<close>

section \<open>The range of a GETNEXT\<close>

lemma dummy_view_ok: "small_oid agentx_dummy_view" "length agentx_dummy_view \<le> 1024"
  by (simp_all add: agentx_dummy_view_def small_oid_def small_def)

lemma rdn_prefix: "prefix q buf \<Longrightarrow> rdn buf 0 (length q) = Some q"
  by (auto simp: rdn_def prefix_def)

text \<open>An identifier that does not exceed the range, in terms of the order of identifiers.\<close>

lemma x_exceeds_order:
  assumes "small_oid q" "small_oid (xsr_end sr)"
  shows "\<not> x_exceeds sr q \<longleftrightarrow> q < xsr_end sr \<or> xsr_end_include sr \<noteq> 0 \<and> q = xsr_end sr"
  using oid_cmp_less [OF assms] oid_cmp_zero [OF assms] oid_cmp_greater [OF assms] by (auto simp: x_exceeds_def)

text \<open>A search from a start that is not included is a search in the tree, cut off at the end of the range.\<close>

lemma x_mib_getnext_cases:
  assumes "mib_ok n (Some root)" "length (xsr_start sr) \<le> 1024" "xsr_start_include sr = 0"
    and "x_mib_getnext lua root sr r w = Some (r', w')"
  obtains (found) q where "mib_tree_search_next lua root agentx_dummy_view (xsr_start sr) r w = Some (r', w')" "x_valid r'"
      "prefix q (sr_oid r')" "length q = sr_id_len r'" "length q \<le> 64" "\<not> x_exceeds sr q"
    | (ended) "\<not> x_valid r'" "sr_err_stat r' = 0" "var_tag (sr_var r') = ASN1_TAG_END_OF_MIB_VIEW"
      "prefix (xsr_start sr) (sr_oid r')" "sr_id_len r' = length (xsr_start sr)"
    | (error) "sr_err_stat r' \<noteq> 0" "\<not> x_valid r'"
proof -
  obtain r2 w2 where s: "mib_tree_search_next lua root agentx_dummy_view (xsr_start sr) r w = Some (r2, w2)"
    and c: "(if \<not> x_valid r2 then Some (r2, w2)
       else do { oid \<leftarrow> rdn (sr_oid r2) 0 (sr_id_len r2);
                 if \<not> x_exceeds sr oid then Some (r2, w2)
                 else do { buf \<leftarrow> oid_cpy (sr_oid r2) (xsr_start sr);
                           Some (set_tag ASN1_TAG_END_OF_MIB_VIEW
                             (r2\<lparr>sr_oid := buf, sr_id_len := length (xsr_start sr), sr_inst_id := 0, sr_inst_id_len := 0\<rparr>), w2) } })
      = Some (r', w')"
    using assms(3,4) by (auto simp: x_mib_getnext_def Option.bind_eq_Some_conv)
  note ok = assms(1) dummy_view_ok(2) assms(2) s
  show thesis
  proof (cases "x_valid r2")
    case True
    then have "var_tag (sr_var r2) \<noteq> ASN1_TAG_END_OF_MIB_VIEW"
      by (auto simp: x_valid_def MIB_TAG_VALID_def)
    then obtain q where q: "prefix q (sr_oid r2)" "length q = sr_id_len r2" "length q \<le> 64"
      using search_next_found [OF ok] by blast
    have "rdn (sr_oid r2) 0 (sr_id_len r2) = Some q"
      using rdn_prefix [OF q(1)] q(2) by simp
    then show thesis
      using True c q s that(1,2)
      by (auto simp: oid_cpy_def set_tag_def x_valid_def MIB_TAG_VALID_def split: if_splits)
  next
    case False
    then have r: "r2 = r'" "w2 = w'" "\<not> x_valid r'"
      using c by simp_all
    show thesis
    proof (cases "var_tag (sr_var r') = ASN1_TAG_END_OF_MIB_VIEW")
      case True
      then show thesis
        using search_next_end [OF ok] that(2) r by simp
    next
      case False
      then show thesis
        using search_next_found [OF ok] that(3) r by (auto simp: x_valid_def)
    qed
  qed
qed

text \<open>C21: If every instance identifier that a handler returns for GETNEXT is greater than the one it was asked for, a GETNEXT from a start that is not
  included, on a range whose sub-identifiers are below \<open>2 ^ 31\<close>, finds a value only for an identifier that is greater than the start and lies below the
  sub-agent's view; if its sub-identifiers are below \<open>2 ^ 31\<close> as well, it is less than the end of the range, or equal to it if
  that is included. If it finds nothing and meets no error, the answer is \<open>endOfMibView\<close> with the start as its identifier.\<close>

theorem agentx_getnext_in_range:
  assumes "mib_ok n (Some root)" "handler_advances lua"
    and "small_oid (xsr_start sr)" "small_oid (xsr_end sr)" "length (xsr_start sr) \<le> 1024"
    and "xsr_start_include sr = 0" "x_mib_getnext lua root sr r w = Some (r', w')"
  shows "\<exists>q. (sr_err_stat r' = 0 \<longrightarrow> prefix q (sr_oid r') \<and> length q = sr_id_len r') \<and>
    (x_valid r' \<longrightarrow> xsr_start sr < q \<and> prefix agentx_dummy_view q \<and>
       (small_oid q \<longrightarrow> q < xsr_end sr \<or> xsr_end_include sr \<noteq> 0 \<and> q = xsr_end sr)) \<and>
    (\<not> x_valid r' \<and> sr_err_stat r' = 0 \<longrightarrow> var_tag (sr_var r') = ASN1_TAG_END_OF_MIB_VIEW \<and> q = xsr_start sr)"
  using assms(1,5,6,7)
proof (cases rule: x_mib_getnext_cases)
  case (found q)
  then have "var_tag (sr_var r') \<noteq> ASN1_TAG_END_OF_MIB_VIEW" "sr_err_stat r' = 0"
    by (auto simp: x_valid_def MIB_TAG_VALID_def)
  then obtain q' where q': "prefix q' (sr_oid r')" "length q' = sr_id_len r'"
      "xsr_start sr < q'" "prefix agentx_dummy_view q'"
    using search_next_greater [OF assms(1) dummy_view_ok(1) assms(3) dummy_view_ok(2) assms(5,2) found(1)] by blast
  then have "q' = q"
    using found(3,4) rdn_prefix by (metis option.inject)
  then show ?thesis
    using found q' x_exceeds_order [OF _ assms(4), of q] by blast
qed (auto simp: x_valid_def)

text \<open>A null end cuts everything off: the code compares with it like with any other end, so that no identifier is below it.\<close>

lemma agentx_getnext_null_end:
  assumes "mib_ok n (Some root)" "length (xsr_start sr) \<le> 1024" "xsr_start_include sr = 0"
    and "xsr_end sr = []" "xsr_end_include sr = 0" "x_mib_getnext lua root sr r w = Some (r', w')"
  shows "\<not> x_valid r'"
  using assms(1-3,6)
proof (cases rule: x_mib_getnext_cases)
  case (found q)
  have "oid_cmp q [] = sint (word_of_nat (length q) :: u32)"
    by (cases q) simp_all
  also have "\<dots> \<ge> 0"
    using found(5) sint_word_of_int_small [of "int (length q)"] by simp
  finally show ?thesis
    using found(6) assms(4,5) by (simp add: x_exceeds_def)
qed simp_all

section \<open>Examples\<close>

text \<open>A tree with one instance, 1.3.6.1.2.1, and a handler with three rows whose values are their numbers, which fails for
  rows above 100.\<close>

definition x_tree :: mib_node where
  "x_tree = Group 1 1 [1] [Some (Group 1 1 [3] [Some (Group 1 1 [6] [Some (Group 1 1 [1] [Some (Group 1 1 [2]
     [Some (Group 1 1 [1] [Some (Instance 7)])])])])])]"

definition row_handler :: "unit lua" where
  "row_handler cb args w =
     (let k = (case args ! 1 of LTable (i # ids) \<Rightarrow> uint i | _ \<Rightarrow> 0);
          row = (if args ! 0 = LInteger (uint MIB_REQ_GETNEXT) then k + 1 else k);
          tag = (if 1 \<le> row \<and> row \<le> 3 then 2 else 0x81)
      in (Some \<lparr>lr_err = echo_value (if row > 100 then 5 else 0), lr_oid = echo_value row, lr_val = echo_value row, lr_tag = echo_value tag\<rparr>, w))"

definition sr_rows :: "u8 \<Rightarrow> oid_t \<Rightarrow> x_search_range" where
  "sr_rows incl e = \<lparr>xsr_start = [1, 3, 6, 1, 2, 1, 1], xsr_end = [1, 3, 6, 1, 2, 1, e], xsr_start_include = incl, xsr_end_include = 0\<rparr>"

definition x_answer :: "(oid_search_res \<times> 'w) option \<Rightarrow> (oid \<times> u8 \<times> bytes) option" where
  "x_answer res = map_option (\<lambda>(r, w). (take (sr_id_len r) (sr_oid r), var_tag (sr_var r), take 4 (var_mem (sr_var r)))) res"

declare search_next_loop.simps [code]

lemma x_tree_reg: "mib_node_reg mib_init [1, 3, 6, 1, 2, 1] 7 = Some (Some x_tree, 0)"
  by (simp add: x_tree_def mib_node_reg_def mib_init_def mib_dummy_node_init_def MIB_OID_MAX_LEN_def is_raw_group_def
      rd_def upd_def uint16_def mib_group_node_new_def mib_instance_node_new_def)

lemma x_tree_ok: "mib_ok (Suc 0) (Some x_tree)"
  using mib_node_reg_ok [OF mib_init_ok, of "[1, 3, 6, 1, 2, 1]" 7] x_tree_reg by simp

lemma row_next:
  "x_answer (x_mib_getnext row_handler x_tree (sr_rows 0 3) (res_zero MIB_REQ_GETNEXT) ()) =
     Some ([1, 3, 6, 1, 2, 1, 2], ASN1_TAG_INT, [2, 0, 0, 0])"
  by code_simp

text \<open>A start that is included is skipped. The first search of \<open>mib_getnext\<close> keeps the request GETNEXT, so that the handler
  returns the row after the start, and the result is not compared with the end: with the range from row 1, included, to row 2,
  excluded, the answer is row 2, although row 1 exists; without the inclusion nothing is found.\<close>

theorem agentx_getnext_include_skips:
  "x_answer (x_mib_get row_handler x_tree (sr_rows 1 2) (res_zero MIB_REQ_GET) ()) =
     Some ([1, 3, 6, 1, 2, 1, 1], ASN1_TAG_INT, [1, 0, 0, 0]) \<and>
   x_answer (x_mib_getnext row_handler x_tree (sr_rows 1 2) (res_zero MIB_REQ_GETNEXT) ()) =
     Some ([1, 3, 6, 1, 2, 1, 2], ASN1_TAG_INT, [2, 0, 0, 0]) \<and>
   x_answer (x_mib_getnext row_handler x_tree (sr_rows 0 2) (res_zero MIB_REQ_GETNEXT) ()) =
     Some ([1, 3, 6, 1, 2, 1, 1], ASN1_TAG_END_OF_MIB_VIEW, [2, 0, 0, 0])"
  by (intro conjI; code_simp)

lemma row_handler_advances: "handler_advances row_handler"
  unfolding handler_advances_def
proof (intro allI impI)
  fix c rest v w e v' ids w'
  assume call: "inst_call row_handler c MIB_REQ_GETNEXT rest v w = Some (e, v', Some ids, w')"
  define k where "k = (case rest of i # _ \<Rightarrow> uint i | [] \<Rightarrow> 0)"
  have "(case LTable rest of LTable (i # is) \<Rightarrow> uint i | _ \<Rightarrow> 0) = k"
    by (simp add: k_def split: list.splits)
  then have "k \<le> 2" "ids = [word_of_int (k + 1)]"
    using call by (auto simp: inst_call_def row_handler_def echo_value_def ret_oid_ids_def to_int_def MIB_TAG_VALID_def Let_def
        Option.bind_eq_Some_conv split: if_splits)
  moreover have "i < word_of_int (uint i + 1)" if "uint i \<le> 2" for i :: u32
    using that by (simp add: word_less_def uint_word_ariths)
  ultimately show "rest < ids"
    by (auto simp: k_def split: list.splits)
qed

theorem agentx_getnext_in_range_witness:
  "\<exists>r' q. x_mib_getnext row_handler x_tree (sr_rows 0 3) (res_zero MIB_REQ_GETNEXT) () = Some (r', ()) \<and> x_valid r' \<and>
     prefix q (sr_oid r') \<and> [1, 3, 6, 1, 2, 1, 1] < q \<and> prefix agentx_dummy_view q"
proof -
  have v: "map_option (\<lambda>(r, w). x_valid r) (x_mib_getnext row_handler x_tree (sr_rows 0 3) (res_zero MIB_REQ_GETNEXT) ()) = Some True"
    by code_simp
  then obtain r' where r': "x_mib_getnext row_handler x_tree (sr_rows 0 3) (res_zero MIB_REQ_GETNEXT) () = Some (r', ())" "x_valid r'"
    by auto
  have sr: "small_oid (xsr_start (sr_rows 0 3))" "small_oid (xsr_end (sr_rows 0 3))" "length (xsr_start (sr_rows 0 3)) \<le> 1024"
      "xsr_start_include (sr_rows 0 3) = 0" "xsr_start (sr_rows 0 3) = [1, 3, 6, 1, 2, 1, 1]"
    by (simp_all add: sr_rows_def small_oid_def small_def)
  show ?thesis
    using agentx_getnext_in_range [OF x_tree_ok row_handler_advances sr(1-4) r'(1)] r' sr(5) by (auto simp: x_valid_def)
qed

section \<open>The error fields of an answer\<close>

abbreviation x_failed :: "oid_search_res \<times> 'w \<Rightarrow> bool" where
  "x_failed s \<equiv> (word_of_int (sr_err_stat (fst s)) :: u32) \<noteq> 0"

abbreviation x_code :: "oid_search_res \<times> 'w \<Rightarrow> u16" where
  "x_code s \<equiv> word_of_int (sr_err_stat (fst s))"

text \<open>The search of an iteration, and the variable binding that is made from its result.\<close>

definition x_read_ask :: "(x_search_range \<Rightarrow> 'w x_search) \<Rightarrow> agentx_datagram \<Rightarrow> x_search_range \<Rightarrow> oid_search_res \<times> 'w \<Rightarrow> (oid_search_res \<times> 'w) option" where
  "x_read_ask search xdg sr s = search sr (fst s) (snd s)"

definition x_set_ask :: "(x_var_bind \<Rightarrow> 'w x_search) \<Rightarrow> agentx_datagram \<Rightarrow> x_var_bind \<Rightarrow> oid_search_res \<times> 'w \<Rightarrow> (oid_search_res \<times> 'w) option" where
  "x_set_ask search xdg vb s = do { r0 \<leftarrow> x_set_value vb (fst s); (r, w) \<leftarrow> search vb r0 (snd s);
     Some (if sr_err_stat r = 0 \<and> \<not> MIB_TAG_VALID (var_tag (sr_var r)) then r\<lparr>sr_err_stat := AGENTX_ERR_STAT_NOT_WRITABLE\<rparr> else r, w) }"

definition x_read_answer :: "x_search_range \<Rightarrow> oid_search_res \<times> 'w \<Rightarrow> x_var_bind option" where
  "x_read_answer sr s = x_vb_out (fst s) (ucast (var_tag (sr_var (fst s)))) (\<lambda>_. ucast (var_len (sr_var (fst s))))"

definition x_set_answer :: "x_var_bind \<Rightarrow> oid_search_res \<times> 'w \<Rightarrow> x_var_bind option" where
  "x_set_answer vb s = x_vb_out (fst s) (xvb_type vb) (\<lambda>val_len. val_len)"

lemma x_read_step_eq:
  "x_read_step search cnt sr (xdg, s) = do { s1 \<leftarrow> x_read_ask search xdg sr s; out \<leftarrow> x_read_answer sr s1;
     Some (x_vb_add out (x_mark_error (sr_err_stat (fst s1)) cnt xdg), s1) }"
  by (cases s) (simp add: x_read_step_def x_read_ask_def x_read_answer_def split_def)

lemma x_set_step_eq:
  "x_set_step search cnt vb (xdg, s) = do { s1 \<leftarrow> x_set_ask search xdg vb s; out \<leftarrow> x_set_answer vb s1;
     Some (x_vb_add out (x_mark_error (sr_err_stat (fst s1)) cnt xdg), s1) }"
proof -
  have "x_vb_out (r\<lparr>sr_err_stat := e\<rparr>) t n = x_vb_out r t n" for r e t n
    by (simp add: x_vb_out_def)
  then show ?thesis
    by (cases s) (auto simp: x_set_step_def x_set_ask_def x_set_answer_def Option.bind_assoc split_def Let_def intro!: Option.bind_cong)
qed

lemma x_step_loop:
  assumes "\<And>cnt x xdg s. step cnt x (xdg, s) = do { s1 \<leftarrow> ask xdg x s; out \<leftarrow> answer x s1;
      Some (x_vb_add out (x_mark_error (sr_err_stat (fst s1)) cnt xdg), s1) }"
    and "\<And>xdg xdg'. ask xdg' = ask xdg"
  shows "answer_loop step ask answer x_vb_out_list x_error x_index word_of_nat x_failed x_code"
proof
  fix cnt x xdg s xdg' s'
  assume "step cnt x (xdg, s) = Some (xdg', s')"
  then obtain out where s: "ask xdg x s = Some s'" "answer x s' = Some out" "xdg' = x_vb_add out (x_mark_error (sr_err_stat (fst s')) cnt xdg)"
    by (auto simp: assms(1) Option.bind_eq_Some_conv)
  then show "ask xdg x s = Some s' \<and> ask xdg' = ask xdg"
    using assms(2) by blast
  show "\<exists>out. answer x s' = Some out \<and> x_vb_out_list xdg' = x_vb_out_list xdg @ [out]"
    using s(2,3) by (simp add: x_vb_add_def x_mark_error_def)
  show "x_error xdg \<noteq> 0 \<or> \<not> x_failed s' \<Longrightarrow> x_error xdg' = x_error xdg \<and> x_index xdg' = x_index xdg"
    "x_error xdg = 0 \<Longrightarrow> x_failed s' \<Longrightarrow> x_error xdg' = x_code s' \<and> x_index xdg' = word_of_nat cnt"
    using s(3) by (auto simp: x_vb_add_def x_mark_error_def)
next
  fix s :: "oid_search_res \<times> 'w"
  assume "\<not> x_failed s"
  then have "(2 :: int) ^ 32 dvd sr_err_stat (fst s)"
    by (simp add: word_of_int_eq_0_iff)
  then show "x_code s = 0"
    using power_le_dvd [of "2 :: int" 32 "sr_err_stat (fst s)" 16] by (simp add: word_of_int_eq_0_iff)
qed

interpretation x_read: answer_loop "x_read_step search" "x_read_ask search" x_read_answer x_vb_out_list x_error x_index word_of_nat x_failed x_code
  for search
  by (rule x_step_loop [OF x_read_step_eq]) (simp add: x_read_ask_def fun_eq_iff)

interpretation x_write: answer_loop "x_set_step search" "x_set_ask search" x_set_answer x_vb_out_list x_error x_index word_of_nat x_failed x_code
  for search
  by (rule x_step_loop [OF x_set_step_eq]) (simp add: x_set_ask_def fun_eq_iff)

text \<open>The answer \<open>xdg'\<close> to the elements \<open>xs\<close> of the request \<open>xdg\<close>, made by searches that start from \<open>s\<close>: they are made one after the other, and
  their results give the variable bindings of the answer, in order. Unless an error is a non-zero multiple of \<open>2 ^ 16\<close>, which the status field
  cannot hold, the error fields are those of the first search that failed.\<close>

definition x_answered_by :: "(agentx_datagram \<Rightarrow> 'x \<Rightarrow> oid_search_res \<times> 'w \<Rightarrow> (oid_search_res \<times> 'w) option) \<Rightarrow>
    ('x \<Rightarrow> oid_search_res \<times> 'w \<Rightarrow> x_var_bind option) \<Rightarrow> agentx_datagram \<Rightarrow> 'x list \<Rightarrow> oid_search_res \<times> 'w \<Rightarrow> agentx_datagram \<Rightarrow> 'w \<Rightarrow> bool" where
  "x_answered_by ask answer xdg xs s xdg' w' \<longleftrightarrow> (\<exists>ss. asks (ask xdg) xs s = Some ss \<and> w' = snd (last (s # ss)) \<and>
     map2 answer xs ss = map Some (x_vb_out_list xdg') \<and>
     ((\<forall>s \<in> set ss. x_failed s \<longrightarrow> x_code s \<noteq> 0) \<longrightarrow> (x_error xdg', x_index xdg') = first_error x_code word_of_nat ss (x_index xdg)))"

lemma x_loop_answered:
  assumes "answer_loop step ask answer x_vb_out_list x_error x_index word_of_nat x_failed x_code"
    and "x_error xdg = 0" "x_vb_out_list xdg = []"
    and "do { st \<leftarrow> each_vb step 0 xs (xdg, r, w); x_respond st } = Some (xdg', w', reply)"
  shows "x_answered_by ask answer xdg xs (r, w) xdg' w'"
proof -
  obtain r1 where s: "each_vb step 0 xs (xdg, r, w) = Some (xdg', r1, w')"
    using assms(4) by (auto simp: x_respond_def Option.bind_eq_Some_conv)
  obtain ss os where ss: "asks (ask xdg) xs (r, w) = Some ss" "last ((r, w) # ss) = (r1, w')"
      "map2 answer xs ss = map Some os" "x_vb_out_list xdg' = x_vb_out_list xdg @ os"
    using answer_loop.loop_answers [OF assms(1) s(1)] by blast
  show ?thesis
    unfolding x_answered_by_def using ss assms(3) answer_loop.loop_errors [OF assms(1) s(1) assms(2) ss(1)] by (intro exI [of _ ss]) simp
qed

text \<open>C24: GET, GETNEXT and TESTSET, for a request whose error field is 0, search for their elements one after the other; the answer has one
  variable binding for each, in the order of the request, made from the result of its search. If no search reports an error, the answer has
  status 0 and the index of the request; otherwise, if no reported error is a multiple of \<open>2 ^ 16\<close>, which the 16-bit status cannot hold, its status is the error
  of the first search that reported one, and its index the position of that element, counted from 1.\<close>

theorem agentx_errors:
  assumes "x_error xdg = 0" "x_vb_out_list xdg = []"
  shows "(agentx_get lua root xdg w = Some (xdg', w', reply) \<longrightarrow>
      x_answered_by (x_read_ask (x_mib_get lua root)) x_read_answer xdg (x_sr_in_list xdg) (res_zero MIB_REQ_GET, w) xdg' w') \<and>
    (agentx_getnext lua root xdg w = Some (xdg', w', reply) \<longrightarrow>
      x_answered_by (x_read_ask (x_mib_getnext lua root)) x_read_answer xdg (x_sr_in_list xdg) (res_zero MIB_REQ_GETNEXT, w) xdg' w') \<and>
    (agentx_set lua root xdg w = Some (xdg', w', reply) \<longrightarrow>
      x_answered_by (x_set_ask (x_mib_set lua root)) x_set_answer xdg (x_vb_in_list xdg) (res_zero MIB_REQ_SET, w) xdg' w')"
  unfolding agentx_get_def agentx_getnext_def agentx_set_def
  using x_loop_answered [OF x_read.answer_loop_axioms assms] x_loop_answered [OF x_write.answer_loop_axioms assms] by auto

section \<open>Messages without an answer\<close>

definition x_answered :: "u8 \<Rightarrow> bool" where
  "x_answered t \<longleftrightarrow> t \<in> {AGENTX_PDU_GET, AGENTX_PDU_GETNEXT, AGENTX_PDU_GETBULK, AGENTX_PDU_TESTSET,
     AGENTX_PDU_COMMITSET, AGENTX_PDU_UNDOSET, AGENTX_PDU_CLEANUPSET}"

text \<open>A message that is malformed, or whose type is not one of the requests of a master, is dropped: nothing is sent, no
  handler is asked, and the return value is the error of the decoder. The phases of a SET after the test are answered at once,
  without asking a handler: the values are set by TESTSET already.\<close>

theorem agentx_recv_silent:
  assumes "buffer \<noteq> []" "agentx_decode buffer (agentx_datagram_clear xdg) = Some (err, xdg')"
  shows "(err \<noteq> None \<or> \<not> x_answered (xh_type (x_hdr xdg')) \<longrightarrow> agentx_recv lua root xdg buffer w = Some (err, xdg', w, None)) \<and>
    (err = None \<and> xh_type (x_hdr xdg') \<in> {AGENTX_PDU_COMMITSET, AGENTX_PDU_UNDOSET, AGENTX_PDU_CLEANUPSET} \<longrightarrow>
      agentx_recv lua root xdg buffer w = map_option (\<lambda>bs. (None, xdg', w, Some bs)) (agentx_response_pdu xdg'))"
  using assms
  by (cases "agentx_response_pdu xdg'")
    (auto simp: agentx_recv_def agentx_request_dispatch_def agentx_response_def x_answered_def Let_def)

text \<open>A commit message and a message with a context that is too long.\<close>

definition x_commit_buf :: bytes where
  "x_commit_buf = [1, 9, 0, 0, 7, 0, 0, 0, 0, 0, 0, 0, 1, 0, 0, 0, 0, 0, 0, 0]"

definition x_ctx_buf :: bytes where
  "x_ctx_buf = [1, 5, 8, 0, 7, 0, 0, 0, 0, 0, 0, 0, 1, 0, 0, 0, 48, 0, 0, 0, 44, 0, 0, 0]"

theorem agentx_recv_silent_witness:
  "(\<exists>xdg'. agentx_recv row_handler x_tree x_dg_zero x_ctx_buf () = Some (Some AGENTX_ERR_PDU_CTX_LEN, xdg', (), None)) \<and>
   (\<exists>xdg' bs. agentx_recv row_handler x_tree x_dg_zero x_commit_buf () = Some (None, xdg', (), Some bs) \<and> length bs = 28)"
proof -
  have "map_option fst (agentx_decode x_ctx_buf (agentx_datagram_clear x_dg_zero)) = Some (Some AGENTX_ERR_PDU_CTX_LEN)"
    by code_simp
  then obtain xdg1 where 1: "agentx_decode x_ctx_buf (agentx_datagram_clear x_dg_zero) = Some (Some AGENTX_ERR_PDU_CTX_LEN, xdg1)"
    by auto
  have "map_option (\<lambda>(e, xdg). (e, xh_type (x_hdr xdg), map_option length (agentx_response_pdu xdg)))
      (agentx_decode x_commit_buf (agentx_datagram_clear x_dg_zero)) = Some (None, AGENTX_PDU_COMMITSET, Some 28)"
    by code_simp
  then obtain xdg2 where 2: "agentx_decode x_commit_buf (agentx_datagram_clear x_dg_zero) = Some (None, xdg2)"
      "xh_type (x_hdr xdg2) = AGENTX_PDU_COMMITSET" "map_option length (agentx_response_pdu xdg2) = Some 28"
    by auto
  have "x_ctx_buf \<noteq> []" "x_commit_buf \<noteq> []"
    by (simp_all add: x_ctx_buf_def x_commit_buf_def)
  then show ?thesis
    using agentx_recv_silent [OF _ 1, of row_handler x_tree "()"] agentx_recv_silent [OF _ 2(1), of row_handler x_tree "()"] 2(2,3)
    by auto
qed

text \<open>A GET of a row that exists and one of a row for which the handler fails.\<close>

definition x_dg_rows :: agentx_datagram where
  "x_dg_rows = x_dg_zero\<lparr>x_sr_in_list := [sr_rows 0 2, (sr_rows 0 2)\<lparr>xsr_start := [1, 3, 6, 1, 2, 1, 101]\<rparr>]\<rparr>"

theorem agentx_errors_witness:
  "\<exists>xdg' bs. agentx_get row_handler x_tree x_dg_rows () = Some (xdg', (), Some bs) \<and> x_error xdg' = 5 \<and> x_index xdg' = 2 \<and>
     x_answered_by (x_read_ask (x_mib_get row_handler x_tree)) x_read_answer x_dg_rows (x_sr_in_list x_dg_rows) (res_zero MIB_REQ_GET, ()) xdg' ()"
proof -
  have "map_option (\<lambda>(xdg, w, bs). (x_error xdg, x_index xdg, map_option length bs)) (agentx_get row_handler x_tree x_dg_rows ())
      = Some (5, 2, Some 64)"
    by code_simp
  then obtain xdg' bs where g: "agentx_get row_handler x_tree x_dg_rows () = Some (xdg', (), Some bs)" "x_error xdg' = 5" "x_index xdg' = 2"
    by auto
  have "x_error x_dg_rows = 0" "x_vb_out_list x_dg_rows = []"
    by (simp_all add: x_dg_rows_def x_dg_zero_def)
  then show ?thesis
    using agentx_errors [of x_dg_rows row_handler x_tree "()" xdg' "()" "Some bs"] g by simp
qed

section \<open>The answer to a SET\<close>

text \<open>A TESTSET of an integer where no instance is: the answer has the type of the request but no value, and writing it
  reads a value that was never stored.\<close>

lemma agentx_set_no_value:
  "agentx_set row_handler x_tree (x_dg_zero\<lparr>x_vb_in_list :=
     [\<lparr>xvb_oid = [1, 3, 6, 1, 2, 9], xvb_type = 2, xvb_len = 1, xvb_value = [5, 0, 0, 0]\<rparr>]\<rparr>) () = None"
  by code_simp

text \<open>A TESTSET of an object identifier that its handler accepts: the value is encoded with its size in bytes as the number of elements, so that
  it overruns the variable binding allocated for it.\<close>

lemma agentx_set_objid_overruns:
  "x_vb_out (r\<lparr>sr_oid := [], sr_id_len := 0, sr_var := \<lparr>var_tag = ASN1_TAG_OBJID, var_len = 5, var_mem = replicate 1024 0\<rparr>\<rparr>)
     (ucast ASN1_TAG_OBJID) (\<lambda>val_len. val_len) = None"
  by (simp add: x_vb_out_def agentx_value_enc_try_def agentx_value_enc_def rdn_def)

end
