(* ===== verification/Agentx_Session.thy ===== *)
theory Agentx_Session
  imports Agentx_Agent
begin

text \<open>
  The session of the sub-agent with its master (\<open>core/agentx.c\<close>): opening, closing, registration and
  deregistration. The socket is the parameter \<open>net\<close>: \<open>net_send\<close> tells if \<open>send\<close> succeeded, \<open>net_recv\<close> gives the bytes
  \<open>recv\<close> stored or \<open>None\<close> if it failed; both change the state of the connection. Each operation sends its
  PDU, waits for one message, and hands it to \<open>agentx_recv\<close>, which may send an answer of its own if the message is a
  request.
\<close>

section \<open>Definitions\<close>

record 'n net =
  net_send :: "bytes \<Rightarrow> 'n \<Rightarrow> bool \<times> 'n"
  net_recv :: "'n \<Rightarrow> bytes option \<times> 'n"

record ('w, 'n) session =
  xs_dg :: agentx_datagram
  xs_mib :: mib
  xs_lua :: 'w
  xs_net :: 'n

text \<open>A received message is handled by \<open>agentx_recv\<close>; an answer is sent at once (\<open>agentx_response\<close>), and a failure to send it is only
  logged. True if the message is well formed.\<close>

definition x_handle :: "'w lua \<Rightarrow> 'n net \<Rightarrow> bytes \<Rightarrow> ('w, 'n) session \<Rightarrow> (bool \<times> ('w, 'n) session) option" where
  "x_handle lua net buf st =
     do { root \<leftarrow> xs_mib st;
          (err, xdg, w, sent) \<leftarrow> agentx_recv lua root (xs_dg st) buf (xs_lua st);
          let n = (case sent of None \<Rightarrow> xs_net st | Some bs \<Rightarrow> snd (net_send net bs (xs_net st)));
          Some (err = None, st\<lparr>xs_dg := xdg, xs_lua := w, xs_net := n\<rparr>) }"

text \<open>The common part of the four operations: true if the exchange succeeded.\<close>

definition x_exchange :: "'w lua \<Rightarrow> 'n net \<Rightarrow> bytes \<Rightarrow> ('w, 'n) session \<Rightarrow> (bool \<times> ('w, 'n) session) option" where
  "x_exchange lua net pdu st =
     (case net_send net pdu (xs_net st) of
        (False, n1) \<Rightarrow> Some (False, st\<lparr>xs_net := n1\<rparr>)
      | (True, n1) \<Rightarrow>
          (case net_recv net n1 of
             (None, n2) \<Rightarrow> Some (False, st\<lparr>xs_net := n2\<rparr>)
           | (Some buf, n2) \<Rightarrow> x_handle lua net buf (st\<lparr>xs_net := n2\<rparr>)))"

definition x_prefix_ok :: "oid \<Rightarrow> bool" where
  "x_prefix_ok oid \<longleftrightarrow> length oid \<ge> 4 \<and> oid ! 0 = 1 \<and> oid ! 1 = 3 \<and> oid ! 2 = 6 \<and> oid ! 3 = 1"

definition agentx_mib_node_reg ::
  "'w lua \<Rightarrow> 'n net \<Rightarrow> oid \<Rightarrow> int \<Rightarrow> ('w, 'n) session \<Rightarrow> (int \<times> ('w, 'n) session) option" where
  "agentx_mib_node_reg lua net grp_id grp_cb st =
     (if \<not> x_prefix_ok grp_id then Some (- 1, st)
      else
        do { (pdu, xdg) \<leftarrow> agentx_register_pdu (xs_dg st) grp_id [] 0 0 127 0 0;
             (ok, st1) \<leftarrow> x_exchange lua net pdu (st\<lparr>xs_dg := xdg\<rparr>);
             if \<not> ok then Some (- 1, st1)
             else do { (m, ret) \<leftarrow> mib_node_reg (xs_mib st1) grp_id grp_cb; Some (ret, st1\<lparr>xs_mib := m\<rparr>) } })"

text \<open>Deregistration also returns the handlers that \<open>mib_node_unreg\<close> releases.\<close>

definition agentx_mib_node_unreg ::
  "'w lua \<Rightarrow> 'n net \<Rightarrow> oid \<Rightarrow> ('w, 'n) session \<Rightarrow> (int \<times> int list \<times> ('w, 'n) session) option" where
  "agentx_mib_node_unreg lua net grp_id st =
     (if \<not> x_prefix_ok grp_id then Some (- 1, [], st)
      else
        do { (pdu, xdg) \<leftarrow> agentx_unregister_pdu (xs_dg st) grp_id [] 0 0 127 0 0;
             (ok, st1) \<leftarrow> x_exchange lua net pdu (st\<lparr>xs_dg := xdg\<rparr>);
             if \<not> ok then Some (- 1, [], st1)
             else do { (m, freed) \<leftarrow> mib_node_unreg (xs_mib st1) grp_id; Some (0, freed, st1\<lparr>xs_mib := m\<rparr>) } })"

text \<open>\<open>"SmartSNMP AgentX sub-agent"\<close>.\<close>

definition x_descr :: bytes where
  "x_descr = map (\<lambda>c. of_char c) ''SmartSNMP AgentX sub-agent''"

definition agentx_open :: "'w lua \<Rightarrow> 'n net \<Rightarrow> ('w, 'n) session \<Rightarrow> (int \<times> ('w, 'n) session) option" where
  "agentx_open lua net st =
     do { pdu \<leftarrow> agentx_open_pdu (xs_dg st) [] x_descr (word_of_nat (length x_descr));
          (ok, st1) \<leftarrow> x_exchange lua net pdu st;
          Some (if ok then 0 else - 1, st1) }"

abbreviation R_SHUTDOWN :: u32 where
  "R_SHUTDOWN \<equiv> 5"

text \<open>\<open>agentx_close\<close>: the last component tells if the transport is stopped.\<close>

definition agentx_close :: "'w lua \<Rightarrow> 'n net \<Rightarrow> ('w, 'n) session \<Rightarrow> (int \<times> ('w, 'n) session \<times> bool) option" where
  "agentx_close lua net st =
     do { (pdu, xdg) \<leftarrow> agentx_close_pdu (xs_dg st) R_SHUTDOWN;
          (ok, st1) \<leftarrow> x_exchange lua net pdu (st\<lparr>xs_dg := xdg\<rparr>);
          Some (if ok then (0, st1, True) else (- 1, st1, False)) }"

section \<open>Registration\<close>

lemma length_x_pdu_buf: "x_pdu_buf len bs = Some b \<Longrightarrow> length b = unat len"
  by (auto simp: x_pdu_buf_def wr_def split: if_splits)

text \<open>The PDU of a registration is written exactly into its buffer.\<close>

lemma agentx_register_pdu_ok:
  assumes "5 \<le> length oid" "length oid \<le> 59"
  shows "\<exists>pdu. agentx_register_pdu xdg oid [] 0 t p 0 0 = Some (pdu, x_next_packet xdg) \<and> length pdu = 28 + 4 * (length oid - 5)"
proof -
  define k where "k = length oid - 5"
  have k: "k \<le> 54" "length (objid_enc oid) = 4 + 4 * k"
    using assms by (simp_all add: k_def length_objid_enc)
  have r: "x_round 0 = 0"
    by (simp add: x_round_def uint_sizeof_def)
  have "unat (28 + word_of_nat (4 * k) :: u32) = 28 + 4 * k"
    using k(1) unat_word_of_nat [of "28 + 4 * k"] by simp
  moreover have "length oid > 4 \<and> length oid + 5 \<le> MIB_OID_MAX_LEN \<and> unat (0 :: u32) \<le> 40"
    using assms by (simp add: MIB_OID_MAX_LEN_def)
  ultimately show ?thesis
    using k(2) unfolding agentx_register_pdu_def x_region_pdu_def r Let_def k_def [symmetric]
    by (simp add: x_pdu_buf_def wr_def)
qed

text \<open>An identifier of four sub-identifiers passes the check of the caller and fails the assertion of the callee.\<close>

lemma agentx_mib_node_reg_four: "agentx_mib_node_reg lua net [1, 3, 6, 1] cb st = None"
  by (simp add: agentx_mib_node_reg_def x_prefix_ok_def agentx_register_pdu_def x_region_pdu_def)

text \<open>A response is never answered, so an exchange that gets one changes only the datagram and the connection.\<close>

lemma x_exchange_response:
  assumes "net_send net pdu (xs_net st) = (True, n1)" "net_recv net n1 = (Some buf, n2)" "xs_mib st = Some root"
    and "buf \<noteq> []" "agentx_decode buf (agentx_datagram_clear (xs_dg st)) = Some (err, xdg')" "xh_type (x_hdr xdg') = AGENTX_PDU_RESPONSE"
  shows "x_exchange lua net pdu st = Some (err = None, st\<lparr>xs_dg := xdg', xs_net := n2\<rparr>)"
  using assms
  by (auto simp: x_exchange_def x_handle_def agentx_recv_def agentx_request_dispatch_def Let_def)

text \<open>C25: Registering an identifier below 1.3.6.1 sends one register PDU and waits for the answer. If the connection fails, the
  result is -1 and the tree is unchanged. If a well-formed response arrives, the identifier is registered in the tree, whatever
  error the response carries: a refused registration is not noticed.\<close>

theorem agentx_mib_node_reg_spec:
  assumes "x_prefix_ok oid" "5 \<le> length oid" "length oid \<le> 59" "mib_ok k (xs_mib st)" "k < 43689"
  shows "\<exists>pdu. agentx_register_pdu (xs_dg st) oid [] 0 0 127 0 0 = Some (pdu, x_next_packet (xs_dg st)) \<and>
    length pdu = 28 + 4 * (length oid - 5) \<and>
    (\<forall>n1. net_send net pdu (xs_net st) = (False, n1) \<longrightarrow>
       agentx_mib_node_reg lua net oid cb st = Some (- 1, st\<lparr>xs_dg := x_next_packet (xs_dg st), xs_net := n1\<rparr>)) \<and>
    (\<forall>n1 n2. net_send net pdu (xs_net st) = (True, n1) \<and> net_recv net n1 = (None, n2) \<longrightarrow>
       agentx_mib_node_reg lua net oid cb st = Some (- 1, st\<lparr>xs_dg := x_next_packet (xs_dg st), xs_net := n2\<rparr>)) \<and>
    (\<forall>n1 n2 buf err xdg'. net_send net pdu (xs_net st) = (True, n1) \<and> net_recv net n1 = (Some buf, n2) \<and> buf \<noteq> [] \<and>
       agentx_decode buf (agentx_datagram_clear (x_next_packet (xs_dg st))) = Some (err, xdg') \<and>
       xh_type (x_hdr xdg') = AGENTX_PDU_RESPONSE \<longrightarrow>
       (if err = None
        then \<exists>m' rc. mib_node_reg (xs_mib st) oid cb = Some (m', rc) \<and>
          agentx_mib_node_reg lua net oid cb st = Some (rc, st\<lparr>xs_dg := xdg', xs_net := n2, xs_mib := m'\<rparr>)
        else agentx_mib_node_reg lua net oid cb st = Some (- 1, st\<lparr>xs_dg := xdg', xs_net := n2\<rparr>)))"
proof -
  let ?st = "st\<lparr>xs_dg := x_next_packet (xs_dg st)\<rparr>"
  obtain pdu where pdu: "agentx_register_pdu (xs_dg st) oid [] 0 0 127 0 0 = Some (pdu, x_next_packet (xs_dg st))"
      "length pdu = 28 + 4 * (length oid - 5)"
    using agentx_register_pdu_ok [OF assms(2,3)] by blast
  have reg: "agentx_mib_node_reg lua net oid cb st = do { (ok, st1) \<leftarrow> x_exchange lua net pdu ?st;
      if \<not> ok then Some (- 1, st1)
      else do { (m, ret) \<leftarrow> mib_node_reg (xs_mib st1) oid cb; Some (ret, st1\<lparr>xs_mib := m\<rparr>) } }"
    using assms(1) pdu(1) by (simp add: agentx_mib_node_reg_def)
  obtain root where root: "xs_mib ?st = Some root"
    using assms(4) by (cases "xs_mib st") (auto simp: mib_ok_def)
  obtain m' rc where m: "mib_node_reg (xs_mib st) oid cb = Some (m', rc)"
    using mib_node_reg_ok [OF assms(4,5)] by blast
  have "if err = None
        then agentx_mib_node_reg lua net oid cb st = Some (rc, st\<lparr>xs_dg := xdg', xs_net := n2, xs_mib := m'\<rparr>)
        else agentx_mib_node_reg lua net oid cb st = Some (- 1, st\<lparr>xs_dg := xdg', xs_net := n2\<rparr>)"
    if "net_send net pdu (xs_net st) = (True, n1)" "net_recv net n1 = (Some buf, n2)" "buf \<noteq> []"
      "agentx_decode buf (agentx_datagram_clear (x_next_packet (xs_dg st))) = Some (err, xdg')"
      "xh_type (x_hdr xdg') = AGENTX_PDU_RESPONSE" for n1 n2 buf err xdg'
    using x_exchange_response [of net pdu ?st n1 buf n2 root err xdg' lua] that root m unfolding reg by auto
  then show ?thesis
    using pdu m reg by (intro exI [of _ pdu]) (auto simp: x_exchange_def x_handle_def)
qed

text \<open>A master that refuses a registration as a duplicate (error 263).\<close>

definition x_refusal :: bytes where
  "x_refusal = [1, 18, 0, 0, 7, 0, 0, 0, 0, 0, 0, 0, 1, 0, 0, 0, 8, 0, 0, 0, 0, 0, 0, 0, 7, 1, 0, 0]"

definition refusing_net :: "unit net" where
  "refusing_net = \<lparr>net_send = (\<lambda>bs n. (True, n)), net_recv = (\<lambda>n. (Some x_refusal, n))\<rparr>"

definition x_session :: "(unit, unit) session" where
  "x_session = \<lparr>xs_dg = x_dg_zero, xs_mib = mib_init, xs_lua = (), xs_net = ()\<rparr>"

theorem agentx_mib_node_reg_spec_witness:
  "\<exists>st' m'. agentx_mib_node_reg row_handler refusing_net [1, 3, 6, 1, 2, 1] 7 x_session = Some (0, st') \<and>
     x_error (xs_dg st') = 263 \<and> mib_node_reg mib_init [1, 3, 6, 1, 2, 1] 7 = Some (m', 0) \<and> xs_mib st' = m'"
proof -
  have ok: "x_prefix_ok [1, 3, 6, 1, 2, 1]" "mib_ok 0 (xs_mib x_session)"
    using mib_init_ok by (simp_all add: x_prefix_ok_def x_session_def)
  have "map_option (\<lambda>(e, xdg). (e, xh_type (x_hdr xdg), x_error xdg))
      (agentx_decode x_refusal (agentx_datagram_clear (x_next_packet (xs_dg x_session)))) = Some (None, AGENTX_PDU_RESPONSE, 263)"
    by code_simp
  then obtain xdg' where d: "agentx_decode x_refusal (agentx_datagram_clear (x_next_packet (xs_dg x_session))) = Some (None, xdg')"
      "xh_type (x_hdr xdg') = AGENTX_PDU_RESPONSE" "x_error xdg' = 263"
    by auto
  have net: "net_send refusing_net bs () = (True, ())" "net_recv refusing_net () = (Some x_refusal, ())" "x_refusal \<noteq> []" for bs
    by (simp_all add: refusing_net_def x_refusal_def)
  have rc: "mib_node_reg mib_init [1, 3, 6, 1, 2, 1] 7 = Some (Some x_tree, 0)"
    by (rule x_tree_reg)
  show ?thesis
    using agentx_mib_node_reg_spec [OF ok(1) _ _ ok(2), of refusing_net row_handler 7] d net rc
    by (auto simp: x_session_def)
qed

end
