(* ===== verification/Smartsnmp.thy ===== *)
theory Smartsnmp
  imports Agentx_Session Snmp_Agent
begin

text \<open>
  The functions the agent offers to Lua scripts (\<open>core/smartsnmp.c\<close>), with the protocol operations they call (\<open>core/snmp.c\<close>,
  \<open>core/agentx.c\<close>). The Lua library is the parameter \<open>api\<close>: what its accessors tell of a value of type \<open>'v\<close>, and the registry
  of references to handlers. \<open>Lua_Error\<close> is an error raised in Lua. The parameter \<open>trans_init\<close> is the \<open>init\<close> operation of the
  transport of a protocol.
\<close>

section \<open>Definitions\<close>

datatype prot = Snmp_Prot | Agentx_Prot

record ('v, 'r) lua_api =
  la_table :: "'v \<Rightarrow> bool"
  la_objlen :: "'v \<Rightarrow> nat"
  la_geti :: "'v \<Rightarrow> nat \<Rightarrow> int"
  la_string :: "'v \<Rightarrow> bytes option"
  la_int :: "'v \<Rightarrow> int option"
  la_function :: "'v \<Rightarrow> bool"
  la_ref :: "'v \<Rightarrow> 'r \<Rightarrow> int \<times> 'r"
  la_unref :: "int \<Rightarrow> 'r \<Rightarrow> 'r"

datatype lua_res = Lua_Error | Lua_Nothing | Lua_Bool bool | Lua_Num int

text \<open>The state: the selected protocol (\<open>None\<close> before \<open>smartsnmp_init\<close>), the views, the session with the MIB tree, whether the transport
  has been stopped, the registry.\<close>

record ('w, 'n, 'r) agent =
  ag_ops :: "prot option"
  ag_db :: mib_db
  ag_session :: "('w, 'n) session"
  ag_stopped :: bool
  ag_reg :: 'r

type_synonym ('w, 'n, 'r) lua_call = "('w, 'n, 'r) agent \<Rightarrow> (lua_res \<times> ('w, 'n, 'r) agent) option"

text \<open>An argument by its number, and the elements of a table as an object identifier: \<open>lua_tointeger\<close> is stored in 32 bits.\<close>

definition lua_arg_at :: "'v list \<Rightarrow> nat \<Rightarrow> 'v option" where
  "lua_arg_at args i = (if 0 < i \<and> i \<le> length args then Some (args ! (i - 1)) else None)"

definition lua_oid :: "('v, 'r) lua_api \<Rightarrow> 'v \<Rightarrow> oid" where
  "lua_oid api v = map (\<lambda>i. word_of_int (la_geti api v (i + 1))) [0..<la_objlen api v]"

subsection \<open>The operations of the protocols\<close>

definition snmpd_mib_node_reg :: "oid \<Rightarrow> int \<Rightarrow> ('w, 'n) session \<Rightarrow> (int \<times> ('w, 'n) session) option" where
  "snmpd_mib_node_reg grp_id grp_cb s = do { (m, ret) \<leftarrow> mib_node_reg (xs_mib s) grp_id grp_cb; Some (ret, s\<lparr>xs_mib := m\<rparr>) }"

definition snmpd_mib_node_unreg :: "oid \<Rightarrow> ('w, 'n) session \<Rightarrow> (int \<times> int list \<times> ('w, 'n) session) option" where
  "snmpd_mib_node_unreg grp_id s = do { (m, freed) \<leftarrow> mib_node_unreg (xs_mib s) grp_id; Some (0, freed, s\<lparr>xs_mib := m\<rparr>) }"

definition prot_open :: "'w lua \<Rightarrow> 'n net \<Rightarrow> prot \<Rightarrow> ('w, 'n) session \<Rightarrow> (int \<times> ('w, 'n) session) option" where
  "prot_open lua net p s = (case p of Snmp_Prot \<Rightarrow> Some (0, s) | Agentx_Prot \<Rightarrow> agentx_open lua net s)"

text \<open>\<open>close\<close>: the last component tells if the transport is stopped.\<close>

definition prot_close :: "'w lua \<Rightarrow> 'n net \<Rightarrow> prot \<Rightarrow> ('w, 'n) session \<Rightarrow> (int \<times> ('w, 'n) session \<times> bool) option" where
  "prot_close lua net p s = (case p of Snmp_Prot \<Rightarrow> Some (0, s, True) | Agentx_Prot \<Rightarrow> agentx_close lua net s)"

definition prot_reg :: "'w lua \<Rightarrow> 'n net \<Rightarrow> prot \<Rightarrow> oid \<Rightarrow> int \<Rightarrow> ('w, 'n) session \<Rightarrow> (int \<times> ('w, 'n) session) option" where
  "prot_reg lua net p grp_id grp_cb s =
     (case p of Snmp_Prot \<Rightarrow> snmpd_mib_node_reg grp_id grp_cb s | Agentx_Prot \<Rightarrow> agentx_mib_node_reg lua net grp_id grp_cb s)"

definition prot_unreg :: "'w lua \<Rightarrow> 'n net \<Rightarrow> prot \<Rightarrow> oid \<Rightarrow> ('w, 'n) session \<Rightarrow> (int \<times> int list \<times> ('w, 'n) session) option" where
  "prot_unreg lua net p grp_id s =
     (case p of Snmp_Prot \<Rightarrow> snmpd_mib_node_unreg grp_id s | Agentx_Prot \<Rightarrow> agentx_mib_node_unreg lua net grp_id s)"

subsection \<open>The functions for Lua\<close>

definition s_snmp :: bytes where
  "s_snmp = map of_char ''snmp''"

definition s_agentx :: bytes where
  "s_agentx = map of_char ''agentx''"

definition smartsnmp_init :: "('v, 'r) lua_api \<Rightarrow> (prot \<Rightarrow> int \<Rightarrow> int) \<Rightarrow> 'v list \<Rightarrow> ('w, 'n, 'r) lua_call" where
  "smartsnmp_init api trans_init args st =
     (case (lua_arg_at args 1 \<bind> la_string api, lua_arg_at args 2 \<bind> la_int api) of
        (Some protocol, Some port) \<Rightarrow>
          (let st1 = st\<lparr>ag_session := (ag_session st)\<lparr>xs_mib := mib_init\<rparr>\<rparr>;
               p = (if protocol = s_snmp then Some Snmp_Prot else if protocol = s_agentx then Some Agentx_Prot else None)
           in case p of
                None \<Rightarrow> Some (Lua_Bool False, st1)
              | Some q \<Rightarrow> Some (Lua_Bool (trans_init q port \<ge> 0), st1\<lparr>ag_ops := Some q\<rparr>))
      | _ \<Rightarrow> Some (Lua_Error, st))"

definition smartsnmp_open :: "'w lua \<Rightarrow> 'n net \<Rightarrow> ('w, 'n, 'r) lua_call" where
  "smartsnmp_open lua net st =
     do { p \<leftarrow> ag_ops st;
          (ret, s) \<leftarrow> prot_open lua net p (ag_session st);
          Some (Lua_Bool (ret \<ge> 0), st\<lparr>ag_session := s\<rparr>) }"

definition smartsnmp_exit :: "'w lua \<Rightarrow> 'n net \<Rightarrow> ('w, 'n, 'r) lua_call" where
  "smartsnmp_exit lua net st =
     do { p \<leftarrow> ag_ops st;
          (ret, s, stop) \<leftarrow> prot_close lua net p (ag_session st);
          Some (Lua_Nothing, st\<lparr>ag_session := s, ag_stopped := ag_stopped st \<or> stop\<rparr>) }"

definition smartsnmp_mib_node_reg :: "('v, 'r) lua_api \<Rightarrow> 'w lua \<Rightarrow> 'n net \<Rightarrow> 'v list \<Rightarrow> ('w, 'n, 'r) lua_call" where
  "smartsnmp_mib_node_reg api lua net args st =
     (case lua_arg_at args 1 of
        None \<Rightarrow> Some (Lua_Error, st)
      | Some t \<Rightarrow>
          if \<not> la_table api t \<or> \<not> la_function api (last args) then Some (Lua_Error, st)
          else (let (grp_cb, reg) = la_ref api (last args) (ag_reg st) in
                do { p \<leftarrow> ag_ops st;
                     (ret, s) \<leftarrow> prot_reg lua net p (lua_oid api t) grp_cb (ag_session st);
                     Some (Lua_Num ret, st\<lparr>ag_session := s, ag_reg := reg\<rparr>) }))"

text \<open>The handlers that a deregistration releases are unreferenced in the registry, in order.\<close>

definition smartsnmp_mib_node_unreg :: "('v, 'r) lua_api \<Rightarrow> 'w lua \<Rightarrow> 'n net \<Rightarrow> 'v list \<Rightarrow> ('w, 'n, 'r) lua_call" where
  "smartsnmp_mib_node_unreg api lua net args st =
     (case lua_arg_at args 1 of
        None \<Rightarrow> Some (Lua_Error, st)
      | Some t \<Rightarrow>
          if \<not> la_table api t then Some (Lua_Error, st)
          else do { p \<leftarrow> ag_ops st;
                    (ret, freed, s) \<leftarrow> prot_unreg lua net p (lua_oid api t) (ag_session st);
                    Some (Lua_Num ret, st\<lparr>ag_session := s, ag_reg := fold (la_unref api) freed (ag_reg st)\<rparr>) })"

text \<open>The access attribute is any C \<open>int\<close>: registration compares it with \<open>MIB_ACES_WRITE\<close>, deregistration with \<open>MIB_ACES_READ\<close>.\<close>

definition aces_reg :: "int \<Rightarrow> aces" where
  "aces_reg a = (if a = 2 then MIB_ACES_WRITE else MIB_ACES_READ)"

definition aces_unreg :: "int \<Rightarrow> aces" where
  "aces_unreg a = (if a = 1 then MIB_ACES_READ else MIB_ACES_WRITE)"

definition smartsnmp_mib_community_reg :: "('v, 'r) lua_api \<Rightarrow> 'v list \<Rightarrow> ('w, 'n, 'r) lua_call" where
  "smartsnmp_mib_community_reg api args st =
     (case (lua_arg_at args 1, lua_arg_at args 2 \<bind> la_string api, lua_arg_at args 3 \<bind> la_int api) of
        (Some t, Some community, Some attribute) \<Rightarrow>
          if \<not> la_table api t then Some (Lua_Error, st)
          else do { db \<leftarrow> mib_community_reg (ag_db st) (lua_oid api t) community (aces_reg attribute);
                    Some (Lua_Nothing, st\<lparr>ag_db := db\<rparr>) }
      | _ \<Rightarrow> Some (Lua_Error, st))"

definition smartsnmp_mib_community_unreg :: "('v, 'r) lua_api \<Rightarrow> 'v list \<Rightarrow> ('w, 'n, 'r) lua_call" where
  "smartsnmp_mib_community_unreg api args st =
     (case (lua_arg_at args 1 \<bind> la_string api, lua_arg_at args 2 \<bind> la_int api) of
        (Some community, Some attribute) \<Rightarrow>
          do { db \<leftarrow> mib_community_unreg (ag_db st) community (aces_unreg attribute); Some (Lua_Nothing, st\<lparr>ag_db := db\<rparr>) }
      | _ \<Rightarrow> Some (Lua_Error, st))"

definition smartsnmp_mib_user_reg :: "('v, 'r) lua_api \<Rightarrow> 'v list \<Rightarrow> ('w, 'n, 'r) lua_call" where
  "smartsnmp_mib_user_reg api args st =
     (case (lua_arg_at args 1, lua_arg_at args 2 \<bind> la_string api, lua_arg_at args 3 \<bind> la_int api) of
        (Some t, Some user, Some attribute) \<Rightarrow>
          if \<not> la_table api t then Some (Lua_Error, st)
          else do { db \<leftarrow> mib_user_reg (ag_db st) (lua_oid api t) user (aces_reg attribute);
                    Some (Lua_Nothing, st\<lparr>ag_db := db\<rparr>) }
      | _ \<Rightarrow> Some (Lua_Error, st))"

definition smartsnmp_mib_user_unreg :: "('v, 'r) lua_api \<Rightarrow> 'v list \<Rightarrow> ('w, 'n, 'r) lua_call" where
  "smartsnmp_mib_user_unreg api args st =
     (case (lua_arg_at args 1 \<bind> la_string api, lua_arg_at args 2 \<bind> la_int api) of
        (Some user, Some attribute) \<Rightarrow>
          do { db \<leftarrow> mib_user_unreg (ag_db st) user (aces_unreg attribute); Some (Lua_Nothing, st\<lparr>ag_db := db\<rparr>) }
      | _ \<Rightarrow> Some (Lua_Error, st))"

section \<open>Properties\<close>

lemma lua_arg_at_simps [simp]: "lua_arg_at (a # args) (Suc 0) = Some a" "lua_arg_at (a # b # args) 2 = Some b"
  by (simp_all add: lua_arg_at_def)

text \<open>C29: A script that registers a handler at an object identifier and later deregisters the identifier gets back the MIB it had: the instances
  are the same, and the reference to the handler is released exactly once. The numbers of the Lua table are taken modulo
  \<open>2 ^ 32\<close>.\<close>

theorem smartsnmp_reg_unreg:
  assumes "ag_ops st = Some Snmp_Prot" "la_table api t" "mib_ok k (xs_mib (ag_session st))" "k < 43689"
    and "smartsnmp_mib_node_reg api lua net [t, f] st = Some (Lua_Num 0, st1)"
  shows "\<exists>m1 cb reg st2. la_ref api f (ag_reg st) = (cb, reg) \<and>
    mib_node_reg (xs_mib (ag_session st)) (map (\<lambda>i. word_of_int (la_geti api t (Suc i))) [0..<la_objlen api t]) cb = Some (m1, 0) \<and>
    smartsnmp_mib_node_unreg api lua net [t] st1 = Some (Lua_Num 0, st2) \<and>
    mib_insts (xs_mib (ag_session st2)) = mib_insts (xs_mib (ag_session st)) \<and> ag_reg st2 = la_unref api cb reg \<and>
    mib_ok (Suc k) (xs_mib (ag_session st2)) \<and> ag_db st2 = ag_db st \<and> ag_ops st2 = Some Snmp_Prot"
proof -
  obtain cb reg where cb: "la_ref api f (ag_reg st) = (cb, reg)"
    by force
  then obtain m1 where m1: "mib_node_reg (xs_mib (ag_session st)) (lua_oid api t) cb = Some (m1, 0)"
      "st1 = st\<lparr>ag_session := (ag_session st)\<lparr>xs_mib := m1\<rparr>, ag_reg := reg\<rparr>"
    using assms(1,2,5)
    by (auto simp: smartsnmp_mib_node_reg_def prot_reg_def snmpd_mib_node_reg_def Option.bind_eq_Some_conv split: if_splits)
  from mib.reg_unreg [OF assms(3,4) m1(1)] obtain m2 where "mib_node_unreg m1 (lua_oid api t) = Some (m2, [cb])" "mib_ok (Suc k) m2"
      "mib_insts m2 = mib_insts (xs_mib (ag_session st))"
    by blast
  then show ?thesis
    using assms(1,2) cb m1
    by (auto simp: smartsnmp_mib_node_unreg_def prot_unreg_def snmpd_mib_node_unreg_def lua_oid_def)
qed

text \<open>\<open>smartsnmp_init\<close> accepts exactly two protocol names. With another name it reports failure but leaves no protocol selected, and then every
  function that needs one follows a null pointer, instead of reporting an error to the script.\<close>

theorem smartsnmp_init_spec:
  assumes "la_string api a = Some name" "la_int api b = Some port"
  shows "\<exists>res st'. smartsnmp_init api trans_init [a, b] st = Some (res, st') \<and> xs_mib (ag_session st') = mib_init \<and>
    (name = s_snmp \<longrightarrow> res = Lua_Bool (trans_init Snmp_Prot port \<ge> 0) \<and> ag_ops st' = Some Snmp_Prot) \<and>
    (name = s_agentx \<longrightarrow> res = Lua_Bool (trans_init Agentx_Prot port \<ge> 0) \<and> ag_ops st' = Some Agentx_Prot) \<and>
    (name \<notin> {s_snmp, s_agentx} \<longrightarrow> res = Lua_Bool False \<and> ag_ops st' = ag_ops st \<and>
       (ag_ops st = None \<longrightarrow> smartsnmp_open lua net st' = None \<and> smartsnmp_exit lua net st' = None \<and>
          (\<forall>t f. la_table api t \<and> la_function api f \<longrightarrow> smartsnmp_mib_node_reg api lua net [t, f] st' = None) \<and>
          (\<forall>t. la_table api t \<longrightarrow> smartsnmp_mib_node_unreg api lua net [t] st' = None)))"
proof -
  have "s_snmp \<noteq> s_agentx"
    by (simp add: s_snmp_def s_agentx_def)
  then show ?thesis
    using assms
    by (auto simp: smartsnmp_init_def Let_def smartsnmp_open_def smartsnmp_exit_def smartsnmp_mib_node_reg_def smartsnmp_mib_node_unreg_def
        split: prod.split)
qed

subsection \<open>Examples\<close>

datatype example_value = E_Table "int list" | E_Str string | E_Int int | E_Fun

definition example_api :: "(example_value, int) lua_api" where
  "example_api = \<lparr>la_table = (\<lambda>v. case v of E_Table _ \<Rightarrow> True | _ \<Rightarrow> False), la_objlen = (\<lambda>v. case v of E_Table xs \<Rightarrow> length xs | _ \<Rightarrow> 0),
     la_geti = (\<lambda>v i. case v of E_Table xs \<Rightarrow> xs ! (i - 1) | _ \<Rightarrow> 0),
     la_string = (\<lambda>v. case v of E_Str s \<Rightarrow> Some (map of_char s) | _ \<Rightarrow> None), la_int = (\<lambda>v. case v of E_Int i \<Rightarrow> Some i | _ \<Rightarrow> None),
     la_function = (\<lambda>v. v = E_Fun), la_ref = (\<lambda>v r. (r, r + 1)), la_unref = (\<lambda>c r. r - 1)\<rparr>"

definition example_agent :: "(unit, unit, int) agent" where
  "example_agent = \<lparr>ag_ops = Some Snmp_Prot, ag_db = db_init, ag_session = x_session, ag_stopped = False, ag_reg = 7\<rparr>"

theorem smartsnmp_reg_unreg_witness:
  "\<exists>st1 st2. smartsnmp_mib_node_reg example_api row_handler refusing_net [E_Table [1, 4294967299], E_Fun] example_agent = Some (Lua_Num 0, st1) \<and>
     smartsnmp_mib_node_unreg example_api row_handler refusing_net [E_Table [1, 4294967299]] st1 = Some (Lua_Num 0, st2) \<and>
     mib_insts (xs_mib (ag_session st2)) = mib_insts mib_init \<and> ag_reg st2 = 7"
proof -
  let ?t = "E_Table [1, 4294967299]"
  have o: "lua_oid example_api ?t = [1, 3]"
    by (simp add: lua_oid_def example_api_def)
  have ag: "ag_ops example_agent = Some Snmp_Prot" "la_table example_api ?t" "mib_ok 0 (xs_mib (ag_session example_agent))"
    using mib_init_ok by (simp_all add: example_agent_def example_api_def x_session_def)
  have api: "la_function example_api E_Fun" "la_ref example_api v r = (r, r + 1)" for v r
    by (simp_all add: example_api_def)
  obtain st1 where st1: "smartsnmp_mib_node_reg example_api row_handler refusing_net [?t, E_Fun] example_agent = Some (Lua_Num 0, st1)"
    using reg_example ag(2) api
    by (simp add: smartsnmp_mib_node_reg_def o example_agent_def x_session_def prot_reg_def snmpd_mib_node_reg_def)
  then show ?thesis
    using smartsnmp_reg_unreg [OF ag(1-3) _ st1] by (auto simp: example_agent_def example_api_def x_session_def)
qed

theorem smartsnmp_init_spec_witness:
  "\<exists>st'. smartsnmp_init example_api (\<lambda>_ _. 0) [E_Str ''snmp2'', E_Int 161] (example_agent\<lparr>ag_ops := None\<rparr>) = Some (Lua_Bool False, st') \<and>
     smartsnmp_open row_handler refusing_net st' = None"
  using smartsnmp_init_spec [of example_api "E_Str ''snmp2''" "map of_char ''snmp2''" "E_Int 161" 161 "\<lambda>_ _. 0"
      "example_agent\<lparr>ag_ops := None\<rparr>" row_handler refusing_net]
  by (auto simp: example_api_def s_snmp_def s_agentx_def)

end
