(* ===== verification/Agentx_Transport.thy ===== *)
theory Agentx_Transport
  imports Agentx_Session Udp_Evloop
begin

text \<open>
  The TCP connection of the AgentX sub-agent on the built-in event loop (\<open>core/agentx_tcp_evloop_transport.c\<close>). Requests come from the
  read handler. Answers are not sent by the transport but by \<open>agentx_response\<close>, directly on the socket, so the entry and the
  write handler are never used by the sub-agent. A round is true if \<open>select\<close> reports the socket readable.

  The theorem: the event loop is the sequential treatment of the messages of the master; it aborts when the connection is
  closed.
\<close>

section \<open>Definitions\<close>

datatype tcp_cb = Agentx_Read | Agentx_Write

record ('w, 'n) tcp =
  tc_sock :: int
  tc_buf :: "msg option"
  tc_session :: "('w, 'n) session"

type_synonym ('w, 'n) tcp_state = "(tcp_cb, ('w, 'n) tcp) ev_state"

definition agentx_write_handler :: "'n net \<Rightarrow> int \<Rightarrow> u8 \<Rightarrow> ('w, 'n) tcp_state \<Rightarrow> ('w, 'n) tcp_state option" where
  "agentx_write_handler net sock flag st =
     do { m \<leftarrow> tc_buf (snd st);
          bs \<leftarrow> rdn (fst m) 0 (unat (snd m));
          let s = tc_session (snd st);
          let (sent, n) = net_send net bs (xs_net s);
          el \<leftarrow> snmp_event_remove sock flag (if sent then fst st else snmp_event_done (fst st));
          Some (el, (snd st)\<lparr>tc_buf := None, tc_session := s\<lparr>xs_net := n\<rparr>\<rparr>) }"

text \<open>A failure of \<open>recv\<close> ends the loop, and its result \<open>- 1\<close> makes the assertion in \<open>agentx_recv\<close> fail.\<close>

definition agentx_read_handler :: "'w lua \<Rightarrow> 'n net \<Rightarrow> ('w, 'n) tcp_state \<Rightarrow> ('w, 'n) tcp_state option" where
  "agentx_read_handler lua net st =
     (let s = tc_session (snd st) in
      case net_recv net (xs_net s) of
        (None, n) \<Rightarrow> None
      | (Some buf, n) \<Rightarrow>
          do { (ok, s') \<leftarrow> x_handle lua net (take (TRANS_BUF_SIZ - 1) buf) (s\<lparr>xs_net := n\<rparr>);
               Some (fst st, (snd st)\<lparr>tc_session := s'\<rparr>) })"

definition tcp_call :: "'w lua \<Rightarrow> 'n net \<Rightarrow> (tcp_cb, ('w, 'n) tcp) ev_call" where
  "tcp_call lua net cb fd flag = (case cb of Agentx_Read \<Rightarrow> agentx_read_handler lua net | Agentx_Write \<Rightarrow> agentx_write_handler net fd flag)"

definition tcp_transport_send :: "msg \<Rightarrow> ('w, 'n) tcp_state \<Rightarrow> ('w, 'n) tcp_state option" where
  "tcp_transport_send m st =
     do { (ret, el) \<leftarrow> snmp_event_add (tc_sock (snd st)) SNMP_EV_WRITE Agentx_Write (fst st);
          Some (el, (snd st)\<lparr>tc_buf := Some m\<rparr>) }"

definition tcp_ready :: "int \<Rightarrow> bool \<Rightarrow> (int set \<times> int set) option" where
  "tcp_ready sock r = (if r then Some ({sock}, {}) else None)"

definition tcp_transport_running :: "'w lua \<Rightarrow> 'n net \<Rightarrow> bool list \<Rightarrow> ('w, 'n) tcp_state \<Rightarrow> ('w, 'n) tcp_state option" where
  "tcp_transport_running lua net rounds st =
     do { (ret, el) \<leftarrow> snmp_event_add (tc_sock (snd st)) SNMP_EV_READ Agentx_Read (snmp_event_init (fst st));
          snmp_event_run (\<lambda>_. tcp_call lua net) (tcp_ready (tc_sock (snd st))) rounds (el, snd st) }"

definition tcp_transport_stop :: "('w, 'n) tcp_state \<Rightarrow> ('w, 'n) tcp_state" where
  "tcp_transport_stop st = (snmp_event_done (fst st), snd st)"

text \<open>\<open>sock\<close> is the result of \<open>socket\<close>; \<open>connected\<close> tells if \<open>connect\<close> succeeded.\<close>

definition tcp_transport_init :: "int \<Rightarrow> bool \<Rightarrow> ('w, 'n) tcp \<Rightarrow> int \<times> ('w, 'n) tcp" where
  "tcp_transport_init sock connected t = (if sock < 0 \<or> \<not> connected then - 1 else 0, t\<lparr>tc_sock := sock\<rparr>)"

section \<open>The loop is the sequential treatment of the messages\<close>

primrec x_serve :: "'w lua \<Rightarrow> 'n net \<Rightarrow> nat \<Rightarrow> ('w, 'n) session \<Rightarrow> ('w, 'n) session option" where
  "x_serve lua net 0 s = Some s"
| "x_serve lua net (Suc k) s =
     (case net_recv net (xs_net s) of
        (None, n) \<Rightarrow> None
      | (Some buf, n) \<Rightarrow> do { (ok, s') \<leftarrow> x_handle lua net (take (TRANS_BUF_SIZ - 1) buf) (s\<lparr>xs_net := n\<rparr>); x_serve lua net k s' })"

definition tcp_serving :: "('w, 'n) tcp_state \<Rightarrow> bool" where
  "tcp_serving st = (case el_event (fst st) of [] \<Rightarrow> False | e # es \<Rightarrow>
     list_all idle es \<and> length es = 4 \<and> ev_fd e = tc_sock (snd st) \<and> ev_rcb e = Some Agentx_Read \<and> ev_flag e = 1 \<and> \<not> ev_read e \<and> \<not> ev_write e
     \<and> el_start (fst st))"

lemma tcp_round:
  assumes "tcp_serving st"
  shows "snmp_event_poll (tcp_call lua net) (tcp_ready (tc_sock (snd st)) r) st =
    map_option (\<lambda>s. (fst st, (snd st)\<lparr>tc_session := s\<rparr>)) (x_serve lua net (if r then 1 else 0) (tc_session (snd st)))"
proof -
  let ?call = "tcp_call lua net" and ?ready = "tcp_ready (tc_sock (snd st)) r" and ?s = "tc_session (snd st)"
  obtain e es where e: "el_event (fst st) = e # es" "list_all idle es" "length es = 4" "ev_fd e = tc_sock (snd st)"
      "ev_rcb e = Some Agentx_Read" "ev_flag e = 1" "\<not> ev_read e" "\<not> ev_write e"
    using assms by (auto simp: tcp_serving_def split: list.splits)
  have same: "ev_write_update f e = e\<lparr>ev_write := f False\<rparr>" "e\<lparr>ev_read := False\<rparr> = e" "e\<lparr>ev_write := False\<rparr> = e" for f
    using e(7,8) by (cases e; simp)+
  show ?thesis
  proof (cases r)
    case False
    then have "event_calls ?call 0 (select_poll ?ready (fst st), snd st) = Some st"
      using e by (simp add: event_calls_idle rd_def tcp_ready_def select_poll_def)
    from poll_first [OF this e(1,3,2)] show ?thesis
      using False by simp
  next
    case True
    let ?el = "(fst st)\<lparr>el_event := e\<lparr>ev_read := True\<rparr> # es\<rparr>"
    have "select_mark {tc_sock (snd st)} {} e = e\<lparr>ev_read := True\<rparr>"
      using e(4-8) by (cases e) (simp add: select_mark_def ev_flags)
    then have sel: "select_poll ?ready (fst st) = ?el"
      using True e(1,2) by (simp add: select_poll_def tcp_ready_def select_mark_idle)
    have h: "agentx_read_handler lua net (?el, snd st) = map_option (\<lambda>s. (?el, (snd st)\<lparr>tc_session := s\<rparr>)) (x_serve lua net 1 ?s)"
      by (auto simp: agentx_read_handler_def Let_def split: prod.split option.split bind_splits)
    show ?thesis
    proof (cases "x_serve lua net 1 ?s")
      case None
      then have "event_calls ?call 0 (?el, snd st) = None"
        using h e(5) by (simp add: event_cb_defs rd_def tcp_call_def)
      then have "snmp_event_poll ?call ?ready st = None"
        using sel by (simp add: snmp_event_poll_def SNMP_MAX_EVENTS_def upt_rec)
      then show ?thesis
        using None True by simp
    next
      case (Some s)
      then have "event_calls ?call 0 (?el, snd st) = Some (fst st, (snd st)\<lparr>tc_session := s\<rparr>)"
        using h e(1,5,8) same by (simp add: event_cb_defs rd_def tcp_call_def event_at_def split: option.split)
      then have "snmp_event_poll ?call ?ready st = Some (fst st, (snd st)\<lparr>tc_session := s\<rparr>)"
        using e(1-3) sel by (intro poll_first) simp_all
      then show ?thesis
        using Some True by simp
    qed
  qed
qed

lemma x_serve_add: "x_serve lua net (j + k) s = do { s' \<leftarrow> x_serve lua net j s; x_serve lua net k s' }"
proof (induction j arbitrary: s)
  case (Suc j)
  have "x_serve lua net (j + k) = (\<lambda>s. x_serve lua net j s \<bind> x_serve lua net k)"
    using Suc.IH by blast
  then show ?case
    by (simp split: prod.split option.split bind_splits)
qed simp

lemma tcp_run:
  assumes "tcp_serving st"
  shows "snmp_event_run (\<lambda>_. tcp_call lua net) (tcp_ready (tc_sock (snd st))) rounds st =
    map_option (\<lambda>s. (fst st, (snd st)\<lparr>tc_session := s\<rparr>)) (x_serve lua net (length (filter (\<lambda>r. r) rounds)) (tc_session (snd st)))"
  using assms
proof (induction rounds arbitrary: st)
  case (Cons r rounds)
  let ?k = "if r then 1 else 0 :: nat" and ?st = "\<lambda>s. (fst st, (snd st)\<lparr>tc_session := s\<rparr>)"
  have "tcp_serving (?st s)" for s
    using Cons.prems by (auto simp: tcp_serving_def split: list.splits)
  note IH = Cons.IH [OF this]
  have "el_start (fst st)"
    using Cons.prems by (auto simp: tcp_serving_def split: list.splits)
  then have "snmp_event_run (\<lambda>_. tcp_call lua net) (tcp_ready (tc_sock (snd st))) (r # rounds) st =
      do { s \<leftarrow> x_serve lua net ?k (tc_session (snd st)); snmp_event_run (\<lambda>_. tcp_call lua net) (tcp_ready (tc_sock (snd st))) rounds (?st s) }"
    by (simp add: tcp_round [OF Cons.prems] Option.bind_map_option comp_def)
  also have "\<dots> = map_option ?st (x_serve lua net (?k + length (filter (\<lambda>r. r) rounds)) (tc_session (snd st)))"
    unfolding x_serve_add using IH by (cases "x_serve lua net ?k (tc_session (snd st))") (simp_all del: x_serve.simps)
  finally show ?case
    by simp
qed simp

lemma tcp_running:
  assumes "length (el_event el) = SNMP_MAX_EVENTS" "fd_ok (tc_sock t)"
  shows "\<exists>el'. tcp_serving (el', t) \<and> (\<forall>rounds. tcp_transport_running lua net rounds (el, t) =
      map_option (\<lambda>s. (el', t\<lparr>tc_session := s\<rparr>)) (x_serve lua net (length (filter (\<lambda>r. r) rounds)) (tc_session t)))"
proof -
  let ?el = "snmp_event_init el"
  obtain e es where e: "el_event el = e # es" "length es = 4"
    using assms(1) by (cases "el_event el") (auto simp: SNMP_MAX_EVENTS_def)
  obtain ret el' where el': "snmp_event_add (tc_sock t) SNMP_EV_READ Agentx_Read ?el = Some (ret, el')" "ev_ok el'"
    using snmp_event_add_ok [OF snmp_event_init_ok [OF assms(1)] assms(2), of SNMP_EV_READ Agentx_Read] by auto
  have "list_all idle (map event_free es)"
    by (induction es) (simp_all add: idle_def event_free_def)
  then have s: "tcp_serving (el', t)"
    using el' e assms(2)
    by (auto simp: snmp_event_add_def snmp_event_init_def event_free_def select_add_def tcp_serving_def event_set_cb_def
        ev_flags fd_ok_def Let_def split: if_splits)
  then show ?thesis
    using el'(1) tcp_run [OF s] by (auto simp: tcp_transport_running_def)
qed

text \<open>C26: The event loop of the sub-agent treats the messages of its master one after the other, one in each round in which the
  socket is readable, and leaves the event table as it is. If the master closes the connection (\<open>recv\<close> returns no bytes) or \<open>recv\<close> fails, the
  sub-agent aborts.\<close>

theorem tcp_running_serves:
  assumes "length (el_event el) = SNMP_MAX_EVENTS" "fd_ok (tc_sock t)"
  shows "\<exists>el'. tcp_serving (el', t) \<and> (\<forall>rounds. tcp_transport_running lua net rounds (el, t) =
      map_option (\<lambda>s. (el', t\<lparr>tc_session := s\<rparr>)) (x_serve lua net (length (filter (\<lambda>r. r) rounds)) (tc_session t))) \<and>
    (\<forall>s n k. net_recv net (xs_net s) \<in> {(Some [], n), (None, n)} \<longrightarrow> x_serve lua net (Suc k) s = None)"
proof -
  have "x_serve lua net (Suc k) s = None" if "net_recv net (xs_net s) \<in> {(Some [], n), (None, n)}" for s n k
    using that by (auto simp: x_handle_def agentx_recv_def)
  then show ?thesis
    using tcp_running [OF assms, of lua net] by blast
qed

text \<open>A master that refuses a request and closes the connection.\<close>

definition closing_net :: "nat net" where
  "closing_net = \<lparr>net_send = (\<lambda>bs n. (True, n)), net_recv = (\<lambda>n. (Some (if n = 0 then x_refusal else []), Suc n))\<rparr>"

definition tcp_4 :: "(unit, nat) tcp" where
  "tcp_4 = \<lparr>tc_sock = 4, tc_buf = None, tc_session = \<lparr>xs_dg = x_dg_zero, xs_mib = mib_init, xs_lua = (), xs_net = 0\<rparr>\<rparr>"

theorem tcp_running_serves_witness:
  "tcp_transport_running row_handler closing_net [True, False] (el_zero, tcp_4) \<noteq> None \<and>
   tcp_transport_running row_handler closing_net [True, False, True] (el_zero, tcp_4) = None"
proof -
  have "fd_ok (tc_sock tcp_4)"
    by (simp add: tcp_4_def fd_ok_def)
  from tcp_running_serves [OF el_zero_length this, of row_handler closing_net] obtain el' where
    run: "\<And>rounds. tcp_transport_running row_handler closing_net rounds (el_zero, tcp_4) =
      map_option (\<lambda>s. (el', tcp_4\<lparr>tc_session := s\<rparr>)) (x_serve row_handler closing_net (length (filter (\<lambda>r. r) rounds)) (tc_session tcp_4))"
    and closed: "\<And>s n k. net_recv closing_net (xs_net s) \<in> {(Some [], n), (None, n)} \<Longrightarrow> x_serve row_handler closing_net (Suc k) s = None"
    by metis
  have "case agentx_recv row_handler mib_dummy_node_init x_dg_zero x_refusal () of Some (e, xdg, w, None) \<Rightarrow> True | _ \<Rightarrow> False"
    by code_simp
  then obtain r xdg where r: "agentx_recv row_handler mib_dummy_node_init x_dg_zero x_refusal () = Some (r, xdg, (), None)"
    by (auto split: option.splits)
  have t: "take (TRANS_BUF_SIZ - 1) x_refusal = x_refusal"
    by (simp add: TRANS_BUF_SIZ_def x_refusal_def)
  obtain s where s: "x_serve row_handler closing_net 1 (tc_session tcp_4) = Some s" "xs_net s = 1"
    using r t by (simp add: x_handle_def tcp_4_def closing_net_def mib_init_def)
  have "x_serve row_handler closing_net 1 s = None"
    using closed [of s 2 0] s(2) by (simp add: closing_net_def)
  then have "x_serve row_handler closing_net (1 + 1) (tc_session tcp_4) = None"
    unfolding x_serve_add s(1) by (simp del: x_serve.simps)
  with s(1) show ?thesis
    unfolding run by (simp del: x_serve.simps add: numeral_2_eq_2)
qed

end
