(* ===== verification/Smartsnmp_Run.thy ===== *)
theory Smartsnmp_Run
  imports Smartsnmp Agentx_Transport
begin

text \<open>
  A script and the agent it runs. A script is a sequence of calls of the functions in the table \<open>smartsnmp_func\<close> of \<open>core/smartsnmp.c\<close>;
  \<open>smartsnmp_run\<close> then runs, by \<open>snmpd_run\<close> or \<open>agentx_run\<close>, the transport of the selected protocol on the MIB tree and the views the script has
  registered. The state of the program is that of the functions for Lua with the static data of the two transports and their event
  tables. The handlers are assumed not to call the functions for Lua while the loop runs.

  The theorem: scripts keep the invariants of the tree and the views, and running the agent is the abstract server on what the script has
  registered.
\<close>

section \<open>Definitions\<close>

datatype 'v script_call =
    Call_Init "'v list" | Call_Open | Call_Exit
  | Call_Node_Reg "'v list" | Call_Node_Unreg "'v list"
  | Call_Community_Reg "'v list" | Call_Community_Unreg "'v list"
  | Call_User_Reg "'v list" | Call_User_Unreg "'v list"

definition smartsnmp_func ::
  "('v, 'r) lua_api \<Rightarrow> (prot \<Rightarrow> int \<Rightarrow> int) \<Rightarrow> 'w lua \<Rightarrow> 'n net \<Rightarrow> 'v script_call \<Rightarrow> ('w, 'n, 'r) lua_call" where
  "smartsnmp_func api trans_init lua net c = (case c of
      Call_Init args \<Rightarrow> smartsnmp_init api trans_init args
    | Call_Open \<Rightarrow> smartsnmp_open lua net
    | Call_Exit \<Rightarrow> smartsnmp_exit lua net
    | Call_Node_Reg args \<Rightarrow> smartsnmp_mib_node_reg api lua net args
    | Call_Node_Unreg args \<Rightarrow> smartsnmp_mib_node_unreg api lua net args
    | Call_Community_Reg args \<Rightarrow> smartsnmp_mib_community_reg api args
    | Call_Community_Unreg args \<Rightarrow> smartsnmp_mib_community_unreg api args
    | Call_User_Reg args \<Rightarrow> smartsnmp_mib_user_reg api args
    | Call_User_Unreg args \<Rightarrow> smartsnmp_mib_user_unreg api args)"

primrec script :: "('v, 'r) lua_api \<Rightarrow> (prot \<Rightarrow> int \<Rightarrow> int) \<Rightarrow> 'w lua \<Rightarrow> 'n net \<Rightarrow> 'v script_call list \<Rightarrow>
    ('w, 'n, 'r) agent \<Rightarrow> ('w, 'n, 'r) agent option" where
  "script api trans_init lua net [] st = Some st"
| "script api trans_init lua net (c # cs) st =
     do { (res, st') \<leftarrow> smartsnmp_func api trans_init lua net c st; script api trans_init lua net cs st' }"

record ('w, 'n, 'r, 'a) program =
  pg_agent :: "('w, 'n, 'r) agent"
  pg_snmp_loop :: "udp_cb event_loop"
  pg_udp :: "(snmp_datagram \<times> 'w, 'a) udp"
  pg_agentx_loop :: "tcp_cb event_loop"
  pg_tcp :: "('w, 'n) tcp"

text \<open>What the operating system does in the rounds of either loop.\<close>

record 'a run_input =
  ri_snmp :: "'a os list"
  ri_agentx :: "bool list"

text \<open>\<open>receive\<close> on the registered tree; a null pointer is followed if there is none.\<close>

definition agent_receive :: "'w lua \<Rightarrow> ('w, 'n, 'r) agent \<Rightarrow> (snmp_datagram \<times> 'w) receive" where
  "agent_receive lua ag buf g = do { root \<leftarrow> xs_mib (ag_session ag); snmpd_receive lua root (ag_db ag) buf g }"

definition snmpd_run :: "'w lua \<Rightarrow> 'a os list \<Rightarrow> ('w, 'n, 'r, 'a) program \<Rightarrow> ('w, 'n, 'r, 'a) program option" where
  "snmpd_run lua rounds st =
     (let ag = pg_agent st; s = ag_session ag; u = pg_udp st in
      do { (el, u') \<leftarrow> evloop_transport_running (agent_receive lua ag) rounds (pg_snmp_loop st, u\<lparr>ud_agent := (fst (ud_agent u), xs_lua s)\<rparr>);
           Some (st\<lparr>pg_snmp_loop := el, pg_udp := u', pg_agent := ag\<lparr>ag_session := s\<lparr>xs_lua := snd (ud_agent u')\<rparr>\<rparr>\<rparr>) })"

definition agentx_run :: "'w lua \<Rightarrow> 'n net \<Rightarrow> bool list \<Rightarrow> ('w, 'n, 'r, 'a) program \<Rightarrow> ('w, 'n, 'r, 'a) program option" where
  "agentx_run lua net rounds st =
     do { (el, t) \<leftarrow> tcp_transport_running lua net rounds (pg_agentx_loop st, (pg_tcp st)\<lparr>tc_session := ag_session (pg_agent st)\<rparr>);
          Some (st\<lparr>pg_agentx_loop := el, pg_tcp := t, pg_agent := (pg_agent st)\<lparr>ag_session := tc_session t\<rparr>\<rparr>) }"

definition smartsnmp_run :: "'w lua \<Rightarrow> 'n net \<Rightarrow> 'a run_input \<Rightarrow> ('w, 'n, 'r, 'a) program \<Rightarrow> (lua_res \<times> ('w, 'n, 'r, 'a) program) option" where
  "smartsnmp_run lua net inp st =
     do { p \<leftarrow> ag_ops (pg_agent st);
          st' \<leftarrow> (case p of Snmp_Prot \<Rightarrow> snmpd_run lua (ri_snmp inp) st | Agentx_Prot \<Rightarrow> agentx_run lua net (ri_agentx inp) st);
          Some (Lua_Nothing, st') }"

section \<open>Scripts\<close>

text \<open>Calls that are harmless: views have at most 1024 sub-identifiers, all below \<open>2 ^ 31\<close>, access rights are deregistered for reading and writing together
  (the loop does not end otherwise), and the protocol is not changed to AgentX.\<close>

fun call_ok :: "('v, 'r) lua_api \<Rightarrow> 'v script_call \<Rightarrow> bool" where
  "call_ok api (Call_Init args) = ((lua_arg_at args 1 \<bind> la_string api) \<noteq> Some s_agentx)"
| "call_ok api (Call_Community_Reg args) = (case lua_arg_at args 1 of Some t \<Rightarrow> view_oid (lua_oid api t) | None \<Rightarrow> True)"
| "call_ok api (Call_User_Reg args) = (case lua_arg_at args 1 of Some t \<Rightarrow> view_oid (lua_oid api t) | None \<Rightarrow> True)"
| "call_ok api (Call_Community_Unreg args) = ((lua_arg_at args 2 \<bind> la_int api) \<in> {None, Some 1})"
| "call_ok api (Call_User_Unreg args) = ((lua_arg_at args 2 \<bind> la_int api) \<in> {None, Some 1})"
| "call_ok api _ = True"

definition agent_ok :: "nat \<Rightarrow> ('w, 'n, 'r) agent \<Rightarrow> bool" where
  "agent_ok k st \<longleftrightarrow> ag_ops st = Some Snmp_Prot \<and> mib_ok k (xs_mib (ag_session st)) \<and> db_ok (ag_db st)"

text \<open>A call that is defined and keeps the invariant.\<close>

definition defined_ok :: "nat \<Rightarrow> (lua_res \<times> ('w, 'n, 'r) agent) option \<Rightarrow> bool" where
  "defined_ok k r \<longleftrightarrow> (\<exists>res st'. r = Some (res, st') \<and> agent_ok k st')"

lemma agent_ok_Suc: "agent_ok k st \<Longrightarrow> agent_ok (Suc k) st"
  by (auto simp: agent_ok_def intro: mib.invar_mono [of k])

lemma defined_ok_Suc: "defined_ok k r \<Longrightarrow> defined_ok (Suc k) r"
  by (auto simp: defined_ok_def intro: agent_ok_Suc)

lemma defined_ok_Some [simp]: "defined_ok k (Some (res, st)) = agent_ok k st"
  by (simp add: defined_ok_def)

lemma defined_ok_bind: "\<exists>y. m = Some y \<and> defined_ok k (f y) \<Longrightarrow> defined_ok k (m \<bind> f)"
  by auto

lemma init_ok:
  assumes "agent_ok k st" "call_ok api (Call_Init args)"
  shows "defined_ok k (smartsnmp_init api trans_init args st)"
proof -
  have "mib_ok k mib_init"
    by (rule mib.invar_mono [OF mib_init_ok]) simp
  then show ?thesis
    using assms by (auto simp: smartsnmp_init_def agent_ok_def defined_ok_def Let_def split: option.split)
qed

lemma node_calls_ok:
  assumes "agent_ok k st" "k < 43689"
  shows "defined_ok (Suc k) (smartsnmp_mib_node_reg api lua net args st)"
    "defined_ok (Suc k) (smartsnmp_mib_node_unreg api lua net args st)"
proof -
  have m: "mib_ok k (xs_mib (ag_session st))" "ag_ops st = Some Snmp_Prot" "agent_ok (Suc k) st"
    using assms(1) by (auto simp: agent_ok_def intro: mib.invar_mono [of k])
  have "defined_ok (Suc k) (do { (ret, s) \<leftarrow> prot_reg lua net Snmp_Prot oid cb (ag_session st);
      Some (Lua_Num ret, st\<lparr>ag_session := s, ag_reg := reg\<rparr>) })" for oid cb reg
    using mib_node_reg_ok [OF m(1) assms(2), of oid cb] m(3) by (auto simp: prot_reg_def snmpd_mib_node_reg_def agent_ok_def)
  then show "defined_ok (Suc k) (smartsnmp_mib_node_reg api lua net args st)"
    using m(2,3) by (simp add: smartsnmp_mib_node_reg_def split: option.split prod.split)
  have "defined_ok k (do { (ret, freed, s) \<leftarrow> prot_unreg lua net Snmp_Prot oid (ag_session st);
      Some (Lua_Num ret, st\<lparr>ag_session := s, ag_reg := fold (la_unref api) freed (ag_reg st)\<rparr>) })" for oid
    using mib_node_unreg_ok [OF m(1), of oid] assms(1) by (auto simp: prot_unreg_def snmpd_mib_node_unreg_def agent_ok_def)
  note defined_ok_Suc [OF this]
  then show "defined_ok (Suc k) (smartsnmp_mib_node_unreg api lua net args st)"
    using m(2,3) by (simp add: smartsnmp_mib_node_unreg_def split: option.split)
qed

lemma agent_ok_db: "agent_ok k st \<Longrightarrow> db_ok db \<Longrightarrow> agent_ok k (st\<lparr>ag_db := db\<rparr>)"
  by (simp add: agent_ok_def)

lemma access_calls_ok:
  assumes "agent_ok k st"
  shows "call_ok api (Call_Community_Reg args) \<Longrightarrow> defined_ok k (smartsnmp_mib_community_reg api args st)"
    and "call_ok api (Call_Community_Unreg args) \<Longrightarrow> defined_ok k (smartsnmp_mib_community_unreg api args st)"
    and "call_ok api (Call_User_Reg args) \<Longrightarrow> defined_ok k (smartsnmp_mib_user_reg api args st)"
    and "call_ok api (Call_User_Unreg args) \<Longrightarrow> defined_ok k (smartsnmp_mib_user_unreg api args st)"
proof -
  have db: "db_ok (ag_db st)"
    using assms by (simp add: agent_ok_def)
  let ?ok = "\<lambda>r. defined_ok k (do { db \<leftarrow> r; Some (Lua_Nothing, st\<lparr>ag_db := db\<rparr>) })"
  have db_op: "?ok r" if "\<exists>db'. r = Some db' \<and> db_ok db' \<and> P db'" for r P
    using that agent_ok_db [OF assms] by (intro defined_ok_bind) auto
  have "?ok (mib_community_reg (ag_db st) oid n a)" "?ok (mib_user_reg (ag_db st) oid n a)" if "view_oid oid" for oid n a
    by (rule db_op [OF mib_community_reg_effect [OF db that]] db_op [OF mib_user_reg_spec [OF db that]])+
  note reg = this
  have "?ok (mib_community_unreg (ag_db st) n MIB_ACES_READ)" "?ok (mib_user_unreg (ag_db st) n MIB_ACES_READ)" for n
    by (rule db_op [OF mib_community_unreg_read [OF db]] db_op [OF mib_user_unreg_read [OF db]])+
  note unreg = this
  show "defined_ok k (smartsnmp_mib_community_reg api args st)" if "call_ok api (Call_Community_Reg args)"
    using that assms by (auto simp: smartsnmp_mib_community_reg_def intro: reg(1) split: option.splits)
  show "defined_ok k (smartsnmp_mib_user_reg api args st)" if "call_ok api (Call_User_Reg args)"
    using that assms by (auto simp: smartsnmp_mib_user_reg_def intro: reg(2) split: option.splits)
  show "defined_ok k (smartsnmp_mib_community_unreg api args st)" if "call_ok api (Call_Community_Unreg args)"
    using that assms by (auto simp: smartsnmp_mib_community_unreg_def aces_unreg_def intro: unreg(1) split: option.splits)
  show "defined_ok k (smartsnmp_mib_user_unreg api args st)" if "call_ok api (Call_User_Unreg args)"
    using that assms by (auto simp: smartsnmp_mib_user_unreg_def aces_unreg_def intro: unreg(2) split: option.splits)
qed

lemma session_calls_ok:
  assumes "agent_ok k st"
  shows "defined_ok k (smartsnmp_open lua net st)" "defined_ok k (smartsnmp_exit lua net st)"
  using assms by (simp_all add: defined_ok_def agent_ok_def smartsnmp_open_def smartsnmp_exit_def prot_open_def prot_close_def)

lemma smartsnmp_func_ok:
  assumes "agent_ok k st" "k < 43689" "call_ok api c"
  shows "defined_ok (Suc k) (smartsnmp_func api trans_init lua net c st)"
  using assms(3) unfolding smartsnmp_func_def
  by (cases c; simp only: script_call.case)
    (assumption | rule defined_ok_Suc init_ok [OF assms(1)] node_calls_ok [OF assms(1,2)] access_calls_ok [OF assms(1)] session_calls_ok [OF assms(1)])+

lemma script_ok:
  assumes "agent_ok k st" "k + length cs \<le> 43689" "list_all (call_ok api) cs"
  shows "\<exists>st'. script api trans_init lua net cs st = Some st' \<and> agent_ok (k + length cs) st'"
  using assms
proof (induction cs arbitrary: k st)
  case (Cons c cs)
  obtain res st1 where 1: "smartsnmp_func api trans_init lua net c st = Some (res, st1)" "agent_ok (Suc k) st1"
    using smartsnmp_func_ok [OF Cons.prems(1), of api c trans_init lua net] Cons.prems(2,3) by (auto simp: defined_ok_def)
  then show ?case
    using Cons.IH [OF 1(2)] Cons.prems(2,3) by auto
qed simp

lemma script_init:
  assumes "la_string api a = Some s_snmp" "la_int api b = Some port" "ag_db ag = db_init"
  shows "\<exists>res ag'. smartsnmp_init api trans_init [a, b] ag = Some (res, ag') \<and> agent_ok 0 ag' \<and> ag_db ag' = db_init"
  using assms mib_init_ok db_init_ok by (simp add: smartsnmp_init_def agent_ok_def Let_def)

section \<open>Running the agent\<close>

text \<open>The transport has its socket, and nothing is pending.\<close>

definition program_ready :: "('w, 'n, 'r, 'a) program \<Rightarrow> bool" where
  "program_ready st \<longleftrightarrow> length (el_event (pg_snmp_loop st)) = SNMP_MAX_EVENTS \<and> fd_ok (ud_sock (pg_udp st)) \<and> ud_buf (pg_udp st) = None"

abbreviation snmp_data :: "('w, 'n, 'r, 'a) program \<Rightarrow> snmp_datagram \<times> 'w" where
  "snmp_data st \<equiv> (fst (ud_agent (pg_udp st)), xs_lua (ag_session (pg_agent st)))"

text \<open>The agent has treated the datagrams of the events that took place as the abstract server does, and what it has sent and the pending answer
  are the answers of the server; if a failing \<open>sendto\<close> has ended the loop, one answer is missing.\<close>

definition run_served :: "(snmp_datagram \<times> 'w) receive \<Rightarrow> 'a tev list \<Rightarrow> ('w, 'n, 'r, 'a) program \<Rightarrow> ('w, 'n, 'r, 'a) program \<Rightarrow> bool" where
  "run_served rc es st st' \<longleftrightarrow> (\<exists>es1 out. took_place (el_start (pg_snmp_loop st')) es1 es \<and>
     serve rc (datagrams es1) (snmp_data st) = Some (snmp_data st', out) \<and>
     all_but (if el_start (pg_snmp_loop st') then 0 else 1) (ud_sent (pg_udp st) @ out)
       (ud_sent (pg_udp st') @ udp_waiting (pg_snmp_loop st', pg_udp st')))"

lemma snmpd_run_serves:
  assumes "program_ready st" "tev_allowed (Some 1) (agent_receive lua (pg_agent st)) es (snmp_data st) 0"
  shows "\<exists>st'. snmpd_run lua (map (tev_os (ud_sock (pg_udp st))) es) st = Some st' \<and> run_served (agent_receive lua (pg_agent st)) es st st' \<and>
    (\<exists>w. pg_agent st' = (pg_agent st)\<lparr>ag_session := (ag_session (pg_agent st))\<lparr>xs_lua := w\<rparr>\<rparr>)"
proof -
  let ?u = "(pg_udp st)\<lparr>ud_agent := snmp_data st\<rparr>"
  have "length (el_event (pg_snmp_loop st)) = SNMP_MAX_EVENTS" "fd_ok (ud_sock ?u)" "ud_buf ?u = None"
      "tev_allowed (Some 1) (agent_receive lua (pg_agent st)) es (ud_agent ?u) 0"
    using assms by (simp_all add: program_ready_def)
  from evloop_run [OF this] obtain el' u' es1 out where
      r: "evloop_transport_running (agent_receive lua (pg_agent st)) (map (tev_os (ud_sock (pg_udp st))) es) (pg_snmp_loop st, ?u) = Some (el', u')"
      "took_place (el_start el') es1 es" "serve (agent_receive lua (pg_agent st)) (datagrams es1) (snmp_data st) = Some (ud_agent u', out)"
      "all_but (if el_start el' then 0 else 1) (ud_sent (pg_udp st) @ out) (ud_sent u' @ udp_waiting (el', u'))"
    by auto
  let ?st = "st\<lparr>pg_snmp_loop := el', pg_udp := u', pg_agent := (pg_agent st)\<lparr>ag_session := (ag_session (pg_agent st))\<lparr>xs_lua := snd (ud_agent u')\<rparr>\<rparr>\<rparr>"
  have "snmpd_run lua (map (tev_os (ud_sock (pg_udp st))) es) st = Some ?st"
    using r(1) by (simp add: snmpd_run_def Let_def)
  moreover have "run_served (agent_receive lua (pg_agent st)) es st ?st"
    unfolding run_served_def using r(2-4) by (intro exI [of _ es1] exI [of _ out]) simp
  ultimately show ?thesis
    by auto
qed

lemma agentx_run_serves:
  assumes "length (el_event (pg_agentx_loop st)) = SNMP_MAX_EVENTS" "fd_ok (tc_sock (pg_tcp st))"
  shows "map_option (\<lambda>st'. ag_session (pg_agent st')) (agentx_run lua net rounds st) =
    x_serve lua net (length (filter (\<lambda>r. r) rounds)) (ag_session (pg_agent st))"
proof -
  let ?t = "(pg_tcp st)\<lparr>tc_session := ag_session (pg_agent st)\<rparr>"
  obtain el' where "\<And>rounds. tcp_transport_running lua net rounds (pg_agentx_loop st, ?t) =
      map_option (\<lambda>s. (el', ?t\<lparr>tc_session := s\<rparr>)) (x_serve lua net (length (filter (\<lambda>r. r) rounds)) (tc_session ?t))"
    using tcp_running [of "pg_agentx_loop st" ?t lua net] assms by auto
  then show ?thesis
    by (cases "x_serve lua net (length (filter (\<lambda>r. r) rounds)) (ag_session (pg_agent st))") (simp_all add: agentx_run_def)
qed


lemma smartsnmp_run_serves:
  assumes "ag_ops (pg_agent st) = Some Snmp_Prot" "xs_mib (ag_session (pg_agent st)) = Some root" "program_ready st"
    and "tev_allowed (Some 1) (snmpd_receive lua root (ag_db (pg_agent st))) es (snmp_data st) 0"
  shows "\<exists>st'. smartsnmp_run lua net \<lparr>ri_snmp = map (tev_os (ud_sock (pg_udp st))) es, ri_agentx = []\<rparr> st = Some (Lua_Nothing, st') \<and>
    run_served (snmpd_receive lua root (ag_db (pg_agent st))) es st st' \<and>
    xs_mib (ag_session (pg_agent st')) = Some root \<and> ag_db (pg_agent st') = ag_db (pg_agent st)"
proof -
  have rc: "agent_receive lua (pg_agent st) = snmpd_receive lua root (ag_db (pg_agent st))"
    using assms(2) by (intro ext) (simp add: agent_receive_def)
  obtain st' w where
    "snmpd_run lua (map (tev_os (ud_sock (pg_udp st))) es) st = Some st'"
    "run_served (snmpd_receive lua root (ag_db (pg_agent st))) es st st'"
    "pg_agent st' = (pg_agent st)\<lparr>ag_session := (ag_session (pg_agent st))\<lparr>xs_lua := w\<rparr>\<rparr>"
    using snmpd_run_serves [OF assms(3), of lua es, unfolded rc, OF assms(4)] by blast
  then show ?thesis
    using assms(1,2) by (intro exI [of _ st']) (simp add: smartsnmp_run_def)
qed

text \<open>C6: From the script to the network: after \<open>smartsnmp_init\<close> for SNMP, any sequence of fewer than 43690 harmless calls by a script is defined and
  keeps the MIB tree and the views well formed. Harmless calls give views of at most 1024 sub-identifiers below \<open>2 ^ 31\<close>, deregister access
  rights for reading and writing together, and do not change to AgentX. \<open>smartsnmp_run\<close> then, in any sequence of rounds in each of which a
  datagram that the agent handles arrives while no answer is pending, the socket takes or refuses the pending answer, or nothing happens, answers the datagrams
  as the abstract server does on what the script has registered, up to the one answer whose refusal by \<open>sendto\<close> has ended the loop, and leaves the
  registrations as they are.\<close>

theorem script_served:
  assumes "la_string api a = Some s_snmp" "la_int api b = Some port" "ag_db ag0 = db_init"
    and "list_all (call_ok api) cs" "length cs \<le> 43689"
  shows "\<exists>ag root. script api trans_init lua net (Call_Init [a, b] # cs) ag0 = Some ag \<and>
    xs_mib (ag_session ag) = Some root \<and> mib_ok (length cs) (Some root) \<and> db_ok (ag_db ag) \<and>
    (\<forall>st es. pg_agent st = ag \<and> program_ready st \<and> tev_allowed (Some 1) (snmpd_receive lua root (ag_db ag)) es (snmp_data st) 0 \<longrightarrow>
       (\<exists>st'. smartsnmp_run lua net \<lparr>ri_snmp = map (tev_os (ud_sock (pg_udp st))) es, ri_agentx = []\<rparr> st = Some (Lua_Nothing, st') \<and>
          run_served (snmpd_receive lua root (ag_db ag)) es st st' \<and>
          xs_mib (ag_session (pg_agent st')) = Some root \<and> ag_db (pg_agent st') = ag_db ag))"
proof -
  obtain res ag1 where 1: "smartsnmp_init api trans_init [a, b] ag0 = Some (res, ag1)" "agent_ok 0 ag1"
    using script_init [OF assms(1-3), of trans_init] by blast
  then obtain ag where ag: "script api trans_init lua net (Call_Init [a, b] # cs) ag0 = Some ag" "agent_ok (length cs) ag"
    using script_ok [OF 1(2), of cs api trans_init lua net] assms(4,5) by (auto simp: smartsnmp_func_def)
  then obtain root where root: "xs_mib (ag_session ag) = Some root"
    by (auto simp: agent_ok_def mib_ok_def split: option.splits)
  have "ag_ops ag = Some Snmp_Prot" "mib_ok (length cs) (Some root)" "db_ok (ag_db ag)"
    using ag(2) root by (simp_all add: agent_ok_def)
  then show ?thesis
    using ag(1) root smartsnmp_run_serves by metis
qed

section \<open>Examples\<close>

text \<open>A script registers a handler at 1.3 and gives the community \<open>p\<close> read access to 1.\<close>

definition example_script :: "example_value script_call list" where
  "example_script = [Call_Node_Reg [E_Table [1, 3], E_Fun], Call_Community_Reg [E_Table [1], E_Str ''p'', E_Int 1]]"

definition example_program :: "(unit, unit, int) agent \<Rightarrow> (unit, unit, int, nat) program" where
  "example_program ag = \<lparr>pg_agent = ag, pg_snmp_loop = el_zero, pg_udp = udp_4, pg_agentx_loop = el_zero,
     pg_tcp = \<lparr>tc_sock = - 1, tc_buf = None, tc_session = x_session\<rparr>\<rparr>"

lemma example_script_ok: "list_all (call_ok example_api) example_script" "length example_script \<le> 43689"
  by (simp_all add: example_script_def lua_arg_at_def lua_oid_def example_api_def view_oid_def MIB_VALUE_MAX_LEN_def small_def)

lemma example_script_run:
  "\<exists>ag. script example_api (\<lambda>_ _. 0) const_handler refusing_net (Call_Init [E_Str ''snmp'', E_Int 161] # example_script)
     (example_agent\<lparr>ag_ops := None\<rparr>) = Some ag \<and> xs_mib (ag_session ag) = Some tree1 \<and> ag_db ag = db_one \<and> xs_lua (ag_session ag) = ()"
proof -
  have o: "lua_oid example_api (E_Table [1, 3]) = [1, 3]" "lua_oid example_api (E_Table [1]) = [1]"
    by (simp_all add: lua_oid_def example_api_def)
  have api: "la_string example_api (E_Str s) = Some (map of_char s)" "la_int example_api (E_Int i) = Some i" "la_table example_api (E_Table xs)"
      "la_function example_api E_Fun" "la_ref example_api v r = (r, r + 1)" for s i xs v r
    by (simp_all add: example_api_def)
  have "mib_community_reg db_init [1] [0x70] MIB_ACES_READ = Some db_one"
    by (simp add: mib_community_reg_def principal_reg_def db_init_def principal_create_def principal_search_def view_bind_def views_of_def
        view_create_def oid_dup_def MIB_VALUE_MAX_LEN_def view_add_def view_upd_def view_at_def rd_def set_views_def db_one_def)
  then show ?thesis
    using reg_example
    by (simp add: example_script_def smartsnmp_func_def smartsnmp_init_def smartsnmp_mib_node_reg_def smartsnmp_mib_community_reg_def lua_arg_at_def
        api o s_snmp_def prot_reg_def snmpd_mib_node_reg_def aces_reg_def example_agent_def x_session_def)
qed

text \<open>From \<open>smartsnmp_init\<close> to the answer on the network.\<close>

theorem script_served_witness:
  "\<exists>ag st'. script example_api (\<lambda>_ _. 0) const_handler refusing_net (Call_Init [E_Str ''snmp'', E_Int 161] # example_script)
       (example_agent\<lparr>ag_ops := None\<rparr>) = Some ag \<and>
     smartsnmp_run const_handler refusing_net \<lparr>ri_snmp = map (tev_os 4) [Ev_In get_130 7, Ev_Out True], ri_agentx = []\<rparr> (example_program ag)
       = Some (Lua_Nothing, st') \<and>
     (el_start (pg_snmp_loop st') \<longrightarrow> ud_sent (pg_udp st') @ udp_waiting (pg_snmp_loop st', pg_udp st') = [(7, resp_130, 30)])"
proof -
  let ?es = "[Ev_In get_130 (7 :: nat), Ev_Out True]"
  have pre: "la_string example_api (E_Str ''snmp'') = Some s_snmp" "la_int example_api (E_Int 161) = Some 161"
      "ag_db (example_agent\<lparr>ag_ops := None\<rparr>) = db_init"
    by (simp_all add: example_api_def s_snmp_def example_agent_def)
  obtain ag where ag: "script example_api (\<lambda>_ _. 0) const_handler refusing_net (Call_Init [E_Str ''snmp'', E_Int 161] # example_script)
     (example_agent\<lparr>ag_ops := None\<rparr>) = Some ag" "xs_mib (ag_session ag) = Some tree1" "ag_db ag = db_one"
    using example_script_run by blast
  have st: "pg_agent (example_program ag) = ag" "program_ready (example_program ag)" "snmp_data (example_program ag) = (snmp_datagram_clear, ())"
      "ud_sock (pg_udp (example_program ag)) = 4" "ud_sent (pg_udp (example_program ag)) = []"
    by (simp_all add: example_program_def program_ready_def el_zero_length udp_4_ok fd_ok_def)
  obtain sdg where a: "trans_receive rc_130 (Some get_130) (snmp_datagram_clear, ()) = Some ((sdg, ()), Some (resp_130, 30))"
    using get_130_received by blast
  then have t: "tev_allowed (Some 1) rc_130 ?es (snmp_datagram_clear, ()) 0"
    by (simp add: answer_to_def)
  obtain root where root: "xs_mib (ag_session ag) = Some root"
      and run: "\<And>(st :: (unit, unit, int, nat) program) es. pg_agent st = ag \<and> program_ready st \<and> tev_allowed (Some 1) (snmpd_receive const_handler root (ag_db ag)) es (snmp_data st) 0 \<Longrightarrow>
       \<exists>st'. smartsnmp_run const_handler refusing_net \<lparr>ri_snmp = map (tev_os (ud_sock (pg_udp st))) es, ri_agentx = []\<rparr> st = Some (Lua_Nothing, st') \<and>
          run_served (snmpd_receive const_handler root (ag_db ag)) es st st' \<and>
          xs_mib (ag_session (pg_agent st')) = Some root \<and> ag_db (pg_agent st') = ag_db ag"
    using script_served [OF pre example_script_ok, of "\<lambda>_ _. 0" const_handler refusing_net, unfolded ag(1) option.inject]
    by (elim exE conjE) (hypsubst, rule that, assumption, blast)
  have "root = tree1"
    using root ag(2) by simp
  then obtain st' where st': "run_served rc_130 ?es (example_program ag) st'"
      "smartsnmp_run const_handler refusing_net \<lparr>ri_snmp = map (tev_os 4) ?es, ri_agentx = []\<rparr> (example_program ag) = Some (Lua_Nothing, st')"
    using run [of "example_program ag" ?es] st t ag(3) by (auto simp del: list.map)
  have "ud_sent (pg_udp st') @ udp_waiting (pg_snmp_loop st', pg_udp st') = [(7, resp_130, 30)]" if "el_start (pg_snmp_loop st')"
    using st'(1) that a st(3,5) by (auto simp: run_served_def took_place_def answer_to_def)
  then show ?thesis
    using ag(1) st'(2) by blast
qed

end
