(* ===== verification/List_Heap.thy ===== *)
theory List_Heap
  imports Prelude
begin

text \<open>
  The doubly linked lists of \<open>core/list.h\<close> on an explicit store: a node is an address, the store maps it to its \<open>next\<close> and \<open>prev\<close>
  pointers. \<open>NULL\<close> is 0 and is never in the store; following a pointer out of the store is undefined. The agent keeps
  its variable bindings, search ranges, views, communities and users in such lists, which the other theories model as HOL lists.

  The lemmas show that the operations implement the operations on HOL lists, and that other lists are not changed.
\<close>

section \<open>Definitions\<close>

type_synonym addr = nat
type_synonym heap = "addr \<rightharpoonup> addr \<times> addr"

abbreviation NULL :: addr where
  "NULL \<equiv> 0"

definition get_next :: "heap \<Rightarrow> addr \<Rightarrow> addr option" where
  "get_next h p = map_option fst (h p)"

definition get_prev :: "heap \<Rightarrow> addr \<Rightarrow> addr option" where
  "get_prev h p = map_option snd (h p)"

definition set_next :: "addr \<Rightarrow> addr \<Rightarrow> heap \<Rightarrow> heap option" where
  "set_next p v h = map_option (\<lambda>(n, q). h(p \<mapsto> (v, q))) (h p)"

definition set_prev :: "addr \<Rightarrow> addr \<Rightarrow> heap \<Rightarrow> heap option" where
  "set_prev p v h = map_option (\<lambda>(n, q). h(p \<mapsto> (n, v))) (h p)"

definition INIT_LIST_HEAD :: "addr \<Rightarrow> heap \<Rightarrow> heap option" where
  "INIT_LIST_HEAD list h = do { h1 \<leftarrow> set_prev list list h; set_next list list h1 }"

definition list_empty :: "heap \<Rightarrow> addr \<Rightarrow> bool option" where
  "list_empty h head = map_option (\<lambda>n. n = head) (get_next h head)"

definition list_is_first :: "heap \<Rightarrow> addr \<Rightarrow> addr \<Rightarrow> bool option" where
  "list_is_first h list head = map_option (\<lambda>p. p = head) (get_prev h list)"

definition list_is_last :: "heap \<Rightarrow> addr \<Rightarrow> addr \<Rightarrow> bool option" where
  "list_is_last h list head = map_option (\<lambda>n. n = head) (get_next h list)"

definition raw_list_del :: "addr \<Rightarrow> heap \<Rightarrow> heap option" where
  "raw_list_del entry h =
     do { n \<leftarrow> get_next h entry; p \<leftarrow> get_prev h entry; h1 \<leftarrow> set_prev n p h;
          p1 \<leftarrow> get_prev h1 entry; n1 \<leftarrow> get_next h1 entry; set_next p1 n1 h1 }"

definition list_del :: "addr \<Rightarrow> heap \<Rightarrow> heap option" where
  "list_del entry h = do { h1 \<leftarrow> raw_list_del entry h; h2 \<leftarrow> set_prev entry NULL h1; set_next entry NULL h2 }"

definition raw_list_add :: "addr \<Rightarrow> addr \<Rightarrow> addr \<Rightarrow> heap \<Rightarrow> heap option" where
  "raw_list_add new prev next h =
     do { h1 \<leftarrow> set_prev next new h; h2 \<leftarrow> set_next new next h1; h3 \<leftarrow> set_prev new prev h2; set_next prev new h3 }"

definition list_del_init :: "addr \<Rightarrow> heap \<Rightarrow> heap option" where
  "list_del_init entry h = do { h1 \<leftarrow> raw_list_del entry h; INIT_LIST_HEAD entry h1 }"

definition list_add :: "addr \<Rightarrow> addr \<Rightarrow> heap \<Rightarrow> heap option" where
  "list_add new head h = do { n \<leftarrow> get_next h head; raw_list_add new head n h }"

definition list_add_tail :: "addr \<Rightarrow> addr \<Rightarrow> heap \<Rightarrow> heap option" where
  "list_add_tail new head h = do { p \<leftarrow> get_prev h head; raw_list_add new p head h }"

definition list_move :: "addr \<Rightarrow> addr \<Rightarrow> heap \<Rightarrow> heap option" where
  "list_move list head h = do { h1 \<leftarrow> raw_list_del list h; list_add list head h1 }"

definition list_move_tail :: "addr \<Rightarrow> addr \<Rightarrow> heap \<Rightarrow> heap option" where
  "list_move_tail entry head h = do { h1 \<leftarrow> raw_list_del entry h; list_add_tail entry head h1 }"

definition raw_list_splice :: "addr \<Rightarrow> addr \<Rightarrow> addr \<Rightarrow> heap \<Rightarrow> heap option" where
  "raw_list_splice list prev next h =
     do { emp \<leftarrow> list_empty h list;
          if emp then Some h
          else do { first \<leftarrow> get_next h list; last \<leftarrow> get_prev h list;
                    h1 \<leftarrow> set_prev first prev h; h2 \<leftarrow> set_next prev first h1; h3 \<leftarrow> set_next last next h2; set_prev next last h3 } }"

definition list_splice :: "addr \<Rightarrow> addr \<Rightarrow> heap \<Rightarrow> heap option" where
  "list_splice list head h = do { n \<leftarrow> get_next h head; raw_list_splice list head n h }"

definition list_splice_tail :: "addr \<Rightarrow> addr \<Rightarrow> heap \<Rightarrow> heap option" where
  "list_splice_tail list head h = do { p \<leftarrow> get_prev h head; raw_list_splice list p head h }"

definition list_splice_init :: "addr \<Rightarrow> addr \<Rightarrow> heap \<Rightarrow> heap option" where
  "list_splice_init list head h = do { n \<leftarrow> get_next h head; h1 \<leftarrow> raw_list_splice list head n h; INIT_LIST_HEAD list h1 }"

definition list_splice_tail_init :: "addr \<Rightarrow> addr \<Rightarrow> heap \<Rightarrow> heap option" where
  "list_splice_tail_init list head h = do { p \<leftarrow> get_prev h head; h1 \<leftarrow> raw_list_splice list p head h; INIT_LIST_HEAD list h1 }"

text \<open>The loops, with a body that changes the store and a state. \<open>None\<close> if the loop does not end. The safe loop reads the successor
  before the body.\<close>

partial_function (option) for_each_loop ::
  "(addr \<Rightarrow> heap \<times> 's \<Rightarrow> (heap \<times> 's) option) \<Rightarrow> addr \<Rightarrow> addr \<Rightarrow> heap \<times> 's \<Rightarrow> (heap \<times> 's) option" where
  "for_each_loop body head p hs =
     (if p = head then Some hs
      else do { hs1 \<leftarrow> body p hs; n \<leftarrow> get_next (fst hs1) p; for_each_loop body head n hs1 })"

definition list_for_each :: "(addr \<Rightarrow> heap \<times> 's \<Rightarrow> (heap \<times> 's) option) \<Rightarrow> addr \<Rightarrow> heap \<times> 's \<Rightarrow> (heap \<times> 's) option" where
  "list_for_each body head hs = do { p \<leftarrow> get_next (fst hs) head; for_each_loop body head p hs }"

partial_function (option) for_each_safe_loop ::
  "(addr \<Rightarrow> heap \<times> 's \<Rightarrow> (heap \<times> 's) option) \<Rightarrow> addr \<Rightarrow> addr \<Rightarrow> addr \<Rightarrow> heap \<times> 's \<Rightarrow> (heap \<times> 's) option" where
  "for_each_safe_loop body head p n hs =
     (if p = head then Some hs
      else do { hs1 \<leftarrow> body p hs; n' \<leftarrow> get_next (fst hs1) n; for_each_safe_loop body head n n' hs1 })"

definition list_for_each_safe :: "(addr \<Rightarrow> heap \<times> 's \<Rightarrow> (heap \<times> 's) option) \<Rightarrow> addr \<Rightarrow> heap \<times> 's \<Rightarrow> (heap \<times> 's) option" where
  "list_for_each_safe body head hs =
     do { p \<leftarrow> get_next (fst hs) head; n \<leftarrow> get_next (fst hs) p; for_each_safe_loop body head p n hs }"

section \<open>Chains of nodes\<close>

text \<open>Along a chain the pointers go to the neighbours. A list with head \<open>head\<close> and nodes \<open>xs\<close> is the chain \<open>head # xs @ [head]\<close>.\<close>

fun chain :: "heap \<Rightarrow> addr list \<Rightarrow> bool" where
  "chain h (a # b # ps) \<longleftrightarrow> get_next h a = Some b \<and> get_prev h b = Some a \<and> chain h (b # ps)"
| "chain h ps \<longleftrightarrow> True"

definition dlist :: "heap \<Rightarrow> addr \<Rightarrow> addr list \<Rightarrow> bool" where
  "dlist h head xs \<longleftrightarrow> distinct (head # xs) \<and> chain h (head # xs @ [head])"

lemma chain_append: "chain h (xs @ a # ys) \<longleftrightarrow> chain h (xs @ [a]) \<and> chain h (a # ys)"
proof (induction xs rule: induct_list012)
  case (2 x)
  then show ?case
    by (cases ys) auto
next
  case (3 x y zs)
  then show ?case
    by (cases zs) auto
qed (cases ys; simp)

lemma chain_join:
  "xs \<noteq> [] \<Longrightarrow> ys \<noteq> [] \<Longrightarrow>
   chain h (xs @ ys) \<longleftrightarrow> chain h xs \<and> chain h ys \<and> get_next h (last xs) = Some (hd ys) \<and> get_prev h (hd ys) = Some (last xs)"
proof (induction xs rule: induct_list012)
  case (2 x)
  then show ?case
    by (cases ys) auto
qed auto

lemma chain_cong:
  assumes "\<And>x. x \<in> set (butlast ps) \<Longrightarrow> get_next h' x = get_next h x" "\<And>x. x \<in> set (tl ps) \<Longrightarrow> get_prev h' x = get_prev h x"
  shows "chain h' ps = chain h ps"
  using assms by (induction ps rule: induct_list012) auto

lemma chain_valid: "chain h (a # xs @ [b]) \<Longrightarrow> x \<in> set xs \<Longrightarrow> h x \<noteq> None"
proof (induction xs arbitrary: a)
  case (Cons y ys)
  then show ?case
    by (cases ys) (auto simp: get_prev_def)
qed simp

lemma dlist_valid: "dlist h head xs \<Longrightarrow> x \<in> set (head # xs) \<Longrightarrow> h x \<noteq> None"
  unfolding dlist_def by (cases xs) (auto simp: get_next_def get_prev_def dest: chain_valid)

text \<open>Reading and writing pointers.\<close>

lemma get_set [simp]:
  "set_next p v h = Some h' \<Longrightarrow> get_next h' q = (if q = p then Some v else get_next h q)"
  "set_next p v h = Some h' \<Longrightarrow> get_prev h' q = get_prev h q"
  "set_prev p v h = Some h' \<Longrightarrow> get_prev h' q = (if q = p then Some v else get_prev h q)"
  "set_prev p v h = Some h' \<Longrightarrow> get_next h' q = get_next h q"
  by (auto simp: set_next_def set_prev_def get_next_def get_prev_def split: option.splits)

lemma set_dom: "set_next p v h = Some h' \<Longrightarrow> dom h' = dom h" "set_prev p v h = Some h' \<Longrightarrow> dom h' = dom h"
  by (auto simp: set_next_def set_prev_def split: if_splits)

lemma set_defined: "p \<in> dom h \<Longrightarrow> \<exists>h'. set_next p v h = Some h' \<and> dom h' = dom h" "p \<in> dom h \<Longrightarrow> \<exists>h'. set_prev p v h = Some h' \<and> dom h' = dom h"
  by (auto simp: set_next_def set_prev_def)

section \<open>The primitive operations on chains\<close>

text \<open>What the two primitives do to the pointers.\<close>

definition added :: "addr \<Rightarrow> addr \<Rightarrow> addr \<Rightarrow> heap \<Rightarrow> heap \<Rightarrow> bool" where
  "added new p n h h' \<longleftrightarrow> dom h' = dom h \<and>
     (\<forall>q. get_next h' q = (if q = p then Some new else if q = new then Some n else get_next h q)) \<and>
     (\<forall>q. get_prev h' q = (if q = new then Some p else if q = n then Some new else get_prev h q))"

definition removed :: "addr \<Rightarrow> addr \<Rightarrow> heap \<Rightarrow> heap \<Rightarrow> bool" where
  "removed p n h h' \<longleftrightarrow> dom h' = dom h \<and>
     (\<forall>q. get_next h' q = (if q = p then Some n else get_next h q)) \<and> (\<forall>q. get_prev h' q = (if q = n then Some p else get_prev h q))"

lemma raw_list_add_added:
  assumes "{new, p, n} \<subseteq> dom h"
  shows "\<exists>h'. raw_list_add new p n h = Some h' \<and> added new p n h h'"
proof -
  obtain h1 where 1: "set_prev n new h = Some h1" "dom h1 = dom h"
    using set_defined(2) [of n h new] assms by auto
  obtain h2 where 2: "set_next new n h1 = Some h2" "dom h2 = dom h1"
    using set_defined(1) [of new h1 n] assms 1(2) by auto
  obtain h3 where 3: "set_prev new p h2 = Some h3" "dom h3 = dom h2"
    using set_defined(2) [of new h2 p] assms 1(2) 2(2) by auto
  obtain h4 where 4: "set_next p new h3 = Some h4" "dom h4 = dom h3"
    using set_defined(1) [of p h3 new] assms 1(2) 2(2) 3(2) by auto
  show ?thesis
    using 1 2 3 4 by (simp add: raw_list_add_def added_def)
qed

lemma raw_list_del_removed:
  assumes "get_next h e = Some n" "get_prev h e = Some p" "{p, n} \<subseteq> dom h" "e \<noteq> n"
  shows "\<exists>h'. raw_list_del e h = Some h' \<and> removed p n h h'"
proof -
  obtain h1 where 1: "set_prev n p h = Some h1" "dom h1 = dom h"
    using set_defined(2) [of n h p] assms(3) by auto
  obtain h2 where 2: "set_next p n h1 = Some h2" "dom h2 = dom h1"
    using set_defined(1) [of p h1 n] assms(3) 1(2) by auto
  show ?thesis
    using 1 2 assms(1,2,4) by (simp add: raw_list_del_def removed_def)
qed

text \<open>A chain in which no node has two successors or two predecessors.\<close>

definition cyc :: "heap \<Rightarrow> addr list \<Rightarrow> bool" where
  "cyc h ps \<longleftrightarrow> chain h ps \<and> distinct (butlast ps) \<and> distinct (tl ps)"

lemma dlist_cyc: "dlist h head xs \<longleftrightarrow> cyc h (head # xs @ [head])"
  by (auto simp: dlist_def cyc_def butlast_append)

lemma cyc_split:
  assumes "cyc h (A @ p # n # B)"
  shows "p \<notin> set A" "n \<notin> set B" "n \<notin> set (tl (A @ [p]))" "p \<notin> set (butlast (n # B))"
  using assms by (cases A; auto simp: cyc_def butlast_append split: if_splits)+

lemma cyc_added:
  assumes "cyc h (A @ p # n # B)" "added new p n h h'" "new \<notin> set (A @ p # n # B)"
  shows "cyc h' (A @ p # new # n # B)"
proof -
  note s = cyc_split [OF assms(1)]
  have c: "chain h (A @ [p])" "chain h (n # B)"
    using assms(1) chain_append [of h A p "n # B"] by (auto simp: cyc_def)
  have t: "set (tl (A @ [p])) \<subseteq> set (A @ [p])" "set (butlast (n # B)) \<subseteq> set (n # B)"
    by (cases A; auto) (meson in_set_butlastD list.set_intros set_ConsD subsetI)
  have "chain h' (A @ [p]) = chain h (A @ [p])"
    by (rule chain_cong) (use s t assms(2,3) in \<open>auto simp: added_def\<close>)
  moreover have "chain h' (n # B) = chain h (n # B)"
    by (rule chain_cong) (use s t assms(2,3) in \<open>auto simp: added_def\<close>)
  moreover note c
  moreover have "chain h' [p, new]" "chain h' [new, n]"
    using assms(2,3) by (auto simp: added_def)
  ultimately have "chain h' (A @ p # new # n # B)"
    using chain_append [of h' A p "new # n # B"] by simp
  moreover have "distinct (butlast (A @ p # new # n # B))" "distinct (tl (A @ p # new # n # B))"
    using assms(1,3) by (cases A; auto simp: cyc_def butlast_append dest: in_set_butlastD)+
  ultimately show ?thesis
    by (simp add: cyc_def)
qed

lemma cyc_removed:
  assumes "cyc h (A @ p # e # n # B)" "removed p n h h'"
  shows "cyc h' (A @ p # n # B)"
proof -
  have "cyc h ((A @ [p]) @ e # n # B)"
    using assms(1) by simp
  note s = cyc_split [OF assms(1)] cyc_split [OF this]
  have c: "chain h (A @ [p])" "chain h (n # B)"
    using assms(1) chain_append [of h A p "e # n # B"] by (auto simp: cyc_def)
  have "chain h' (A @ [p]) = chain h (A @ [p])"
    by (rule chain_cong) (use s assms(2) in \<open>auto simp: removed_def tl_append split: list.splits\<close>)
  moreover have "chain h' (n # B) = chain h (n # B)"
    by (rule chain_cong) (use s assms(2) in \<open>auto simp: removed_def split: if_splits\<close>)
  moreover note c
  moreover have "chain h' [p, n]"
    using assms(2) by (auto simp: removed_def)
  ultimately have "chain h' (A @ p # n # B)"
    using chain_append [of h' A p "n # B"] by simp
  moreover have "distinct (butlast (A @ p # n # B))" "distinct (tl (A @ p # n # B))"
    using assms(1) by (cases A; auto simp: cyc_def butlast_append split: if_splits)+
  ultimately show ?thesis
    by (simp add: cyc_def)
qed

section \<open>The operations on lists\<close>

text \<open>Nodes outside \<open>S\<close> keep their pointers.\<close>

definition frame :: "addr set \<Rightarrow> heap \<Rightarrow> heap \<Rightarrow> bool" where
  "frame S h h' \<longleftrightarrow> dom h' = dom h \<and> (\<forall>q. q \<notin> S \<longrightarrow> h' q = h q)"

lemma node_eqI: "get_next h' q = get_next h q \<Longrightarrow> get_prev h' q = get_prev h q \<Longrightarrow> h' q = h q"
  by (cases "h q"; cases "h' q") (auto simp: get_next_def get_prev_def)

lemma added_frame: "added new p n h h' \<Longrightarrow> frame {new, p, n} h h'"
  by (auto simp: added_def frame_def intro!: node_eqI)

lemma removed_frame: "removed p n h h' \<Longrightarrow> frame {p, n} h h'"
  by (auto simp: removed_def frame_def intro!: node_eqI)

lemma frame_mono: "frame S h h' \<Longrightarrow> S \<subseteq> T \<Longrightarrow> frame T h h'"
  by (auto simp: frame_def)

lemma frame_trans: "frame S h h' \<Longrightarrow> frame S h' h'' \<Longrightarrow> frame S h h''"
  by (auto simp: frame_def)

lemma frame_set: "set_next p v h = Some h' \<Longrightarrow> frame {p} h h'" "set_prev p v h = Some h' \<Longrightarrow> frame {p} h h'"
  by (auto simp: frame_def set_dom intro!: node_eqI)

lemma dlist_frame:
  assumes "dlist h head xs" "frame S h h'" "S \<inter> set (head # xs) = {}"
  shows "dlist h' head xs"
proof -
  have "h' q = h q" if "q \<in> set (head # xs)" for q
    using assms(2,3) that by (auto simp: frame_def)
  then have "chain h' (head # xs @ [head]) = chain h (head # xs @ [head])"
    by (intro chain_cong) (auto simp: get_next_def get_prev_def butlast_append)
  then show ?thesis
    using assms(1) by (simp add: dlist_def)
qed

lemma dlist_ends:
  assumes "dlist h head xs"
  shows "get_next h head = Some (hd (xs @ [head]))" "get_prev h head = Some (last (head # xs))" "set (head # xs) \<subseteq> dom h"
proof -
  have c: "chain h (head # xs @ [head])"
    using assms by (simp add: dlist_def)
  then show "get_next h head = Some (hd (xs @ [head]))"
    by (cases xs) auto
  have "chain h (butlast (head # xs) @ last (head # xs) # [head])"
    using c by (metis append_butlast_last_id append_Cons append.assoc append_Nil list.distinct(1))
  then show "get_prev h head = Some (last (head # xs))"
    using chain_append [of h "butlast (head # xs)" "last (head # xs)" "[head]"] by simp
  show "set (head # xs) \<subseteq> dom h"
    using dlist_valid [OF assms] by (auto simp: dom_def)
qed

text \<open>The gap between two parts of a list.\<close>

lemma list_gap:
  obtains A p n B where "head # xs = A @ [p]" "ys @ [head] = n # B" "last (head # xs) = p" "hd (ys @ [head]) = n"
    "p \<in> set (head # xs)" "n \<in> set (head # ys)"
proof -
  obtain A p where A: "head # xs = A @ [p]"
    by (cases xs rule: rev_cases) auto
  obtain n B where B: "ys @ [head] = n # B"
    by (cases ys) auto
  have "p \<in> set (head # xs)" "n \<in> set (ys @ [head])"
    unfolding A B by simp_all
  then show thesis
    using that [OF A B] A B by (metis Un_insert_right append.right_neutral last_snoc list.sel(1) list.set(1) list.simps(15) set_append)
qed

lemma raw_list_add_dlist:
  assumes "dlist h head (xs @ ys)" "new \<in> dom h" "new \<notin> set (head # xs @ ys)"
  shows "\<exists>h'. raw_list_add new (last (head # xs)) (hd (ys @ [head])) h = Some h' \<and> dlist h' head (xs @ new # ys)
    \<and> frame (set (new # head # xs @ ys)) h h'"
proof -
  obtain A p n B where g: "head # xs = A @ [p]" "ys @ [head] = n # B" "last (head # xs) = p" "hd (ys @ [head]) = n"
      "p \<in> set (head # xs)" "n \<in> set (head # ys)"
    by (rule list_gap)
  have "head # (xs @ ys) @ [head] = (head # xs) @ ys @ [head]" "head # (xs @ new # ys) @ [head] = (head # xs) @ new # ys @ [head]"
    by simp_all
  then have path: "head # (xs @ ys) @ [head] = A @ p # n # B" "head # (xs @ new # ys) @ [head] = A @ p # new # n # B"
    unfolding g(1,2) by simp_all
  have sub: "{new, p, n} \<subseteq> set (new # head # xs @ ys)"
    using g(5,6) by auto
  then have "{new, p, n} \<subseteq> dom h"
    using dlist_ends(3) [OF assms(1)] assms(2) by auto
  from raw_list_add_added [OF this] obtain h' where h': "raw_list_add new p n h = Some h'" "added new p n h h'"
    by blast
  have "set (A @ p # n # B) = set (head # xs @ ys)"
    unfolding path(1) [symmetric] by auto
  then have "cyc h' (A @ p # new # n # B)"
    using assms(1,3) unfolding dlist_cyc path(1) by (intro cyc_added [OF _ h'(2)]) simp_all
  then show ?thesis
    using h' frame_mono [OF added_frame [OF h'(2)] sub] unfolding dlist_cyc path(2) g(3,4) by blast
qed

lemma raw_list_del_dlist:
  assumes "dlist h head (xs @ e # ys)"
  shows "\<exists>h'. raw_list_del e h = Some h' \<and> dlist h' head (xs @ ys) \<and> h' e = h e \<and> frame (set (head # xs @ ys)) h h'"
proof -
  obtain A p n B where g: "head # xs = A @ [p]" "ys @ [head] = n # B" "p \<in> set (head # xs)" "n \<in> set (head # ys)"
    by (rule list_gap)
  have "head # (xs @ ys) @ [head] = (head # xs) @ ys @ [head]" "head # (xs @ e # ys) @ [head] = (head # xs) @ e # ys @ [head]"
    by simp_all
  then have path: "head # (xs @ ys) @ [head] = A @ p # n # B" "head # (xs @ e # ys) @ [head] = A @ p # e # n # B"
    unfolding g(1,2) by simp_all
  have sub: "{p, n} \<subseteq> set (head # xs @ ys)"
    using g(3,4) by auto
  have c: "cyc h (A @ p # e # n # B)"
    using assms unfolding dlist_cyc path(2) .
  then have ptr: "get_next h e = Some n" "get_prev h e = Some p"
    using chain_append [of h A p "e # n # B"] by (simp_all add: cyc_def)
  have "e \<notin> {p, n}"
    using assms sub by (auto simp: dlist_def)
  moreover have "{p, n} \<subseteq> dom h"
    using sub dlist_ends(3) [OF assms] by auto
  ultimately obtain h' where h': "raw_list_del e h = Some h'" "removed p n h h'"
    using raw_list_del_removed [OF ptr] by blast
  have "cyc h' (A @ p # n # B)"
    by (rule cyc_removed [OF c h'(2)])
  moreover have "h' e = h e"
    using removed_frame [OF h'(2)] \<open>e \<notin> {p, n}\<close> by (simp add: frame_def)
  ultimately show ?thesis
    using h'(1) frame_mono [OF removed_frame [OF h'(2)] sub] unfolding dlist_cyc path(1) by blast
qed

lemma INIT_LIST_HEAD_dlist:
  assumes "p \<in> dom h"
  shows "\<exists>h'. INIT_LIST_HEAD p h = Some h' \<and> dlist h' p [] \<and> frame {p} h h'"
proof -
  obtain h1 where 1: "set_prev p p h = Some h1" "dom h1 = dom h"
    using set_defined(2) [OF assms, of p] by auto
  then obtain h2 where 2: "set_next p p h1 = Some h2"
    using set_defined(1) [of p h1 p] assms by auto
  show ?thesis
    using 1 2 frame_trans [OF frame_set(2) [OF 1(1)] frame_set(1) [OF 2]] by (simp add: INIT_LIST_HEAD_def dlist_def)
qed

lemma list_add_dlist:
  assumes "dlist h head xs" "new \<in> dom h" "new \<notin> set (head # xs)"
  shows "\<exists>h'. list_add new head h = Some h' \<and> dlist h' head (new # xs) \<and> frame (set (new # head # xs)) h h'"
    "\<exists>h'. list_add_tail new head h = Some h' \<and> dlist h' head (xs @ [new]) \<and> frame (set (new # head # xs)) h h'"
  using raw_list_add_dlist [of h head "[]" xs new] raw_list_add_dlist [of h head xs "[]" new] dlist_ends(1,2) [OF assms(1)] assms
  by (auto simp: list_add_def list_add_tail_def)

lemma list_del_dlist:
  assumes "dlist h head (xs @ e # ys)"
  shows "\<exists>h'. list_del e h = Some h' \<and> dlist h' head (xs @ ys) \<and> h' e = Some (NULL, NULL) \<and> frame (set (head # xs @ e # ys)) h h'"
proof -
  obtain h1 where 1: "raw_list_del e h = Some h1" "dlist h1 head (xs @ ys)" "frame (set (head # xs @ ys)) h h1"
    using raw_list_del_dlist [OF assms] by blast
  have "e \<in> dom h1"
    using 1(3) dlist_ends(3) [OF assms] by (simp add: frame_def)
  then obtain h2 where 2: "set_prev e NULL h1 = Some h2" "dom h2 = dom h1"
    using set_defined(2) by blast
  then obtain h3 where 3: "set_next e NULL h2 = Some h3"
    using set_defined(1) \<open>e \<in> dom h1\<close> by blast
  have f: "frame {e} h1 h3"
    by (rule frame_trans [OF frame_set(2) [OF 2(1)] frame_set(1) [OF 3]])
  have "get_next h3 e = Some NULL" "get_prev h3 e = Some NULL"
    using 2(1) 3 by simp_all
  then have "h3 e = Some (NULL, NULL)"
    by (cases "h3 e") (auto simp: get_next_def get_prev_def)
  moreover have "dlist h3 head (xs @ ys)"
    by (rule dlist_frame [OF 1(2) f]) (use assms in \<open>auto simp: dlist_def\<close>)
  moreover have "frame (set (head # xs @ e # ys)) h h3"
    by (rule frame_trans [OF frame_mono [OF 1(3)] frame_mono [OF f]]) auto
  ultimately show ?thesis
    using 1(1) 2(1) 3 by (simp add: list_del_def)
qed

lemma list_del_init_dlist:
  assumes "dlist h head (xs @ e # ys)"
  shows "\<exists>h'. list_del_init e h = Some h' \<and> dlist h' head (xs @ ys) \<and> dlist h' e [] \<and> frame (set (head # xs @ e # ys)) h h'"
proof -
  obtain h1 where 1: "raw_list_del e h = Some h1" "dlist h1 head (xs @ ys)" "frame (set (head # xs @ ys)) h h1"
    using raw_list_del_dlist [OF assms] by blast
  have "e \<in> dom h1"
    using 1(3) dlist_ends(3) [OF assms] by (simp add: frame_def)
  then obtain h2 where 2: "INIT_LIST_HEAD e h1 = Some h2" "dlist h2 e []" "frame {e} h1 h2"
    using INIT_LIST_HEAD_dlist by blast
  have "dlist h2 head (xs @ ys)"
    by (rule dlist_frame [OF 1(2) 2(3)]) (use assms in \<open>auto simp: dlist_def\<close>)
  moreover have "frame (set (head # xs @ e # ys)) h h2"
    by (rule frame_trans [OF frame_mono [OF 1(3)] frame_mono [OF 2(3)]]) auto
  ultimately show ?thesis
    using 1(1) 2(1,2) by (simp add: list_del_init_def)
qed

text \<open>Moving a node to the front or the end of another list.\<close>

lemma list_move_dlist:
  assumes "dlist h a (xs @ e # ys)" "dlist h b zs" "set (a # xs @ e # ys) \<inter> set (b # zs) = {}"
  defines "nodes \<equiv> set (a # xs @ e # ys) \<union> set (b # zs)"
  shows "\<exists>h'. list_move e b h = Some h' \<and> dlist h' a (xs @ ys) \<and> dlist h' b (e # zs) \<and> frame nodes h h'"
    "\<exists>h'. list_move_tail e b h = Some h' \<and> dlist h' a (xs @ ys) \<and> dlist h' b (zs @ [e]) \<and> frame nodes h h'"
proof -
  obtain h1 where 1: "raw_list_del e h = Some h1" "dlist h1 a (xs @ ys)" "frame (set (a # xs @ ys)) h h1"
    using raw_list_del_dlist [OF assms(1)] by blast
  have b: "dlist h1 b zs"
    by (rule dlist_frame [OF assms(2) 1(3)]) (use assms(3) in auto)
  have e: "e \<in> dom h1" "e \<notin> set (b # zs)"
    using 1(3) dlist_ends(3) [OF assms(1)] assms(3) by (auto simp: frame_def)
  have "set (e # b # zs) \<inter> set (a # xs @ ys) = {}"
    using assms(1,3) by (auto simp: dlist_def)
  note f = dlist_frame [OF 1(2) _ this]
  have n: "frame nodes h h'" if "frame (set (e # b # zs)) h1 h'" for h'
    by (rule frame_trans [OF frame_mono [OF 1(3)] frame_mono [OF that]]) (auto simp: nodes_def)
  show "\<exists>h'. list_move e b h = Some h' \<and> dlist h' a (xs @ ys) \<and> dlist h' b (e # zs) \<and> frame nodes h h'"
    using list_add_dlist(1) [OF b e] f n 1(1) by (fastforce simp: list_move_def)
  show "\<exists>h'. list_move_tail e b h = Some h' \<and> dlist h' a (xs @ ys) \<and> dlist h' b (zs @ [e]) \<and> frame nodes h h'"
    using list_add_dlist(2) [OF b e] f n 1(1) by (fastforce simp: list_move_tail_def)
qed

text \<open>Joining two lists: the nodes of the first go into the gap of the second.\<close>

text \<open>Splicing \<open>xs\<close> in between \<open>p\<close> and \<open>n\<close> of a cycle, by the four pointers it changes.\<close>

lemma splice_chain:
  assumes "cyc h (A @ p # n # B)" "chain h xs" "distinct xs" "xs \<noteq> []" "set xs \<inter> set (A @ p # n # B) = {}"
    and nx: "\<And>q. get_next h' q = (if q = last xs then Some n else if q = p then Some (hd xs) else get_next h q)"
    and pv: "\<And>q. get_prev h' q = (if q = n then Some (last xs) else if q = hd xs then Some p else get_prev h q)"
  shows "chain h' ((A @ [p]) @ xs @ n # B)"
proof -
  note sp = cyc_split [OF assms(1)]
  have fl: "hd xs \<in> set xs" "last xs \<in> set xs"
    using assms(4) by simp_all
  then have out: "last xs \<notin> set (A @ p # n # B)" "hd xs \<notin> set (A @ p # n # B)" "p \<notin> set xs" "n \<notin> set xs"
    using assms(5) by auto
  have t: "set (tl (A @ [p])) \<subseteq> set (A @ [p])" "set (butlast (n # B)) \<subseteq> set (n # B)"
    by (cases A; auto) (meson in_set_butlastD list.set_intros set_ConsD subsetI)
  have "chain h' (A @ [p]) = chain h (A @ [p])" "chain h' (n # B) = chain h (n # B)"
    by (rule chain_cong; use sp t out nx pv in auto)+
  moreover have "chain h (A @ [p])" "chain h (n # B)"
    using assms(1) chain_append [of h A p "n # B"] by (auto simp: cyc_def)
  moreover have "chain h' xs"
  proof -
    have "last xs \<notin> set (butlast xs)" "hd xs \<notin> set (tl xs)"
      using assms(3,4) append_butlast_last_id [OF assms(4)] list.collapse [OF assms(4)]
      by (metis distinct_append disjoint_insert(2) list.set(2), metis distinct.simps(2))
    then have "chain h' xs = chain h xs"
      using out(3,4) by (intro chain_cong) (auto simp: nx pv dest: in_set_butlastD list.set_sel(2) [OF assms(4)])
    then show ?thesis
      using assms(2) by simp
  qed
  moreover have "get_next h' p = Some (hd xs)" "get_prev h' (hd xs) = Some p" "get_next h' (last xs) = Some n" "get_prev h' n = Some (last xs)"
    using nx pv fl out by auto
  ultimately show ?thesis
    using assms(4) by (simp add: chain_join del: append_assoc)
qed

lemma splice_frame:
  assumes "set_prev f p h = Some h1" "set_next p f h1 = Some h2" "set_next l n h2 = Some h3" "set_prev n l h3 = Some h'" "{f, p, l, n} \<subseteq> S"
  shows "frame S h h'"
proof -
  have "{f} \<subseteq> S" "{p} \<subseteq> S" "{l} \<subseteq> S" "{n} \<subseteq> S"
    using assms(5) by auto
  note m = frame_mono [OF frame_set(2) [OF assms(1)] this(1)] frame_mono [OF frame_set(1) [OF assms(2)] this(2)]
    frame_mono [OF frame_set(1) [OF assms(3)] this(3)] frame_mono [OF frame_set(2) [OF assms(4)] this(4)]
  show ?thesis
    by (rule frame_trans [OF frame_trans [OF frame_trans [OF m(1,2)] m(3)] m(4)])
qed

lemma raw_list_splice_dlist:
  assumes "dlist h a xs" "dlist h b (ys @ zs)" "set (a # xs) \<inter> set (b # ys @ zs) = {}"
  shows "\<exists>h'. raw_list_splice a (last (b # ys)) (hd (zs @ [b])) h = Some h' \<and> dlist h' b (ys @ xs @ zs) \<and> frame (set (b # xs @ ys @ zs)) h h'"
proof (cases "xs = []")
  case True
  then show ?thesis
    using assms(2) dlist_ends(1) [OF assms(1)] by (simp add: raw_list_splice_def list_empty_def frame_def)
next
  case False
  then have fl: "hd xs \<in> set xs" "last xs \<in> set xs"
    by simp_all
  obtain A p n B where g: "b # ys = A @ [p]" "zs @ [b] = n # B" "last (b # ys) = p" "hd (zs @ [b]) = n"
      "p \<in> set (b # ys)" "n \<in> set (b # zs)"
    by (rule list_gap)
  have "b # (ys @ zs) @ [b] = (b # ys) @ zs @ [b]" "b # (ys @ xs @ zs) @ [b] = (b # ys) @ xs @ zs @ [b]"
    by simp_all
  then have path: "b # (ys @ zs) @ [b] = A @ p # n # B" "b # (ys @ xs @ zs) @ [b] = A @ p # xs @ n # B"
    unfolding g(1,2) by simp_all
  have ends: "get_next h a = Some (hd xs)" "get_prev h a = Some (last xs)" "hd xs \<noteq> a"
    using dlist_ends(1,2) [OF assms(1)] False assms(1) fl by (auto simp: dlist_def)
  have "hd xs \<in> dom h" "last xs \<in> dom h" "p \<in> dom h" "n \<in> dom h"
    using dlist_ends(3) [OF assms(1)] dlist_ends(3) [OF assms(2)] fl g(5,6) by auto
  then obtain h1 h2 h3 h' where s: "set_prev (hd xs) p h = Some h1" "set_next p (hd xs) h1 = Some h2" "set_next (last xs) n h2 = Some h3"
      "set_prev n (last xs) h3 = Some h'"
    by (metis set_defined)
  have "set (A @ p # n # B) = set (b # ys @ zs)"
    unfolding path(1) [symmetric] by auto
  then have dis: "set xs \<inter> set (A @ p # n # B) = {}"
    using assms(3) by auto
  have "cyc h (A @ p # n # B)"
    using assms(2) unfolding dlist_cyc path(1) .
  moreover have "distinct xs" "chain h xs"
    using assms(1) chain_join [of "[a]" "xs @ [a]" h] chain_join [of xs "[a]" h] False by (auto simp: dlist_def)
  ultimately have "chain h' ((A @ [p]) @ xs @ n # B)"
    using s dis False by (intro splice_chain [of h A p n B xs h']) simp_all
  moreover have "distinct (b # ys @ xs @ zs)"
    using assms by (auto simp: dlist_def)
  ultimately have "dlist h' b (ys @ xs @ zs)"
    using path(2) by (simp add: dlist_def)
  moreover have "frame (set (b # xs @ ys @ zs)) h h'"
    by (rule splice_frame [OF s]) (use fl g(5,6) in auto)
  ultimately show ?thesis
    using ends s unfolding g(3,4) by (simp add: raw_list_splice_def list_empty_def)
qed

lemma list_splice_dlist:
  assumes "dlist h a xs" "dlist h b ys" "set (a # xs) \<inter> set (b # ys) = {}"
  defines "nodes \<equiv> set (b # xs @ ys)"
  shows "\<exists>h'. list_splice a b h = Some h' \<and> dlist h' b (xs @ ys) \<and> frame nodes h h'"
    "\<exists>h'. list_splice_tail a b h = Some h' \<and> dlist h' b (ys @ xs) \<and> frame nodes h h'"
    "\<exists>h'. list_splice_init a b h = Some h' \<and> dlist h' b (xs @ ys) \<and> dlist h' a [] \<and> frame (insert a nodes) h h'"
    "\<exists>h'. list_splice_tail_init a b h = Some h' \<and> dlist h' b (ys @ xs) \<and> dlist h' a [] \<and> frame (insert a nodes) h h'"
proof -
  obtain h1 where 1: "raw_list_splice a b (hd (ys @ [b])) h = Some h1" "dlist h1 b (xs @ ys)" "frame nodes h h1"
    using raw_list_splice_dlist [of h a xs b "[]" ys] assms by auto
  obtain h2 where 2: "raw_list_splice a (last (b # ys)) b h = Some h2" "dlist h2 b (ys @ xs)" "frame nodes h h2"
    using raw_list_splice_dlist [of h a xs b ys "[]"] assms by auto
  note e = dlist_ends(1,2) [OF assms(2)]
  show "\<exists>h'. list_splice a b h = Some h' \<and> dlist h' b (xs @ ys) \<and> frame nodes h h'"
    unfolding list_splice_def e using 1 by simp
  show "\<exists>h'. list_splice_tail a b h = Some h' \<and> dlist h' b (ys @ xs) \<and> frame nodes h h'"
    unfolding list_splice_tail_def e using 2 by simp
  have a: "a \<in> dom h1" "a \<in> dom h2" "{a} \<inter> set (b # xs @ ys) = {}" "{a} \<inter> set (b # ys @ xs) = {}"
    using dlist_ends(3) [OF assms(1)] 1(3) 2(3) assms(1,3) by (auto simp: frame_def dlist_def)
  from INIT_LIST_HEAD_dlist [OF a(1)] obtain h3 where 3: "INIT_LIST_HEAD a h1 = Some h3" "dlist h3 a []" "frame {a} h1 h3"
    by blast
  from INIT_LIST_HEAD_dlist [OF a(2)] obtain h4 where 4: "INIT_LIST_HEAD a h2 = Some h4" "dlist h4 a []" "frame {a} h2 h4"
    by blast
  have f: "frame (insert a nodes) h h'" if "frame nodes h h0" "frame {a} h0 h'" for h0 h'
    by (rule frame_trans [OF frame_mono [OF that(1)] frame_mono [OF that(2)]]) auto
  show "\<exists>h'. list_splice_init a b h = Some h' \<and> dlist h' b (xs @ ys) \<and> dlist h' a [] \<and> frame (insert a nodes) h h'"
    unfolding list_splice_init_def e using 1(1) 3(1,2) dlist_frame [OF 1(2) 3(3) a(3)] f [OF 1(3) 3(3)] by simp
  show "\<exists>h'. list_splice_tail_init a b h = Some h' \<and> dlist h' b (ys @ xs) \<and> dlist h' a [] \<and> frame (insert a nodes) h h'"
    unfolding list_splice_tail_init_def e using 2(1) 4(1,2) dlist_frame [OF 2(2) 4(3) a(4)] f [OF 2(3) 4(3)] by simp
qed

section \<open>The loops\<close>

text \<open>A loop whose body leaves the store alone runs through the nodes in order; so it ends.\<close>

lemma for_each_loop_fold:
  assumes "chain h (xs @ [head])" "head \<notin> set xs"
  shows "for_each_loop (\<lambda>p (h, s). Some (h, f p s)) head (hd (xs @ [head])) (h, s) = Some (h, fold f xs s)"
  using assms
proof (induction xs arbitrary: s)
  case Nil
  show ?case
    by (subst for_each_loop.simps) simp
next
  case (Cons x xs)
  then have "get_next h x = Some (hd (xs @ [head]))" "chain h (xs @ [head])" "head \<notin> set xs" "x \<noteq> head"
    by (cases xs; auto)+
  with Cons.IH show ?case
    by (subst for_each_loop.simps) simp
qed

lemma list_for_each_fold:
  assumes "dlist h head xs"
  shows "list_for_each (\<lambda>p (h, s). Some (h, f p s)) head (h, s) = Some (h, fold f xs s)"
proof -
  have "chain h (xs @ [head])" "head \<notin> set xs"
    using assms by (cases xs; auto simp: dlist_def)+
  then show ?thesis
    using dlist_ends(1) [OF assms] by (simp add: list_for_each_def for_each_loop_fold)
qed

text \<open>The loop that empties a list (\<open>list_del\<close> and \<open>free\<close> of every node): a freed node is no longer in the store.\<close>

definition del_free :: "addr \<Rightarrow> heap \<times> addr list \<Rightarrow> (heap \<times> addr list) option" where
  "del_free p hs = do { h' \<leftarrow> list_del p (fst hs); Some (h'(p := None), snd hs @ [p]) }"

lemma dlist_free: "dlist h head xs \<Longrightarrow> p \<notin> set (head # xs) \<Longrightarrow> dlist (h(p := None)) head xs"
proof -
  assume a: "dlist h head xs" "p \<notin> set (head # xs)"
  then have "chain (h(p := None)) (head # xs @ [head]) = chain h (head # xs @ [head])"
    by (intro chain_cong) (auto simp: get_next_def get_prev_def butlast_append)
  with a(1) show ?thesis
    by (simp add: dlist_def)
qed

lemma for_each_safe_del:
  assumes "dlist h head xs" "get_next h (hd (xs @ [head])) = Some n"
  shows "\<exists>h'. for_each_safe_loop del_free head (hd (xs @ [head])) n (h, s) = Some (h', s @ xs) \<and> dlist h' head [] \<and> dom h' = dom h - set xs
    \<and> (\<forall>q. q \<notin> set (head # xs) \<longrightarrow> h' q = h q)"
  using assms
proof (induction xs arbitrary: h s n)
  case Nil
  then show ?case
    by (subst for_each_safe_loop.simps) auto
next
  case (Cons x xs)
  obtain h1 where 1: "list_del x h = Some h1" "dlist h1 head xs" "frame (set (head # x # xs)) h h1"
    using list_del_dlist [of h head "[]" x xs] Cons.prems(1) by auto
  have x: "x \<noteq> head" "x \<notin> set xs"
    using Cons.prems(1) by (auto simp: dlist_def)
  let ?h = "h1(x := None)"
  have d: "dlist ?h head xs"
    using x by (intro dlist_free [OF 1(2)]) simp
  have n: "n = hd (xs @ [head])"
    using Cons.prems by (cases xs) (auto simp: dlist_def)
  then have "n \<in> dom ?h"
    using dlist_ends(3) [OF d] by (cases xs) auto
  then obtain n' where n': "get_next ?h n = Some n'"
    by (auto simp: get_next_def)
  obtain h' where h': "for_each_safe_loop del_free head n n' (?h, s @ [x]) = Some (h', (s @ [x]) @ xs)" "dlist h' head []"
      "dom h' = dom ?h - set xs" "\<And>q. q \<notin> set (head # xs) \<Longrightarrow> h' q = ?h q"
    using Cons.IH [OF d, of n' "s @ [x]"] n' unfolding n by blast
  have "for_each_safe_loop del_free head x n (h, s) = Some (h', s @ x # xs)"
    using x(1) 1(1) n' h'(1) by (subst for_each_safe_loop.simps) (simp add: del_free_def)
  moreover have "dom h' = dom h - set (x # xs)"
    using h'(3) 1(3) x(2) by (auto simp: frame_def)
  moreover have "h' q = h q" if "q \<notin> set (head # x # xs)" for q
    using h'(4) that 1(3) by (auto simp: frame_def)
  ultimately show ?case
    using h'(2) by auto
qed

section \<open>The interface the agent uses\<close>

text \<open>The agent builds a list with \<open>list_add_tail\<close>, runs through it, and empties it.\<close>

primrec add_all :: "('p \<Rightarrow> 'p \<Rightarrow> 'h \<Rightarrow> 'h option) \<Rightarrow> 'p \<Rightarrow> 'p list \<Rightarrow> 'h \<Rightarrow> 'h option" where
  "add_all add p [] h = Some h"
| "add_all add p (q # qs) h = do { h' \<leftarrow> add q p h; add_all add p qs h' }"

locale list_interface =
  fixes repr :: "'h \<Rightarrow> 'p \<Rightarrow> 'p list \<Rightarrow> bool" and nodes :: "'h \<Rightarrow> 'p set"
    and init :: "'p \<Rightarrow> 'h \<Rightarrow> 'h option" and add_tail :: "'p \<Rightarrow> 'p \<Rightarrow> 'h \<Rightarrow> 'h option"
    and visit :: "'p \<Rightarrow> 'h \<Rightarrow> 'p list option" and clear :: "'p \<Rightarrow> 'h \<Rightarrow> ('h \<times> 'p list) option"
  assumes init: "p \<in> nodes h \<Longrightarrow> \<exists>h'. init p h = Some h' \<and> repr h' p [] \<and> nodes h' = nodes h"
    and add_tail: "repr h p xs \<Longrightarrow> q \<in> nodes h \<Longrightarrow> q \<notin> set (p # xs) \<Longrightarrow>
      \<exists>h'. add_tail q p h = Some h' \<and> repr h' p (xs @ [q]) \<and> nodes h' = nodes h"
    and visit: "repr h p xs \<Longrightarrow> visit p h = Some xs"
    and clear: "repr h p xs \<Longrightarrow> \<exists>h'. clear p h = Some (h', xs) \<and> repr h' p [] \<and> nodes h' = nodes h - set xs"
begin

lemma add_all_repr:
  "repr h p xs \<Longrightarrow> set qs \<subseteq> nodes h \<Longrightarrow> distinct (p # xs @ qs) \<Longrightarrow> \<exists>h'. add_all add_tail p qs h = Some h' \<and> repr h' p (xs @ qs) \<and> nodes h' = nodes h"
proof (induction qs arbitrary: h xs)
  case (Cons q qs)
  then obtain h1 where 1: "add_tail q p h = Some h1" "repr h1 p (xs @ [q])" "nodes h1 = nodes h"
    using add_tail [of h p xs q] by auto
  with Cons.IH [of h1 "xs @ [q]"] Cons.prems show ?case
    by auto
qed simp

lemma build_visit_clear:
  assumes "p \<in> nodes h" "set qs \<subseteq> nodes h" "distinct (p # qs)"
  shows "\<exists>h1 h2 h3. init p h = Some h1 \<and> add_all add_tail p qs h1 = Some h2 \<and> visit p h2 = Some qs \<and> clear p h2 = Some (h3, qs)
    \<and> visit p h3 = Some [] \<and> nodes h3 = nodes h - set qs"
proof -
  obtain h1 where 1: "init p h = Some h1" "repr h1 p []" "nodes h1 = nodes h"
    using init [OF assms(1)] by blast
  obtain h2 where 2: "add_all add_tail p qs h1 = Some h2" "repr h2 p qs" "nodes h2 = nodes h"
    using add_all_repr [OF 1(2), of qs] 1(3) assms by auto
  obtain h3 where "clear p h2 = Some (h3, qs)" "repr h3 p []" "nodes h3 = nodes h - set qs"
    using clear [OF 2(2)] 2(3) by auto
  then show ?thesis
    using 1(1) 2(1) visit [OF 2(2)] visit by blast
qed

end

text \<open>The loops of the agent: one that looks at every node, and \<open>list_for_each_safe\<close> that deletes every node.\<close>

definition list_visit :: "addr \<Rightarrow> heap \<Rightarrow> addr list option" where
  "list_visit head h = map_option snd (list_for_each (\<lambda>p (h, s). Some (h, s @ [p])) head (h, []))"

definition list_clear :: "addr \<Rightarrow> heap \<Rightarrow> (heap \<times> addr list) option" where
  "list_clear head h = list_for_each_safe del_free head (h, [])"

lemma list_visit_dlist: "dlist h head xs \<Longrightarrow> list_visit head h = Some xs"
proof -
  have "fold (\<lambda>p s. s @ [p]) xs s = s @ xs" for s
    by (induction xs arbitrary: s) simp_all
  then show "dlist h head xs \<Longrightarrow> list_visit head h = Some xs"
    by (simp add: list_visit_def list_for_each_fold)
qed

lemma list_clear_dlist:
  assumes "dlist h head xs"
  shows "\<exists>h'. list_clear head h = Some (h', xs) \<and> dlist h' head [] \<and> dom h' = dom h - set xs \<and> (\<forall>q. q \<notin> set (head # xs) \<longrightarrow> h' q = h q)"
proof -
  have "hd (xs @ [head]) \<in> dom h"
    using dlist_ends(3) [OF assms] by (cases xs) auto
  then obtain n where "get_next h (hd (xs @ [head])) = Some n"
    by (auto simp: get_next_def)
  then show ?thesis
    using for_each_safe_del [OF assms, of n "[]"] dlist_ends(1) [OF assms] by (simp add: list_clear_def list_for_each_safe_def)
qed

interpretation heap_list: list_interface dlist dom INIT_LIST_HEAD list_add_tail list_visit list_clear
proof unfold_locales
  fix h p xs q
  show "p \<in> dom h \<Longrightarrow> \<exists>h'. INIT_LIST_HEAD p h = Some h' \<and> dlist h' p [] \<and> dom h' = dom h"
    using INIT_LIST_HEAD_dlist [of p h] by (auto simp: frame_def)
  show "dlist h p xs \<Longrightarrow> q \<in> dom h \<Longrightarrow> q \<notin> set (p # xs) \<Longrightarrow> \<exists>h'. list_add_tail q p h = Some h' \<and> dlist h' p (xs @ [q]) \<and> dom h' = dom h"
    using list_add_dlist(2) [of h p xs q] by (auto simp: frame_def)
  show "dlist h p xs \<Longrightarrow> list_visit p h = Some xs"
    by (rule list_visit_dlist)
  show "dlist h p xs \<Longrightarrow> \<exists>h'. list_clear p h = Some (h', xs) \<and> dlist h' p [] \<and> dom h' = dom h - set xs"
    using list_clear_dlist by blast
qed

section \<open>Properties\<close>


text \<open>C28: A list that is initialised and filled with \<open>list_add_tail\<close> is visited in the order it was filled, and the loop that empties it frees each
  of its nodes once, in order, without touching a freed node, and ends; afterwards the list is empty.\<close>

theorem list_build_visit_clear:
  assumes "p \<in> dom h" "set qs \<subseteq> dom h" "distinct (p # qs)"
  shows "\<exists>h1 h2 h3. INIT_LIST_HEAD p h = Some h1 \<and> add_all list_add_tail p qs h1 = Some h2 \<and> list_visit p h2 = Some qs
    \<and> list_clear p h2 = Some (h3, qs) \<and> list_visit p h3 = Some [] \<and> dom h3 = dom h - set qs"
  by (rule heap_list.build_visit_clear [OF assms])

theorem list_build_visit_clear_witness:
  "\<exists>h1 h2 h3. INIT_LIST_HEAD 1 [1 \<mapsto> (0, 0), 2 \<mapsto> (0, 0), 3 \<mapsto> (0, 0)] = Some h1 \<and> add_all list_add_tail 1 [3, 2] h1 = Some h2 \<and>
     list_visit 1 h2 = Some [3, 2] \<and> list_clear 1 h2 = Some (h3, [3, 2]) \<and> dom h3 = {1}"
  using list_build_visit_clear [of 1 "[1 \<mapsto> (0, 0), 2 \<mapsto> (0, 0), 3 \<mapsto> (0, 0)]" "[3, 2]"] by auto


end
