(* ===== verification/Error_Messages.thy ===== *)
theory Error_Messages
  imports Snmp_Msg_In Agentx_Msg_In
begin

text \<open>
  The error codes of the two decoders and the messages logged for them (\<open>core/snmp.h\<close>, \<open>core/agentx.h\<close>, the tables of
  \<open>core/snmp_msg_in.c\<close> and \<open>core/agentx_msg_in.c\<close>, \<open>error_message\<close> of \<open>core/util.h\<close>). Every error a decoder can report has a message, under a code that no other message has.
\<close>

section \<open>Definitions\<close>

fun snmp_err_code :: "snmp_err \<Rightarrow> int" where
  "snmp_err_code SNMP_ERR_VERSION = - 100"
| "snmp_err_code SNMP_ERR_GLOBAL_DATA_LEN = - 200"
| "snmp_err_code SNMP_ERR_GLOBAL_ID = - 201"
| "snmp_err_code SNMP_ERR_GLOBAL_SIZE = - 202"
| "snmp_err_code SNMP_ERR_GLOBAL_FLAGS = - 203"
| "snmp_err_code SNMP_ERR_GLOBAL_MODEL = - 204"
| "snmp_err_code SNMP_ERR_SECURITY_STR = - 300"
| "snmp_err_code SNMP_ERR_SECURITY_SEQ = - 301"
| "snmp_err_code SNMP_ERR_SECURITY_ENGINE_ID = - 302"
| "snmp_err_code SNMP_ERR_SECURITY_ENGINE_ID_LEN = - 303"
| "snmp_err_code SNMP_ERR_SECURITY_ENGINE_BOOTS = - 304"
| "snmp_err_code SNMP_ERR_SECURITY_ENGINE_TIME = - 305"
| "snmp_err_code SNMP_ERR_SECURITY_USER_NAME = - 306"
| "snmp_err_code SNMP_ERR_SECURITY_USER_NAME_LEN = - 307"
| "snmp_err_code SNMP_ERR_SECURITY_AUTH_PARA = - 308"
| "snmp_err_code SNMP_ERR_SECURITY_AUTH_PARA_LEN = - 309"
| "snmp_err_code SNMP_ERR_SECURITY_PRIV_PARA = - 310"
| "snmp_err_code SNMP_ERR_SECURITY_PRIV_PARA_LEN = - 311"
| "snmp_err_code SNMP_ERR_SCOPE_PDU_SEQ = - 400"
| "snmp_err_code SNMP_ERR_CONTEXT_ID = - 500"
| "snmp_err_code SNMP_ERR_CONTEXT_ID_LEN = - 501"
| "snmp_err_code SNMP_ERR_CONTEXT_NAME = - 502"
| "snmp_err_code SNMP_ERR_CONTEXT_NAME_LEN = - 503"
| "snmp_err_code SNMP_ERR_PDU_TYPE = - 600"
| "snmp_err_code SNMP_ERR_PDU_LEN = - 601"
| "snmp_err_code SNMP_ERR_PDU_REQID = - 602"
| "snmp_err_code SNMP_ERR_PDU_ERRSTAT = - 603"
| "snmp_err_code SNMP_ERR_PDU_ERRIDX = - 604"
| "snmp_err_code SNMP_ERR_VB_LIST_SEQ = - 700"
| "snmp_err_code SNMP_ERR_VB_SEQ = - 701"
| "snmp_err_code SNMP_ERR_VB_OID_TYPE = - 702"
| "snmp_err_code SNMP_ERR_VB_VAR = - 703"
| "snmp_err_code SNMP_ERR_VB_VALUE_LEN = - 704"
| "snmp_err_code SNMP_ERR_VB_OID_LEN = - 705"

fun agentx_err_code :: "agentx_err \<Rightarrow> int" where
  "agentx_err_code AGENTX_ERR_PDU_CTX_LEN = - 100"
| "agentx_err_code AGENTX_ERR_VB_VAR = - 200"
| "agentx_err_code AGENTX_ERR_VB_VALUE_LEN = - 201"
| "agentx_err_code AGENTX_ERR_VB_OID_LEN = - 202"
| "agentx_err_code AGENTX_ERR_SR_VAR = - 300"
| "agentx_err_code AGENTX_ERR_SR_OID_LEN = - 301"

definition snmp_err_msg :: "(int \<times> string) list" where
  "snmp_err_msg =
     [(0, ''Every thing is OK!''),
      (- 100, ''SNMP version tag should be integer!''),
      (- 200, ''SNMP global data tag should be sequence!''),
      (- 201, ''SNMP message id tag should be integer!''),
      (- 202, ''SNMP message max size tag should be integer!''),
      (- 203, ''SNMP message flags tag should be octect string!''),
      (- 204, ''SNMP security model tag should be integer!''),
      (- 300, ''SNMP security string tag should be octect string!''),
      (- 301, ''SNMP security tag should be sequence!''),
      (- 302, ''SNMP engine id tag should be integer!''),
      (- 303, ''SNMP engine id length should not exceed 32 bytes!''),
      (- 304, ''SNMP engine boots tag should be integer!''),
      (- 305, ''SNMP engine time tag should be integer!''),
      (- 306, ''SNMP user name tag should be octect string!''),
      (- 307, ''SNMP user name length exceeds!''),
      (- 308, ''SNMP authoritative parameter tag should be octect string!''),
      (- 309, ''SNMP authoritative parameter length exceeds!''),
      (- 310, ''SNMP privative parameter tag should be octect string!''),
      (- 311, ''SNMP privative parameter length exceeds!''),
      (- 400, ''SNMP scope PDU tag should be sequence!''),
      (- 500, ''SNMP context id tag should be octect string!''),
      (- 501, ''SNMP context id length should not exceed 32 bytes!''),
      (- 502, ''SNMP context name tag should be octect string!''),
      (- 503, ''SNMP context name length exceeds!''),
      (- 600, ''SNMP PDU tag should be sequence!''),
      (- 601, ''SNMP PDU length not match!''),
      (- 602, ''SNMP PDU request id tag should be integer!''),
      (- 603, ''SNMP PDU error status tag should be integer!''),
      (- 604, ''SNMP PDU error index tag should be integer!''),
      (- 700, ''SNMP varbind list tag should be sequence!''),
      (- 701, ''SNMP varbind tag should be sequence!''),
      (- 702, ''SNMP varbind oid tag should be object identifier!''),
      (- 703, ''SNMP varbind allocation fail!''),
      (- 704, ''SNMP varbind value length exceeds!''),
      (- 705, ''SNMP varbind oid length exceeds!'')]"

definition agentx_err_msg :: "(int \<times> string) list" where
  "agentx_err_msg =
     [(0, ''Every thing is OK!''),
      (- 100, ''AgentX PDU context length exceeds!''),
      (- 200, ''AgentX varbind allocation fail!''),
      (- 201, ''AgentX varbind value length exceeds!''),
      (- 202, ''AgentX varbind oid length exceeds!''),
      (- 300, ''AgentX search range allocation fail!''),
      (- 301, ''AgentX search range oid length exceeds!'')]"

text \<open>\<open>None\<close> is the null pointer.\<close>

primrec error_message :: "(int \<times> string) list \<Rightarrow> int \<Rightarrow> string option" where
  "error_message [] err = None"
| "error_message (m # ms) err = (if fst m = err then Some (snd m) else error_message ms err)"

section \<open>Every error has a message\<close>

lemma error_message_map: "error_message ms = map_of ms"
  by (induction ms) auto

text \<open>The tables have one entry for each code, so a message identifies its error.\<close>

lemma snmp_err_codes: "map fst snmp_err_msg = [0, - 100, - 200, - 201, - 202, - 203, - 204, - 300, - 301, - 302, - 303, - 304, - 305, - 306, - 307, - 308, - 309, - 310,
    - 311, - 400, - 500, - 501, - 502, - 503, - 600, - 601, - 602, - 603, - 604, - 700, - 701, - 702, - 703, - 704, - 705]"
  by (simp only: snmp_err_msg_def list.map fst_conv)

lemma agentx_err_codes: "map fst agentx_err_msg = [0, - 100, - 200, - 201, - 202, - 300, - 301]"
  by (simp only: agentx_err_msg_def list.map fst_conv)

lemma message_found: "c \<in> set (map fst ms) \<Longrightarrow> distinct (map fst ms) \<Longrightarrow> \<exists>msg. (c, msg) \<in> set ms \<and> error_message ms c = Some msg"
  by (auto simp: error_message_map)

lemma snmp_error_message: "\<exists>msg. (snmp_err_code e, msg) \<in> set snmp_err_msg \<and> error_message snmp_err_msg (snmp_err_code e) = Some msg"
  by (rule message_found; unfold snmp_err_codes; cases e; simp)

lemma agentx_error_message: "\<exists>msg. (agentx_err_code e, msg) \<in> set agentx_err_msg \<and> error_message agentx_err_msg (agentx_err_code e) = Some msg"
  by (rule message_found; unfold agentx_err_codes; cases e; simp)

end
