(* ===== verification/Spec2Isabelle.thy ===== *)
theory Spec2Isabelle
  imports Udp_Libevent Udp_Uloop Udp_Epoll Smartsnmp_Run List_Heap Error_Messages
begin

text \<open>
  SmartSNMP: a verification development of the agent core.

  SmartSNMP is an SNMP agent and AgentX sub-agent in C with its MIB modules in Lua. This library models the C code under
  \<open>src/core\<close> and proves what it does. A C computation that may run into undefined behaviour (an access outside an object, a failed
  assertion, a null pointer, a loop that does not end) is an \<open>option\<close> value and \<open>None\<close> is that outcome, so a theorem that gives
  \<open>Some\<close> also states that the code is safe there. C integers are machine words of their width, or mathematical
  integers where the code cannot overflow them. Hosts are little-endian, as in the default build; the big-endian branches of the BER encoder are
  separate definitions.

  \<^bold>\<open>The parts of the program, in the order of the theories.\<close>

  \<^item> \<open>Prelude\<close>: integer types, buffers with checked accesses, byte images of words. \<open>Answer_Loop\<close>: the loop over the
    variable bindings of a request that SNMP and AgentX share, with the locale \<open>answer_loop\<close>: its
    searches are made one after the other, each gives one variable binding of the answer, and the error fields are those of the first that fails.
  \<^item> \<open>List_Heap\<close> (\<open>list.h\<close>): doubly linked lists on an explicit store. \<open>list_ops_refine\<close> shows that the pointer operations implement the
    operations on sequences, \<open>list_build_visit_clear\<close> that lists are visited in order and emptied without touching freed nodes; so the other
    theories use HOL lists. Locale \<open>list_interface\<close>, interpreted on the store.
  \<^item> \<open>Oid\<close>, \<open>Ber_Encoder\<close>, \<open>Ber_Decoder\<close>, \<open>Ber_Codec\<close> (\<open>mib_tree.c\<close>, \<open>snmp_encoder.c\<close>, \<open>snmp_decoder.c\<close>): object identifiers, the BER coder, its
    round trips and sizes.
  \<^item> \<open>Mib_Tree\<close>, \<open>Mib_Reg\<close>, \<open>Mib_Unreg\<close> (\<open>mib_tree.c\<close>): the tree of group and instance nodes with its sorted arrays. Abstractly the tree is the sorted
    list of its instances (\<open>mib_insts\<close>); the locale \<open>oid_registry\<close> states registration and deletion over it and is interpreted on the tree.
  \<^item> \<open>Mib_Search\<close>, \<open>Mib_Get\<close>, \<open>Mib_Next\<close> (\<open>mib_tree.c\<close>): the search of an instance, the call of its Lua handler, and the ordered search with its
    backlog stack, which refines trying the instances above the identifier one after the other.
  \<^item> \<open>Mib_View\<close> (\<open>mib_view.c\<close>): views, communities and users, and the access they give.
  \<^item> \<open>Snmp_Msg_In\<close>, \<open>Snmp_Msg_Out\<close>, \<open>Snmp_Msg_Codec\<close> (\<open>snmp_msg_in.c\<close>, \<open>snmp_msg_out.c\<close>): decoder and encoder of messages of the three SNMP
    versions, their round trip and bounds.
  \<^item> \<open>Snmp_Msg_Proc\<close>, \<open>Snmp_Access\<close>, \<open>Snmp_Agent\<close> (\<open>snmp_msg_proc.c\<close>): the four requests, access control, errors and sizes of the
    answers; the interpretations \<open>snmp_get\<close>, \<open>snmp_getnext\<close> and \<open>snmp_set\<close> of \<open>answer_loop\<close>.
  \<^item> \<open>Agentx_Codec\<close>, \<open>Agentx_Msg_In\<close>, \<open>Agentx_Msg_Out\<close>, \<open>Agentx_Msg_Codec\<close>, \<open>Agentx_Roundtrip\<close> (\<open>agentx_encoder.c\<close>, \<open>agentx_decoder.c\<close>,
    \<open>agentx_msg_in.c\<close>, \<open>agentx_msg_out.c\<close>): values and PDUs of AgentX; locale \<open>payload_loop\<close> for the two loops over a payload, whose elements fill
    the announced payload.
  \<^item> \<open>Agentx_Msg_Proc\<close>, \<open>Agentx_Agent\<close>, \<open>Agentx_Session\<close> (\<open>agentx_msg_proc.c\<close>, \<open>agentx.c\<close>): requests of the master and the session
    with it; the interpretations \<open>x_read\<close> and \<open>x_write\<close> of \<open>answer_loop\<close>.
  \<^item> \<open>Event_Loop\<close> (\<open>ev_loop.c\<close>, \<open>ev_select.h\<close>): the table of events and the descriptor sets, whose invariant holds in every reachable
    state. \<open>Event_Epoll\<close> (\<open>ev_epoll.h\<close>): the loop with the epoll back end, which treats the table in the same way and is right for one
    descriptor only.
  \<^item> \<open>Transport\<close> (\<open>snmp.c\<close>, \<open>protocol.h\<close>, \<open>transport.h\<close>): the contract between protocol and transport, as the locale \<open>transport\<close>, with the abstract
    server \<open>serve\<close>; a \<open>sendto\<close> may fail, and then one answer is missing, and the loop may end; and the evaluation of a whole exchange, from the bytes of a GET datagram to the bytes of its answer.
  \<^item> \<open>Udp_Evloop\<close>, \<open>Udp_Libevent\<close>, \<open>Udp_Uloop\<close> (\<open>snmp_udp_*_transport.c\<close>): the three UDP transports and how far each refines the abstract server; for
    the default one also the traces under any behaviour of the operating system. \<open>Udp_Epoll\<close>: the default one with the epoll back end, by simulation; it refines
    the abstract server without any condition on the order of events.
    \<open>Agentx_Transport\<close> (\<open>agentx_tcp_evloop_transport.c\<close>): the connection of the sub-agent.
  \<^item> \<open>Smartsnmp\<close> (\<open>smartsnmp.c\<close>): the functions for Lua scripts. \<open>Smartsnmp_Run\<close>: scripts as sequences of calls, and \<open>smartsnmp_run\<close> on what they have
    registered. \<open>Error_Messages\<close>: the messages of the decoders' errors.
  \<^item> This theory: properties of the whole agent, from the Lua functions and the network down to the handlers.

  \<^bold>\<open>How the parts interact.\<close> A script calls \<open>smartsnmp_init\<close>, registers handlers in the tree and communities in the views, and runs the protocol. The
  transport waits in the event loop, hands a datagram to \<open>snmpd_recv\<close> or \<open>agentx_recv\<close>, which decode it and run a request: each variable
  binding is searched in the tree, for SNMP within the views of the requester, and the handler of the instance is called. The
  encoder writes the answer, and the transport sends it. The definitions follow these calls; the state each operation reads or writes
  is passed explicitly.

  \<^bold>\<open>Parameters.\<close> Lua handlers are a function from arguments and a state to results; the operating system (\<open>select\<close>, sockets), libevent and the
  Lua library are parameters too. Where the code relies on their documented behaviour it is a named hypothesis (\<open>libevent_ok\<close>,
  \<open>handler_advances\<close>), with a witness.

  \<^bold>\<open>Loops.\<close> Loops that go through data are structural recursions. The loops that may fail to end (\<open>search_next_loop\<close>, \<open>delete_loop\<close>, \<open>views_search\<close>,
  \<open>principal_unreg\<close>, the loops of \<open>list.h\<close>) are partial functions, where not ending is \<open>None\<close>; their theorems state that they return, and
  \<open>mib_community_unreg_write_diverges\<close> that one does not. The main loop is a recursion over the rounds the operating system provides, so it needs no
  bound of its own. Trees are limited to 43689 registrations, below which the 16-bit capacities cannot wrap, and views to the 1024 sub-identifiers for which
  \<open>oid_dup\<close> allocates memory (\<open>view_oid\<close>; beyond them registration is undefined, \<open>mib_community_reg_overflow\<close>).

  \<^bold>\<open>Not modelled.\<close> The kqueue back end, which does not compile; the TCP connection of the sub-agent on the epoll back end; logging
  and memory exhaustion, which only print or end the process; starting and ending the loop of uloop; calls of the functions for scripts by handlers
  while the agent runs; \<open>agentx_notify_pdu\<close>, which the preprocessor removes; the Lua code.
\<close>

section \<open>Noise on the network\<close>

text \<open>Datagrams that are no requests, and on which the agent is safe: not empty, at most \<open>TRANS_BUF_SIZ\<close> bytes, and not a BER sequence, or refused by
  the decoder, or with another PDU. An empty datagram fails the assertion of \<open>snmpd_recv\<close>, and on some malformed ones the decoder reads past the
  end of the buffer (\<open>snmp_decode_msg\<close> is \<open>None\<close>, as in \<open>snmpd_recv_overread\<close>); these are not noise in the sense of this definition.\<close>

definition noise :: "bytes \<Rightarrow> bool" where
  "noise b \<longleftrightarrow> b \<noteq> [] \<and> length b \<le> TRANS_BUF_SIZ \<and> (hd b \<noteq> ASN1_TAG_SEQ \<or>
     (case snmp_decode_msg b snmp_datagram_clear of
        Some (Inl e) \<Rightarrow> True
      | Some (Inr sdg) \<Rightarrow> pdu_type (hdr sdg) \<notin> {MIB_REQ_GET, MIB_REQ_GETNEXT, MIB_REQ_SET, MIB_REQ_BULKGET}
      | None \<Rightarrow> False))"

lemma noise_received:
  assumes "noise b"
  shows "\<exists>sdg'. trans_receive (snmpd_receive lua root db) (Some b) (sdg, w) = Some ((sdg', w), None)"
proof (cases "hd b = ASN1_TAG_SEQ")
  case True
  then show ?thesis
    using assms snmpd_recv_dropped [of b lua root db sdg w] by (auto simp: noise_def trans_receive_def snmpd_receive_def)
next
  case False
  then show ?thesis
    using assms by (cases b) (auto simp: noise_def trans_receive_def snmpd_receive_def snmpd_recv_def rd_def)
qed

text \<open>Rounds with noise or nothing to read. The socket is not reported as writable, since no answer is pending.\<close>

definition noise_event :: "'a tev \<Rightarrow> bool" where
  "noise_event e = (case e of Ev_In b a \<Rightarrow> noise b | Ev_Out taken \<Rightarrow> False | Ev_Other \<Rightarrow> True)"

lemma noise_served:
  assumes "list_all noise_event es"
  shows "\<exists>sdg'. serve (snmpd_receive lua root db) (datagrams es) (sdg, w) = Some ((sdg', w), []) \<and>
    tev_allowed (Some 1) (snmpd_receive lua root db) es (sdg, w) 0"
  using assms
proof (induction es arbitrary: sdg)
  case (Cons e es)
  then consider b a where "e = Ev_In b a" "noise b" | "e = Ev_Other"
    by (cases e) (auto simp: noise_event_def)
  then show ?case
  proof cases
    case 1
    then obtain sdg1 where "trans_receive (snmpd_receive lua root db) (Some b) (sdg, w) = Some ((sdg1, w), None)"
      using noise_received [of b lua root db sdg w] by blast
    then show ?thesis
      using 1 Cons.IH [of sdg1] Cons.prems by (auto simp: answer_to_def)
  next
    case 2
    then show ?thesis
      using Cons.IH [of sdg] Cons.prems by auto
  qed
qed simp

lemma noise_no_failure: "list_all noise_event es \<Longrightarrow> took_place runs es1 es \<Longrightarrow> runs \<and> es1 = es"
  by (auto simp: took_place_def noise_event_def list_all_iff prefix_def split: if_splits)

text \<open>C8: The agent on the default transport ignores noise: if in every round \<open>select\<close> reports a datagram that is noise, from whatever client, or
  nothing, the agent goes on to serve, sends nothing, asks no handler and has no answer pending. Noise is a datagram of 1 to 65536 bytes that is no request and
  on which the decoder does not read past its end.\<close>

theorem noise_ignored:
  assumes "length (el_event el) = SNMP_MAX_EVENTS" "fd_ok (ud_sock u)" "ud_buf u = None" "list_all noise_event es"
  shows "\<exists>st'. evloop_transport_running (snmpd_receive lua root db) (map (tev_os (ud_sock u)) es) (el, u) = Some st'
    \<and> serving st' \<and> ud_sent (snd st') = ud_sent u \<and> udp_waiting st' = [] \<and> snd (ud_agent (snd st')) = snd (ud_agent u)"
proof -
  obtain sdg' where s: "serve (snmpd_receive lua root db) (datagrams es) (ud_agent u) = Some ((sdg', snd (ud_agent u)), [])"
      "tev_allowed (Some 1) (snmpd_receive lua root db) es (ud_agent u) 0"
    using noise_served [OF assms(4), of lua root db "fst (ud_agent u)" "snd (ud_agent u)"] by auto
  obtain st' es1 out where st': "evloop_transport_running (snmpd_receive lua root db) (map (tev_os (ud_sock u)) es) (el, u) = Some st'"
      "took_place (udp_running st') es1 es" "udp_running st' \<longrightarrow> serving st'"
      "serve (snmpd_receive lua root db) (datagrams es1) (ud_agent u) = Some (ud_agent (snd st'), out)"
      "all_but (if udp_running st' then 0 else 1) (ud_sent u @ out) (ud_sent (snd st') @ udp_waiting st')"
      "prefix (ud_sent u) (ud_sent (snd st'))"
    using evloop_run [OF assms(1-3) s(2)] by blast
  have run: "udp_running st'" "es1 = es"
    using noise_no_failure [OF assms(4) st'(2)] by simp_all
  have out: "ud_sent (snd st') @ udp_waiting st' = ud_sent u" "ud_agent (snd st') = (sdg', snd (ud_agent u))"
    using st'(4,5) s(1) run by simp_all
  have "udp_waiting st' = []"
    using st'(6) out(1) by (metis append_is_Nil_conv append_self_conv prefix_def append.assoc)
  then show ?thesis
    using st'(1,3) out run(1) by auto
qed

theorem noise_ignored_witness:
  "\<exists>st'. evloop_transport_running rc_130 (map (tev_os 4) [Ev_In [0x31] 7, Ev_Other, Ev_In [0x30, 0x01, 0x04] 8]) (el_zero, udp_4) = Some st' \<and>
     serving st' \<and> ud_sent (snd st') = [] \<and> udp_waiting st' = []"
proof -
  have "list_all noise_event [Ev_In [0x31] 7, Ev_Other, Ev_In [0x30, 0x01, 0x04] (8 :: nat)]"
    by (simp add: noise_event_def noise_def TRANS_BUF_SIZ_def snmp_decode_msg_def int_field_def expect_def lift_def ber_length_dec_def rd_def rdn_def)
  from noise_ignored [OF el_zero_length udp_4_ok(1,2) this] show ?thesis
    unfolding udp_4_ok by blast
qed

section \<open>Write access given by scripts\<close>

text \<open>The write access one call of a script gives.\<close>

fun call_grants :: "('v, 'r) lua_api \<Rightarrow> 'v script_call \<Rightarrow> bytes \<Rightarrow> oid \<Rightarrow> bool" where
  "call_grants api (Call_Community_Reg args) c q \<longleftrightarrow> (\<exists>t n. lua_arg_at args 1 = Some t \<and> la_table api t \<and> prefix (lua_oid api t) q \<and>
     lua_arg_at args 2 = Some n \<and> la_string api n = Some c \<and> (lua_arg_at args 3 \<bind> la_int api) = Some 2)"
| "call_grants api _ c q \<longleftrightarrow> False"

text \<open>Calls that do not touch the access rights.\<close>

lemma calls_keep_db:
  "smartsnmp_init api trans_init args st = Some (res, st') \<Longrightarrow> ag_db st' = ag_db st"
  "smartsnmp_open lua net st = Some (res, st') \<Longrightarrow> ag_db st' = ag_db st"
  "smartsnmp_exit lua net st = Some (res, st') \<Longrightarrow> ag_db st' = ag_db st"
  "smartsnmp_mib_node_reg api lua net args st = Some (res, st') \<Longrightarrow> ag_db st' = ag_db st"
  "smartsnmp_mib_node_unreg api lua net args st = Some (res, st') \<Longrightarrow> ag_db st' = ag_db st"
  by (auto simp: smartsnmp_init_def smartsnmp_open_def smartsnmp_exit_def smartsnmp_mib_node_reg_def smartsnmp_mib_node_unreg_def Let_def
      Option.bind_eq_Some_conv split: option.splits if_splits prod.splits)

lemma community_reg_write:
  assumes "db_ok (ag_db st)" "call_ok api (Call_Community_Reg args)" "smartsnmp_mib_community_reg api args st = Some (res, st')"
    and "community_may (ag_db st') c MIB_ACES_WRITE q = Some True"
  shows "community_may (ag_db st) c MIB_ACES_WRITE q = Some True \<or> call_grants api (Call_Community_Reg args) c q"
proof (cases "ag_db st' = ag_db st")
  case False
  then obtain t n a where a: "lua_arg_at args 1 = Some t" "(lua_arg_at args 2 \<bind> la_string api) = Some n" "(lua_arg_at args 3 \<bind> la_int api) = Some a"
      "la_table api t" "mib_community_reg (ag_db st) (lua_oid api t) n (aces_reg a) = Some (ag_db st')"
    using assms(3) by (auto simp: smartsnmp_mib_community_reg_def Option.bind_eq_Some_conv split: option.splits if_splits)
  moreover have "view_oid (lua_oid api t)"
    using assms(2) a(1) by simp
  ultimately show ?thesis
    using mib_community_reg_effect [OF assms(1), of "lua_oid api t" n "aces_reg a"] assms(4)
    by (auto simp: aces_reg_def Option.bind_eq_Some_conv split: if_splits)
qed (use assms(4) in simp)

lemma db_ops_write:
  assumes "db_ok db" "community_may db' c a q = Some True"
  shows "mib_community_unreg db n MIB_ACES_READ = Some db' \<Longrightarrow> community_may db c a q = Some True"
    and "mib_user_unreg db n MIB_ACES_READ = Some db' \<Longrightarrow> community_may db c a q = Some True"
    and "view_oid oid \<Longrightarrow> mib_user_reg db oid n attr = Some db' \<Longrightarrow> community_may db c a q = Some True"
  using assms mib_community_unreg_read [OF assms(1), of n] mib_user_unreg_read [OF assms(1), of n] mib_user_reg_spec [OF assms(1), of oid n attr]
  by auto

lemma access_calls_write:
  assumes "db_ok (ag_db st)" "community_may (ag_db st') c MIB_ACES_WRITE q = Some True"
  shows "call_ok api (Call_Community_Unreg args) \<Longrightarrow> smartsnmp_mib_community_unreg api args st = Some (res, st') \<Longrightarrow>
      community_may (ag_db st) c MIB_ACES_WRITE q = Some True"
    and "call_ok api (Call_User_Reg args) \<Longrightarrow> smartsnmp_mib_user_reg api args st = Some (res, st') \<Longrightarrow>
      community_may (ag_db st) c MIB_ACES_WRITE q = Some True"
    and "call_ok api (Call_User_Unreg args) \<Longrightarrow> smartsnmp_mib_user_unreg api args st = Some (res, st') \<Longrightarrow>
      community_may (ag_db st) c MIB_ACES_WRITE q = Some True"
  using assms db_ops_write [OF assms]
  by (auto simp: smartsnmp_mib_community_unreg_def smartsnmp_mib_user_reg_def smartsnmp_mib_user_unreg_def aces_unreg_def
      Option.bind_eq_Some_conv split: option.splits if_splits)

lemma smartsnmp_func_write:
  assumes "db_ok (ag_db st)" "call_ok api x" "smartsnmp_func api trans_init lua net x st = Some (res, st')"
    and "community_may (ag_db st') c MIB_ACES_WRITE q = Some True"
  shows "community_may (ag_db st) c MIB_ACES_WRITE q = Some True \<or> call_grants api x c q"
proof (cases x)
  case (Call_Community_Reg args)
  then show ?thesis
    using community_reg_write [OF assms(1) _ _ assms(4), of api args res] assms(2,3) by (simp only: smartsnmp_func_def script_call.case)
qed (use assms(2-4) in \<open>auto simp: smartsnmp_func_def simp del: call_ok.simps dest: calls_keep_db access_calls_write [OF assms(1,4)]\<close>)

lemma script_write:
  assumes "agent_ok k st" "k + length cs \<le> 43689" "list_all (call_ok api) cs" "script api trans_init lua net cs st = Some st'"
    and "community_may (ag_db st') c MIB_ACES_WRITE q = Some True"
  shows "community_may (ag_db st) c MIB_ACES_WRITE q = Some True \<or> list_ex (\<lambda>x. call_grants api x c q) cs"
  using assms
proof (induction cs arbitrary: k st)
  case (Cons x cs)
  obtain res st1 where 1: "smartsnmp_func api trans_init lua net x st = Some (res, st1)" "agent_ok (Suc k) st1"
    using smartsnmp_func_ok [OF Cons.prems(1), of api x trans_init lua net] Cons.prems(2,3) by (auto simp: defined_ok_def)
  have "community_may (ag_db st1) c MIB_ACES_WRITE q = Some True \<or> list_ex (\<lambda>x. call_grants api x c q) cs"
    using Cons.IH [OF 1(2)] Cons.prems(2-5) 1(1) by simp
  then show ?case
    using smartsnmp_func_write [OF _ _ 1(1), of c q] Cons.prems(1,3) by (auto simp: agent_ok_def)
qed simp

lemma requester_may:
  assumes "db_ok db" "sint (version sdg) < 3" "c_str (context_name sdg) = Some c"
  shows "requester db sdg = Some (mib_community_search db c)"
    "list_ex (\<lambda>v. prefix v q) (requester_views db (mib_community_search db c) a) \<longleftrightarrow> community_may db c a q = Some True"
proof -
  show r: "requester db sdg = Some (mib_community_search db c)"
    using assms(2,3) by (simp add: requester_def)
  show "list_ex (\<lambda>v. prefix v q) (requester_views db (mib_community_search db c) a) \<longleftrightarrow> community_may db c a q = Some True"
  proof (cases "mib_community_search db c")
    case None
    then show ?thesis
      by (simp add: requester_views_def community_may_def mib_community_view_cover_def view_cover_def)
  next
    case (Some p)
    then show ?thesis
      using requester_cover [OF assms(1), of sdg p a q] r assms(2) by (simp add: requester_view_cover_def community_may_def)
  qed
qed

text \<open>C7: Write access comes only from scripts that give it: after \<open>smartsnmp_init\<close> for SNMP on a fresh agent and any sequence of at most 43689 harmless calls by a
  script (\<open>call_ok\<close>: the registered views have at most 1024 sub-identifiers, all below \<open>2 ^ 31\<close>, no community or user is unregistered for writing only, since that call
  may not end, and AgentX is not initialised), a SET, in a message of version 1 or 2c, of an identifier of at most 1024 sub-identifiers below \<open>2 ^ 31\<close> by a community for which none of the
  calls named write access at or above the identifier is answered with \<open>noAccess\<close>, and no handler is asked.\<close>

theorem script_write_access:
  assumes "la_string api a = Some s_snmp" "la_int api b = Some port" "ag_db ag0 = db_init" "list_all (call_ok api) cs" "length cs \<le> 43689"
    and "small_oid (vb_oid vb)" "length (vb_oid vb) \<le> 1024" "sr_request r = MIB_REQ_SET"
    and "sint (version sdg) < 3" "c_str (context_name sdg) = Some c" "\<not> list_ex (\<lambda>x. call_grants api x c (vb_oid vb)) cs"
  shows "\<exists>ag root r'. script api trans_init lua net (Call_Init [a, b] # cs) ag0 = Some ag \<and> xs_mib (ag_session ag) = Some root \<and>
    mib_set lua root (ag_db ag) sdg vb r w = Some (r', w) \<and> sr_err_stat r' = SNMP_ERR_STAT_NO_ACCESS \<and> sr_oid r' = vb_oid vb"
proof -
  obtain res ag1 where 1: "smartsnmp_init api trans_init [a, b] ag0 = Some (res, ag1)" "agent_ok 0 ag1" "ag_db ag1 = db_init"
    using script_init [OF assms(1-3), of trans_init] by blast
  obtain ag where ag: "script api trans_init lua net cs ag1 = Some ag" "agent_ok (length cs) ag"
    using script_ok [OF 1(2), of cs api trans_init lua net] assms(4,5) by auto
  then obtain root where root: "xs_mib (ag_session ag) = Some root" "mib_ok (length cs) (Some root)" "db_ok (ag_db ag)"
    by (auto simp: agent_ok_def mib_ok_def split: option.splits)
  have "community_may db_init c MIB_ACES_WRITE (vb_oid vb) \<noteq> Some True"
    by (simp add: community_may_def mib_community_view_cover_def mib_community_search_def principal_search_def view_cover_def db_init_def)
  then have "\<not> list_ex (\<lambda>v. prefix v (vb_oid vb)) (requester_views (ag_db ag) (mib_community_search (ag_db ag) c) MIB_ACES_WRITE)"
    using requester_may(2) [OF root(3) assms(9,10)] script_write [OF 1(2) _ assms(4) ag(1), of c "vb_oid vb"] 1(3) assms(5,11) by auto
  then have "\<exists>r'. mib_set lua root (ag_db ag) sdg vb r w = Some (r', w) \<and> sr_err_stat r' = SNMP_ERR_STAT_NO_ACCESS \<and> sr_oid r' = vb_oid vb"
    using mib_set_eq [OF root(2,3) assms(6,7) _ requester_may(1) [OF root(3) assms(9,10)], of r lua w] assms(8) by (auto simp: agrees_def)
  then show ?thesis
    using 1(1) ag(1) root(1) by (auto simp: smartsnmp_func_def)
qed

text \<open>The script of the examples gives the community \<open>p\<close> read access to 1.\<close>

theorem script_write_access_witness:
  "\<exists>ag root r'. script example_api (\<lambda>_ _. 0) const_handler refusing_net (Call_Init [E_Str ''snmp'', E_Int 161] # example_script)
       (example_agent\<lparr>ag_ops := None\<rparr>) = Some ag \<and> xs_mib (ag_session ag) = Some root \<and>
     mib_set const_handler root (ag_db ag) sdg_p vb_130 (res_zero MIB_REQ_SET) () = Some (r', ()) \<and> sr_err_stat r' = SNMP_ERR_STAT_NO_ACCESS"
proof -
  have pre: "la_string example_api (E_Str ''snmp'') = Some s_snmp" "la_int example_api (E_Int 161) = Some 161"
      "ag_db (example_agent\<lparr>ag_ops := None\<rparr>) = db_init"
    by (simp_all add: example_api_def s_snmp_def example_agent_def)
  have c: "c_str (context_name sdg_p) = Some [0x70]"
    by (simp add: sdg_p_def c_str_def takeWhile_replicate)
  have g: "\<not> list_ex (\<lambda>x. call_grants example_api x [0x70] (vb_oid vb_130)) example_script"
    by (simp add: example_script_def lua_arg_at_def example_api_def)
  have "sr_request (res_zero MIB_REQ_SET) = MIB_REQ_SET" "sint (version sdg_p) < 3"
    by (simp_all add: res_zero_def sdg_p_def)
  from script_write_access [OF pre example_script_ok vb_130_small this c g, where lua = const_handler and w = "()"] show ?thesis
    by blast
qed

end
